(* ===== verification/Prelude.thy ===== *)
theory Prelude
  imports Main "HOL-Library.Word" "HOL-Library.Signed_Division"
begin

text \<open>
  Shared vocabulary of the development: the machine integers of the Go code,
  head and last element of a list as optional pointers, the model of
  \<^verbatim>\<open>sort.Search\<close> of the Go standard library, and the generic lemmas on
  sorted lists and signed words that several components use.
\<close>

named_theorems px_qty_simps
  \<open>comparison and arithmetic methods of Px and Qty, unfolded\<close>
named_theorems frame_simps
  \<open>which fields of a store or a book an operation leaves alone\<close>

type_synonym int64 = "64 word"
type_synonym uint64 = "64 word"

section \<open>Optional heads and tails\<close>

text \<open>
  \<open>hd_or xs q\<close> is a pointer to the first element of \<open>xs\<close>, or \<open>q\<close> when there is
  none; \<open>last_or\<close> likewise for the last element. They describe the head, tail,
  next and prev pointers of a linked list whose nodes are \<open>xs\<close>.
\<close>

definition hd_or :: "'a list \<Rightarrow> 'a option \<Rightarrow> 'a option" where
  "hd_or xs q = (case xs of [] \<Rightarrow> q | x # _ \<Rightarrow> Some x)"

definition last_or :: "'a list \<Rightarrow> 'a option \<Rightarrow> 'a option" where
  "last_or xs p = (if xs = [] then p else Some (last xs))"

lemma hd_or_simps [simp]:
  "hd_or [] q = q" "hd_or (x # xs) q = Some x"
  by (simp_all add: hd_or_def)

lemma last_or_simps [simp]:
  "last_or [] p = p" "last_or (xs @ [x]) p = Some x" "last_or [x] p = Some x"
  by (simp_all add: last_or_def)

lemma last_or_Cons: "last_or (x # xs) p = last_or xs (Some x)"
  by (simp add: last_or_def)

lemma hd_or_append: "hd_or (xs @ ys) q = hd_or xs (hd_or ys q)"
  by (cases xs) simp_all

lemma last_or_append: "last_or (xs @ ys) p = last_or ys (last_or xs p)"
  by (simp add: last_or_def)

lemma hd_or_None_iff [simp]: "hd_or xs None = None \<longleftrightarrow> xs = []"
  by (cases xs) simp_all

lemma last_or_None_iff [simp]: "last_or xs None = None \<longleftrightarrow> xs = []"
  by (simp add: last_or_def)

lemma hd_or_nonempty: "xs \<noteq> [] \<Longrightarrow> hd_or xs q = Some (hd xs)"
  by (cases xs) simp_all

lemma hd_or_SomeD: "hd_or xs None = Some x \<Longrightarrow> \<exists>ys. xs = x # ys"
  by (cases xs) simp_all

section \<open>Binary search\<close>

text \<open>
  \<^verbatim>\<open>sort.Search(n, f)\<close> of the standard library: the interval \<open>[i, j)\<close> is
  halved until it is empty.
\<close>

function search_loop :: "(nat \<Rightarrow> bool) \<Rightarrow> nat \<Rightarrow> nat \<Rightarrow> nat" where
  "search_loop f i j =
     (if i < j
      then let h = (i + j) div 2
           in if \<not> f h then search_loop f (h + 1) j else search_loop f i h
      else i)"
  by pat_completeness auto
termination
  by (relation "measure (\<lambda>(f, i, j). j - i)") auto

declare search_loop.simps [simp del]

definition sort_Search :: "nat \<Rightarrow> (nat \<Rightarrow> bool) \<Rightarrow> nat" where
  "sort_Search n f = search_loop f 0 n"

lemma search_loop_unfold:
  "\<not> i < j \<Longrightarrow> search_loop f i j = i"
  "i < j \<Longrightarrow> f ((i + j) div 2) \<Longrightarrow> search_loop f i j = search_loop f i ((i + j) div 2)"
  "i < j \<Longrightarrow> \<not> f ((i + j) div 2) \<Longrightarrow> search_loop f i j = search_loop f ((i + j) div 2 + 1) j"
  by (subst search_loop.simps, simp add: Let_def)+

lemma search_loop_bounds: "i \<le> j \<Longrightarrow> i \<le> search_loop f i j \<and> search_loop f i j \<le> j"
proof (induction f i j rule: search_loop.induct)
  case (1 f i j)
  let ?h = "(i + j) div 2"
  consider "\<not> i < j" | "i < j" "f ?h" | "i < j" "\<not> f ?h" by blast
  then show ?case
  proof cases
    case 1
    with "1.prems" show ?thesis by (simp add: search_loop_unfold)
  next
    case 2
    then have "i \<le> ?h" "?h < j" by auto
    with "1.IH"(2) [OF 2(1) refl] 2 show ?thesis
      by (auto simp: search_loop_unfold)
  next
    case 3
    then have "i \<le> ?h" "?h < j" by auto
    with "1.IH"(1) [OF 3(1) refl] 3 show ?thesis
      by (auto simp: search_loop_unfold)
  qed
qed

text \<open>
  On a predicate that, once true, stays true, the search returns the boundary:
  it fails everywhere below and holds everywhere at or above it.
\<close>

lemma search_loop_boundary:
  assumes mono: "\<And>a b. a \<le> b \<Longrightarrow> b < n \<Longrightarrow> f a \<Longrightarrow> f b"
  shows "i \<le> j \<Longrightarrow> j \<le> n \<Longrightarrow> \<forall>k < i. \<not> f k \<Longrightarrow> \<forall>k. j \<le> k \<longrightarrow> k < n \<longrightarrow> f k \<Longrightarrow>
    (\<forall>k < search_loop f i j. \<not> f k) \<and> (\<forall>k. search_loop f i j \<le> k \<longrightarrow> k < n \<longrightarrow> f k)"
proof (induction "j - i" arbitrary: i j rule: less_induct)
  case less
  let ?h = "(i + j) div 2"
  show ?case
  proof (cases "i < j")
    case False
    then have "i = j" using less.prems(1) by simp
    then have "search_loop f i j = j" by (simp add: search_loop_unfold(1))
    with less.prems(3,4) \<open>i = j\<close> show ?thesis by metis
  next
    case True
    then have h: "i \<le> ?h" "?h < j" by auto
    show ?thesis
    proof (cases "f ?h")
      case hit: True
      have "\<forall>k. ?h \<le> k \<longrightarrow> k < n \<longrightarrow> f k" using mono hit by blast
      moreover have "?h - i < j - i" "?h \<le> n" using h True less.prems(2) by linarith+
      ultimately show ?thesis
        unfolding search_loop_unfold(2) [of i j f, OF True hit]
        by (intro less.hyps) (rule h less.prems | assumption)+
    next
      case miss: False
      have "?h < n" using h less.prems(2) by linarith
      then have "\<forall>k \<le> ?h. \<not> f k" using mono miss by blast
      then have "\<forall>k < ?h + 1. \<not> f k" by simp
      moreover have "j - (?h + 1) < j - i" "?h + 1 \<le> j" using h True by linarith+
      ultimately show ?thesis
        unfolding search_loop_unfold(3) [of i j f, OF True miss]
        by (intro less.hyps) (rule less.prems | assumption)+
    qed
  qed
qed

lemma sort_Search_le: "sort_Search n f \<le> n"
  using search_loop_bounds [of 0 n f] by (simp add: sort_Search_def)

lemma sort_Search_boundary:
  assumes "\<And>a b. a \<le> b \<Longrightarrow> b < n \<Longrightarrow> f a \<Longrightarrow> f b"
  shows "k < sort_Search n f \<Longrightarrow> \<not> f k"
    and "sort_Search n f \<le> k \<Longrightarrow> k < n \<Longrightarrow> f k"
  using search_loop_boundary [of n f 0 n] assms by (auto simp: sort_Search_def)

text \<open>Only the values below \<open>n\<close> are probed.\<close>

lemma search_loop_cong:
  "(\<And>k. k < j \<Longrightarrow> f k = g k) \<Longrightarrow> search_loop f i j = search_loop g i j"
proof (induction "j - i" arbitrary: i j rule: less_induct)
  case less
  let ?h = "(i + j) div 2"
  show ?case
  proof (cases "i < j")
    case False
    then show ?thesis by (simp add: search_loop_unfold(1))
  next
    case True
    then have h: "i \<le> ?h" "?h < j" by auto
    then have m: "?h - i < j - i" "j - (?h + 1) < j - i" by auto
    have eq: "f ?h = g ?h" using less.prems h(2) by blast
    have "search_loop f i ?h = search_loop g i ?h" using less.prems h(2) by (intro less.hyps [OF m(1)]) auto
    moreover have "search_loop f (?h + 1) j = search_loop g (?h + 1) j"
      using less.prems by (intro less.hyps [OF m(2)]) auto
    ultimately show ?thesis
      using True eq search_loop_unfold(2,3) [of i j f] search_loop_unfold(2,3) [of i j g]
      by (cases "f ?h") simp_all
  qed
qed

lemma sort_Search_cong:
  "(\<And>k. k < n \<Longrightarrow> f k = g k) \<Longrightarrow> sort_Search n f = sort_Search n g"
  unfolding sort_Search_def by (rule search_loop_cong)

lemma sort_Search_eqI:
  assumes "m \<le> n" and "\<And>k. k < m \<Longrightarrow> \<not> f k" and "\<And>k. m \<le> k \<Longrightarrow> k < n \<Longrightarrow> f k"
  shows "sort_Search n f = m"
proof -
  have mono: "\<And>a b. a \<le> b \<Longrightarrow> b < n \<Longrightarrow> f a \<Longrightarrow> f b"
    using assms by (meson leI le_trans)
  note b = sort_Search_boundary [of n f, OF mono]
  have "\<not> sort_Search n f < m"
    using b(2) [where k = "sort_Search n f"] assms(1,2) by fastforce
  moreover have "\<not> m < sort_Search n f"
    using b(1) [where k = m] assms(3) [of m] sort_Search_le [of n f] by fastforce
  ultimately show ?thesis by simp
qed

end
