(* ===== verification/Fixed.thy ===== *)
theory Fixed
  imports Prelude "HOL-Library.Char_ord"
begin

text \<open>
  \<^verbatim>\<open>models/fixed.go\<close>: prices and quantities as scaled signed 64-bit integers, their
  comparison and wrap-around arithmetic, and the parser and printer of their
  decimal form. \<^verbatim>\<open>Px\<close> and \<^verbatim>\<open>Qty\<close> are distinct types over \<^verbatim>\<open>int64\<close>, as in the
  code; both are linear orders by the signed value, and \<^verbatim>\<open>Qty\<close> is an abelian
  group under the wrapping \<^verbatim>\<open>Add\<close> and \<^verbatim>\<open>Sub\<close>.
\<close>

section \<open>The types\<close>

datatype px = Px (px_raw: int64)

datatype qty = Qty (qty_raw: int64)

definition px_val :: "px \<Rightarrow> int" where
  "px_val a = sint (px_raw a)"

definition qty_val :: "qty \<Rightarrow> int" where
  "qty_val a = sint (qty_raw a)"

lemma px_val_inject [simp]: "px_val a = px_val b \<longleftrightarrow> a = b"
  by (cases a; cases b) (auto simp: px_val_def intro: word_eq_iff_signed [THEN iffD2])

lemma qty_val_inject [simp]: "qty_val a = qty_val b \<longleftrightarrow> a = b"
  by (cases a; cases b) (auto simp: qty_val_def intro: word_eq_iff_signed [THEN iffD2])

instantiation px :: linorder
begin

definition less_eq_px :: "px \<Rightarrow> px \<Rightarrow> bool" where
  "a \<le> b \<longleftrightarrow> px_val a \<le> px_val b"

definition less_px :: "px \<Rightarrow> px \<Rightarrow> bool" where
  "a < b \<longleftrightarrow> px_val a < px_val b"

instance
  by standard (auto simp: less_eq_px_def less_px_def)

end

instantiation qty :: linorder
begin

definition less_eq_qty :: "qty \<Rightarrow> qty \<Rightarrow> bool" where
  "a \<le> b \<longleftrightarrow> qty_val a \<le> qty_val b"

definition less_qty :: "qty \<Rightarrow> qty \<Rightarrow> bool" where
  "a < b \<longleftrightarrow> qty_val a < qty_val b"

instance
  by standard (auto simp: less_eq_qty_def less_qty_def)

end

instantiation qty :: ab_group_add
begin

definition zero_qty :: qty where
  "0 = Qty 0"

definition plus_qty :: "qty \<Rightarrow> qty \<Rightarrow> qty" where
  "a + b = Qty (qty_raw a + qty_raw b)"

definition minus_qty :: "qty \<Rightarrow> qty \<Rightarrow> qty" where
  "a - b = Qty (qty_raw a - qty_raw b)"

definition uminus_qty :: "qty \<Rightarrow> qty" where
  "- a = Qty (- qty_raw a)"

instance
  by standard (auto simp: zero_qty_def plus_qty_def minus_qty_def uminus_qty_def)

end

instantiation px :: zero
begin

definition zero_px :: px where
  "0 = Px 0"

instance ..

end

definition Scale :: nat where
  "Scale = 8"

definition scaleFactor :: int64 where
  "scaleFactor = 100000000"

definition ZeroPx :: px where
  "ZeroPx = 0"

definition ZeroQty :: qty where
  "ZeroQty = 0"

section \<open>Comparison\<close>

definition px_Cmp :: "px \<Rightarrow> px \<Rightarrow> int" where
  "px_Cmp a b = (if a < b then - 1 else if b < a then 1 else 0)"

definition px_Eq :: "px \<Rightarrow> px \<Rightarrow> bool" where [px_qty_simps]: "px_Eq a b \<longleftrightarrow> a = b"
definition px_Lt :: "px \<Rightarrow> px \<Rightarrow> bool" where [px_qty_simps]: "px_Lt a b \<longleftrightarrow> a < b"
definition px_Lte :: "px \<Rightarrow> px \<Rightarrow> bool" where [px_qty_simps]: "px_Lte a b \<longleftrightarrow> a \<le> b"
definition px_Gt :: "px \<Rightarrow> px \<Rightarrow> bool" where [px_qty_simps]: "px_Gt a b \<longleftrightarrow> b < a"
definition px_Gte :: "px \<Rightarrow> px \<Rightarrow> bool" where [px_qty_simps]: "px_Gte a b \<longleftrightarrow> b \<le> a"
definition px_IsZero :: "px \<Rightarrow> bool" where [px_qty_simps]: "px_IsZero a \<longleftrightarrow> a = 0"

definition qty_Cmp :: "qty \<Rightarrow> qty \<Rightarrow> int" where
  "qty_Cmp a b = (if a < b then - 1 else if b < a then 1 else 0)"

definition qty_Eq :: "qty \<Rightarrow> qty \<Rightarrow> bool" where [px_qty_simps]: "qty_Eq a b \<longleftrightarrow> a = b"
definition qty_Lt :: "qty \<Rightarrow> qty \<Rightarrow> bool" where [px_qty_simps]: "qty_Lt a b \<longleftrightarrow> a < b"
definition qty_Lte :: "qty \<Rightarrow> qty \<Rightarrow> bool" where [px_qty_simps]: "qty_Lte a b \<longleftrightarrow> a \<le> b"
definition qty_Gt :: "qty \<Rightarrow> qty \<Rightarrow> bool" where [px_qty_simps]: "qty_Gt a b \<longleftrightarrow> b < a"
definition qty_Gte :: "qty \<Rightarrow> qty \<Rightarrow> bool" where [px_qty_simps]: "qty_Gte a b \<longleftrightarrow> b \<le> a"
definition qty_IsZero :: "qty \<Rightarrow> bool" where [px_qty_simps]: "qty_IsZero a \<longleftrightarrow> a = 0"
definition qty_IsPositive :: "qty \<Rightarrow> bool" where [px_qty_simps]: "qty_IsPositive a \<longleftrightarrow> 0 < a"
definition qty_IsNegative :: "qty \<Rightarrow> bool" where [px_qty_simps]: "qty_IsNegative a \<longleftrightarrow> a < 0"

section \<open>Arithmetic\<close>

definition qty_Add :: "qty \<Rightarrow> qty \<Rightarrow> qty" where [px_qty_simps]: "qty_Add a b = a + b"
definition qty_Sub :: "qty \<Rightarrow> qty \<Rightarrow> qty" where [px_qty_simps]: "qty_Sub a b = a - b"

definition MinQty :: "qty \<Rightarrow> qty \<Rightarrow> qty" where
  "MinQty a b = (if a < b then a else b)"

lemma MinQty_min: "MinQty a b = min a b"
  by (auto simp: MinQty_def min_def)

lemma qty_val_0 [simp]: "qty_val 0 = 0"
  by (simp add: qty_val_def zero_qty_def)

lemma qty_val_bounds: "- (2 ^ 63) \<le> qty_val a" "qty_val a < 2 ^ 63"
  using sint_greater_eq [of "qty_raw a"] sint_less [of "qty_raw a"]
  by (simp_all add: qty_val_def)

lemma qty_val_add:
  "- (2 ^ 63) \<le> qty_val a + qty_val b \<Longrightarrow> qty_val a + qty_val b < 2 ^ 63 \<Longrightarrow>
   qty_val (a + b) = qty_val a + qty_val b"
  by (simp add: qty_val_def plus_qty_def sint_word_ariths signed_take_bit_int_eq_self)

lemma qty_val_diff:
  "- (2 ^ 63) \<le> qty_val a - qty_val b \<Longrightarrow> qty_val a - qty_val b < 2 ^ 63 \<Longrightarrow>
   qty_val (a - b) = qty_val a - qty_val b"
  by (simp add: qty_val_def minus_qty_def sint_word_ariths signed_take_bit_int_eq_self)

lemma qty_pos_iff: "(0::qty) < a \<longleftrightarrow> 0 < qty_val a"
  by (simp add: less_qty_def)

text \<open>Subtracting a part from a positive whole never wraps.\<close>

lemma qty_val_diff_le:
  "0 \<le> qty_val b \<Longrightarrow> b \<le> a \<Longrightarrow> qty_val (a - b) = qty_val a - qty_val b"
  using qty_val_bounds [of a] by (intro qty_val_diff) (auto simp: less_eq_qty_def)

lemma qty_diff_pos: "(0::qty) < b \<Longrightarrow> b < a \<Longrightarrow> 0 < a - b"
  using qty_val_diff_le [of b a] by (simp add: less_qty_def less_eq_qty_def)

end
