(* ===== verification/FixedText.thy ===== *)
theory FixedText
  imports Fixed
begin

text \<open>
  The text half of \<^verbatim>\<open>models/fixed.go\<close>: \<^verbatim>\<open>parseFixed\<close>, \<^verbatim>\<open>formatFixed\<close> and the JSON
  methods built on them. A Go string is a list of bytes, an Isabelle \<open>string\<close>
  a list of 8-bit characters. The digits are accumulated in \<^verbatim>\<open>int64\<close>, so an
  overlong number wraps as it does in the code.
\<close>

section \<open>Standard library: TrimSpace, Cut, Sprintf\<close>

text \<open>
  The UTF-8 encodings of the code points that \<^verbatim>\<open>unicode.IsSpace\<close> accepts:
  tab, newline, vertical tab, form feed, carriage return, space, U+0085,
  U+00A0, U+1680, U+2000 to U+200A, U+2028, U+2029, U+202F, U+205F, U+3000.
\<close>

definition bytes :: "nat list \<Rightarrow> string" where
  "bytes ns = map char_of ns"

definition unicode_spaces :: "string list" where
  "unicode_spaces = map bytes
     ([[9], [10], [11], [12], [13], [32], [194, 133], [194, 160], [225, 154, 128]]
      @ map (\<lambda>k. [226, 128, 128 + k]) [0..<11]
      @ [[226, 128, 168], [226, 128, 169], [226, 128, 175], [226, 129, 159], [227, 128, 128]])"

definition has_prefix :: "string \<Rightarrow> string \<Rightarrow> bool" where
  "has_prefix s p \<longleftrightarrow> p \<noteq> [] \<and> take (length p) s = p"

function trim_with :: "string list \<Rightarrow> string \<Rightarrow> string" where
  "trim_with ps s =
     (case find (has_prefix s) ps of
        None \<Rightarrow> s
      | Some p \<Rightarrow> trim_with ps (drop (length p) s))"
  by pat_completeness auto
termination
proof (relation "measure (\<lambda>(ps, s). length s)")
  fix ps :: "string list" and s p :: string
  assume "find (has_prefix s) ps = Some p"
  then have "p \<noteq> []" "take (length p) s = p"
    by (auto simp: find_Some_iff has_prefix_def)
  then have "0 < length p" "length p \<le> length s"
    by (auto dest: arg_cong [where f = length])
  then show "((ps, drop (length p) s), ps, s) \<in> measure (\<lambda>(ps, s). length s)"
    by (auto simp: in_measure intro!: diff_less)
qed simp

declare trim_with.simps [simp del]

definition TrimSpace :: "string \<Rightarrow> string" where
  "TrimSpace s =
     rev (trim_with (map rev unicode_spaces) (rev (trim_with unicode_spaces s)))"

text \<open>\<^verbatim>\<open>strings.Cut(s, ".")\<close>: before, after, and whether the separator occurs.\<close>

definition Cut :: "string \<Rightarrow> char \<Rightarrow> string \<times> string \<times> bool" where
  "Cut s c = (takeWhile (\<lambda>x. x \<noteq> c) s, tl (dropWhile (\<lambda>x. x \<noteq> c) s), c \<in> set s)"

definition digit_char :: "int \<Rightarrow> char" where
  "digit_char d = char_of (nat (48 + d))"

text \<open>The decimal digits of a non-negative integer, most significant first.\<close>

function dec_digits :: "int \<Rightarrow> string" where
  "dec_digits n =
     (if n < 10 then [digit_char n] else dec_digits (n div 10) @ [digit_char (n mod 10)])"
  by pat_completeness auto
termination
  by (relation "measure nat") auto

declare dec_digits.simps [simp del]

text \<open>The verbs \<^verbatim>\<open>%d\<close> and \<^verbatim>\<open>%0*d\<close>: the sign counts in the width of the second.\<close>

definition fmt_d :: "int \<Rightarrow> string" where
  "fmt_d i = (if i < 0 then ''-'' @ dec_digits (- i) else dec_digits i)"

definition zero_pad :: "nat \<Rightarrow> string \<Rightarrow> string" where
  "zero_pad w s = replicate (w - length s) (CHR ''0'') @ s"

definition fmt_0d :: "nat \<Rightarrow> int \<Rightarrow> string" where
  "fmt_0d w i =
     (if i < 0 then ''-'' @ zero_pad (w - 1) (dec_digits (- i))
      else zero_pad w (dec_digits i))"

section \<open>parseFixed\<close>

text \<open>Every error wraps \<^verbatim>\<open>ErrInvalidFixed\<close>; the constructors are its messages.\<close>

datatype fixed_error =
    EmptyString
  | MissingDigits
  | InvalidNumber string
  | BadDigit char string

definition is_digit :: "char \<Rightarrow> bool" where
  "is_digit c \<longleftrightarrow> \<not> (c < CHR ''0'' \<or> CHR ''9'' < c)"

definition digit_val :: "char \<Rightarrow> int64" where
  "digit_val c = word_of_nat (of_char c - of_char (CHR ''0''))"

text \<open>The two digit loops; \<open>s\<close> is only the text quoted in the error.\<close>

fun parse_digits :: "string \<Rightarrow> int64 \<Rightarrow> string \<Rightarrow> fixed_error + int64" where
  "parse_digits s acc [] = Inr acc"
| "parse_digits s acc (c # cs) =
     (if \<not> is_digit c then Inl (BadDigit c s)
      else parse_digits s (acc * 10 + digit_val c) cs)"

text \<open>\<^verbatim>\<open>for i := len(fracPart); i < Scale; i++ { frac *= 10 }\<close>\<close>

fun pad_frac :: "nat \<Rightarrow> int64 \<Rightarrow> int64" where
  "pad_frac 0 f = f"
| "pad_frac (Suc n) f = pad_frac n (f * 10)"

definition parse_unsigned :: "bool \<Rightarrow> string \<Rightarrow> fixed_error + int64" where
  "parse_unsigned neg s =
     (if s = '''' then Inl MissingDigits
      else case Cut s (CHR ''.'') of (intPart, fracPart, hasFrac) \<Rightarrow>
        if intPart = '''' \<and> fracPart = '''' then Inl (InvalidNumber s)
        else case (if intPart \<noteq> '''' then parse_digits s 0 intPart else Inr 0) of
            Inl e \<Rightarrow> Inl e
          | Inr whole \<Rightarrow>
              (case (if hasFrac
                     then let fp = (if Scale < length fracPart then take Scale fracPart
                                    else fracPart)
                          in case parse_digits s 0 fp of
                               Inl e \<Rightarrow> Inl e
                             | Inr f \<Rightarrow> Inr (pad_frac (Scale - length fp) f)
                     else Inr 0) of
                 Inl e \<Rightarrow> Inl e
               | Inr frac \<Rightarrow>
                   let out = whole * scaleFactor + frac
                   in Inr (if neg then - out else out)))"

definition parseFixed :: "string \<Rightarrow> fixed_error + int64" where
  "parseFixed s0 =
     (let s = TrimSpace s0 in
      case s of
        [] \<Rightarrow> Inl EmptyString
      | c # cs \<Rightarrow>
          if c = CHR ''+'' then parse_unsigned False cs
          else if c = CHR ''-'' then parse_unsigned True cs
          else parse_unsigned False s)"

definition ParsePx :: "string \<Rightarrow> fixed_error + px" where
  "ParsePx s = (case parseFixed s of Inl e \<Rightarrow> Inl e | Inr n \<Rightarrow> Inr (Px n))"

definition ParseQty :: "string \<Rightarrow> fixed_error + qty" where
  "ParseQty s = (case parseFixed s of Inl e \<Rightarrow> Inl e | Inr n \<Rightarrow> Inr (Qty n))"

section \<open>formatFixed\<close>

text \<open>
  Negation wraps at the least \<^verbatim>\<open>int64\<close>; division and remainder truncate towards
  zero, as Go's do.
\<close>

definition formatFixed :: "int64 \<Rightarrow> string" where
  "formatFixed v0 =
     (let neg = sint v0 < 0;
          v = (if neg then - v0 else v0);
          whole = sint v sdiv sint scaleFactor;
          frac = sint v smod sint scaleFactor;
          out = fmt_d whole @ ''.'' @ fmt_0d Scale frac
      in if neg then ''-'' @ out else out)"

definition px_String :: "px \<Rightarrow> string" where
  "px_String a = formatFixed (px_raw a)"

definition qty_String :: "qty \<Rightarrow> string" where
  "qty_String a = formatFixed (qty_raw a)"

section \<open>JSON\<close>

text \<open>
  \<^verbatim>\<open>b[1 : len(b)-1]\<close> on a lone quote asks for the slice \<^verbatim>\<open>b[1:0]\<close>, which
  panics; no JSON decoder delivers that token.
\<close>

datatype json_fault = EmptyJson | NotFixed fixed_error | SliceBounds

definition marshalFixedJSON :: "int64 \<Rightarrow> string" where
  "marshalFixedJSON v = [CHR 0x22] @ formatFixed v @ [CHR 0x22]"

definition unmarshalFixedJSON :: "string \<Rightarrow> json_fault + int64" where
  "unmarshalFixedJSON b =
     (if b = [] then Inl EmptyJson
      else if hd b = CHR 0x22 \<and> last b = CHR 0x22 then
        (if length b = 1 then Inl SliceBounds
         else case parseFixed (butlast (tl b)) of
                Inl e \<Rightarrow> Inl (NotFixed e) | Inr n \<Rightarrow> Inr n)
      else case parseFixed b of Inl e \<Rightarrow> Inl (NotFixed e) | Inr n \<Rightarrow> Inr n)"

definition px_UnmarshalJSON :: "string \<Rightarrow> json_fault + px" where
  "px_UnmarshalJSON b = (case unmarshalFixedJSON b of Inl e \<Rightarrow> Inl e | Inr n \<Rightarrow> Inr (Px n))"

definition qty_UnmarshalJSON :: "string \<Rightarrow> json_fault + qty" where
  "qty_UnmarshalJSON b = (case unmarshalFixedJSON b of Inl e \<Rightarrow> Inl e | Inr n \<Rightarrow> Inr (Qty n))"

end
