(* ===== verification/FixedProps.thy ===== *)
theory FixedProps
  imports FixedText
begin

text \<open>
  What the parser and the printer of \<^verbatim>\<open>models/fixed.go\<close> do: the value a decimal
  string denotes, the round trip through text and through JSON, and the one
  value for which it fails.
\<close>

section \<open>Digits\<close>

lemma of_char_digit_char:
  "0 \<le> d \<Longrightarrow> d < 10 \<Longrightarrow> (of_char (digit_char d) :: nat) = nat (48 + d)"
  by (simp add: digit_char_def nat_less_iff flip: zmod_int)

lemma is_digit_digit_char [simp]: "0 \<le> d \<Longrightarrow> d < 10 \<Longrightarrow> is_digit (digit_char d)"
  by (simp add: is_digit_def less_char_def of_char_digit_char nat_less_iff)

lemma digit_val_digit_char [simp]:
  "0 \<le> d \<Longrightarrow> d < 10 \<Longrightarrow> digit_val (digit_char d) = word_of_int d"
  by (simp add: digit_val_def of_char_digit_char nat_add_distrib word_of_nat_eq_iff flip: of_nat_nat)

lemma is_digit_zero [simp]: "is_digit (CHR ''0'')"
  by (simp add: is_digit_def less_char_def)

lemma digit_val_zero [simp]: "digit_val (CHR ''0'') = 0"
  by (simp add: digit_val_def)

lemma dec_digits_nonempty [simp]: "dec_digits n \<noteq> []"
  by (subst dec_digits.simps) simp

lemma dec_digits_digits: "0 \<le> n \<Longrightarrow> c \<in> set (dec_digits n) \<Longrightarrow> is_digit c"
proof (induction n arbitrary: c rule: dec_digits.induct)
  case (1 n)
  then show ?case
    by (cases "n < 10") (auto simp: dec_digits.simps [of n])
qed

lemma dec_digits_length: "0 \<le> n \<Longrightarrow> n < 10 ^ k \<Longrightarrow> 0 < k \<Longrightarrow> length (dec_digits n) \<le> k"
proof (induction k arbitrary: n)
  case (Suc k)
  show ?case
  proof (cases "n < 10")
    case True
    then show ?thesis by (simp add: dec_digits.simps [of n])
  next
    case False
    with Suc.prems have "n div 10 < 10 ^ k" "0 \<le> n div 10" by auto
    moreover from this False have "0 < k" by (cases k) auto
    ultimately have "length (dec_digits (n div 10)) \<le> k" by (intro Suc.IH)
    with False show ?thesis by (simp add: dec_digits.simps [of n])
  qed
qed simp

text \<open>The value the digit loop computes, as an unbounded integer.\<close>

definition digit_int :: "char \<Rightarrow> int" where
  "digit_int c = int (of_char c) - 48"

fun dec_value :: "int \<Rightarrow> string \<Rightarrow> int" where
  "dec_value acc [] = acc"
| "dec_value acc (c # cs) = dec_value (acc * 10 + digit_int c) cs"

lemma digit_val_int: "is_digit c \<Longrightarrow> digit_val c = word_of_int (digit_int c)"
proof -
  assume "is_digit c"
  then have "48 \<le> (of_char c :: nat)" by (simp add: is_digit_def less_char_def)
  then have "digit_int c = int (of_char c - 48)" by (simp only: digit_int_def of_nat_diff)
  then show ?thesis by (simp add: digit_val_def)
qed

lemma parse_digits_value:
  "\<forall>c \<in> set cs. is_digit c \<Longrightarrow>
   parse_digits s (word_of_int acc) cs = Inr (word_of_int (dec_value acc cs))"
proof (induction cs arbitrary: acc)
  case (Cons c cs)
  then have c: "is_digit c" "\<forall>c \<in> set cs. is_digit c" by auto
  then have "word_of_int acc * 10 + digit_val c = (word_of_int (acc * 10 + digit_int c) :: int64)"
    by (simp add: digit_val_int)
  with c have "parse_digits s (word_of_int acc) (c # cs)
      = parse_digits s (word_of_int (acc * 10 + digit_int c)) cs"
    by (simp only: parse_digits.simps if_False not_not simp_thms)
  also have "\<dots> = Inr (word_of_int (dec_value (acc * 10 + digit_int c) cs))"
    using c(2) by (rule Cons.IH)
  finally show ?case by simp
qed simp

lemma parse_digits_bad:
  "\<not> (\<forall>c \<in> set cs. is_digit c) \<Longrightarrow> \<exists>c. parse_digits s acc cs = Inl (BadDigit c s)"
  by (induction cs arbitrary: acc) auto

lemma dec_value_append: "dec_value acc (xs @ ys) = dec_value (dec_value acc xs) ys"
  by (induction xs arbitrary: acc) simp_all

lemma dec_value_zeros: "dec_value 0 (replicate k (CHR ''0'') @ xs) = dec_value 0 xs"
  by (induction k) (simp_all add: digit_int_def)

lemma digit_int_digit_char [simp]: "0 \<le> d \<Longrightarrow> d < 10 \<Longrightarrow> digit_int (digit_char d) = d"
  by (simp add: digit_int_def of_char_digit_char)

lemma dec_value_dec_digits: "0 \<le> n \<Longrightarrow> dec_value 0 (dec_digits n) = n"
proof (induction n rule: dec_digits.induct)
  case (1 n)
  then show ?case
    by (cases "n < 10") (simp_all add: dec_digits.simps [of n] dec_value_append)
qed

lemma pad_frac_value: "pad_frac n (word_of_int f) = word_of_int (f * 10 ^ n)"
proof (induction n arbitrary: f)
  case (Suc n)
  have "pad_frac (Suc n) (word_of_int f) = pad_frac n (word_of_int (f * 10))" by simp
  with Suc.IH [of "f * 10"] show ?case by (simp add: algebra_simps)
qed simp

section \<open>Trimming\<close>

definition graphic :: "char \<Rightarrow> bool" where
  "graphic c \<longleftrightarrow> CHR 0x20 < c \<and> c < CHR 0x7F"

lemma spaces_not_graphic:
  "list_all (\<lambda>p. p \<noteq> [] \<and> \<not> graphic (hd p) \<and> \<not> graphic (last p)) unicode_spaces"
  by code_simp

lemma trim_with_graphic:
  assumes "list_all (\<lambda>p. p \<noteq> [] \<and> \<not> graphic (hd p)) ps" and "s \<noteq> []" and "graphic (hd s)"
  shows "trim_with ps s = s"
proof -
  have "\<not> has_prefix s p" if "p \<in> set ps" for p
  proof
    assume "has_prefix s p"
    then have "p \<noteq> []" "take (length p) s = p" by (auto simp: has_prefix_def)
    then have "hd p = hd s" by (metis hd_take length_greater_0_conv)
    with that assms show False by (auto simp: list_all_iff)
  qed
  then have "find (has_prefix s) ps = None" by (auto simp: find_None_iff)
  then show ?thesis by (subst trim_with.simps) simp
qed

lemma TrimSpace_graphic:
  assumes "s \<noteq> []" and "graphic (hd s)" and "graphic (last s)"
  shows "TrimSpace s = s"
proof -
  have "trim_with unicode_spaces s = s"
    using assms spaces_not_graphic by (intro trim_with_graphic) (auto simp: list_all_iff)
  moreover have "trim_with (map rev unicode_spaces) (rev s) = rev s"
    using assms spaces_not_graphic
    by (intro trim_with_graphic) (auto simp: list_all_iff hd_rev)
  ultimately show ?thesis by (simp add: TrimSpace_def)
qed

lemma graphic_digit: "is_digit c \<Longrightarrow> graphic c"
  by (auto simp: is_digit_def graphic_def less_char_def)

section \<open>The value of a decimal string\<close>

lemma not_digit_dot [simp]: "is_digit c \<Longrightarrow> c \<noteq> CHR ''.''"
  by (auto simp: is_digit_def less_char_def)

lemma Cut_decimal:
  assumes "\<forall>c \<in> set ip. is_digit c"
  shows "Cut (ip @ CHR ''.'' # fp) (CHR ''.'') = (ip, fp, True)"
proof -
  have "\<forall>c \<in> set ip. c \<noteq> CHR ''.''" using assms by auto
  then show ?thesis by (simp add: Cut_def takeWhile_append dropWhile_append)
qed

lemma parse_unsigned_decimal:
  assumes "\<forall>c \<in> set ip. is_digit c" and "\<forall>c \<in> set fp. is_digit c"
    and "length fp \<le> 8" and "rest = [] \<or> length fp = 8" and "ip \<noteq> [] \<or> fp \<noteq> []"
  shows "parse_unsigned neg (ip @ CHR ''.'' # fp @ rest) =
    Inr (word_of_int ((if neg then - 1 else 1) *
      (dec_value 0 ip * 10 ^ 8 + dec_value 0 fp * 10 ^ (8 - length fp))))"
proof -
  let ?s = "ip @ CHR ''.'' # fp @ rest"
  have cut: "Cut ?s (CHR ''.'') = (ip, fp @ rest, True)"
    using Cut_decimal [OF assms(1), of "fp @ rest"] by simp
  have taken: "(if Scale < length (fp @ rest) then take Scale (fp @ rest) else fp @ rest) = fp"
    using assms(3,4) by (auto simp: Scale_def)
  have ip: "(if ip \<noteq> '''' then parse_digits ?s 0 ip else Inr 0) = Inr (word_of_int (dec_value 0 ip))"
    using parse_digits_value [OF assms(1), of ?s 0] by simp
  have fp: "parse_digits ?s 0 fp = Inr (word_of_int (dec_value 0 fp))"
    using parse_digits_value [OF assms(2), of ?s 0] by simp
  have scale: "scaleFactor = word_of_int (10 ^ 8)" by (simp add: scaleFactor_def)
  show ?thesis
    unfolding parse_unsigned_def cut prod.case taken Let_def ip fp sum.case
    using assms(5) by (auto simp: pad_frac_value scale Scale_def)
qed

definition sign_text :: "char option \<Rightarrow> string" where
  "sign_text c = (case c of None \<Rightarrow> '''' | Some c \<Rightarrow> [c])"

lemma parseFixed_signed:
  assumes "TrimSpace (sign_text sg @ u) = sign_text sg @ u" and "u \<noteq> []"
    and "hd u \<noteq> CHR ''+''" and "hd u \<noteq> CHR ''-''"
    and "sg \<in> {None, Some (CHR ''+''), Some (CHR ''-'')}"
  shows "parseFixed (sign_text sg @ u) = parse_unsigned (sg = Some (CHR ''-'')) u"
  using assms by (cases u) (auto simp: parseFixed_def sign_text_def Let_def)

lemma parseFixed_decimal_aux:
  assumes "\<forall>c \<in> set ip. is_digit c" and "\<forall>c \<in> set fp. is_digit c"
    and "length fp \<le> 8" and "rest = [] \<or> length fp = 8 \<and> graphic (last rest)"
    and "ip \<noteq> [] \<or> fp \<noteq> []" and "sg \<in> {None, Some (CHR ''+''), Some (CHR ''-'')}"
  shows "parseFixed (sign_text sg @ ip @ CHR ''.'' # fp @ rest) =
    Inr (word_of_int ((if sg = Some (CHR ''-'') then - 1 else 1) *
      (dec_value 0 ip * 10 ^ 8 + dec_value 0 fp * 10 ^ (8 - length fp))))"
proof -
  let ?u = "ip @ CHR ''.'' # fp @ rest"
  have first: "hd ?u \<noteq> CHR ''+''" "hd ?u \<noteq> CHR ''-''"
    using assms(1) by (cases ip; auto simp: is_digit_def less_char_def)+
  have "graphic (last ?u)"
    using assms(2,4) graphic_digit
    by (cases "rest = []"; cases "fp = []") (auto simp: graphic_def less_char_def)
  moreover have "graphic (hd ?u)"
    using assms(1) graphic_digit by (cases ip) (auto simp: graphic_def less_char_def)
  ultimately have "TrimSpace (sign_text sg @ ?u) = sign_text sg @ ?u"
    using assms(6) by (intro TrimSpace_graphic) (auto simp: sign_text_def graphic_def less_char_def)
  then have "parseFixed (sign_text sg @ ?u) = parse_unsigned (sg = Some (CHR ''-'')) ?u"
    using first assms(6) by (intro parseFixed_signed) auto
  also have "\<dots> = Inr (word_of_int ((if sg = Some (CHR ''-'') then - 1 else 1) *
      (dec_value 0 ip * 10 ^ 8 + dec_value 0 fp * 10 ^ (8 - length fp))))"
    using assms(4) by (intro parse_unsigned_decimal assms(1,2,3,5)) auto
  finally show ?thesis .
qed

text \<open>
  C40. A decimal string with an optional sign, integer digits, a point and
  fraction digits parses to the scaled value it denotes, reduced to 64 bits.
  Whatever follows the eighth fraction digit, digit or not, is ignored.
\<close>

theorem parseFixed_decimal:
  assumes "\<forall>c \<in> set ip. is_digit c" and "\<forall>c \<in> set fp. is_digit c"
    and "length fp \<le> 8" and "rest = [] \<or> length fp = 8 \<and> graphic (last rest)"
    and "ip \<noteq> [] \<or> fp \<noteq> []" and "sg \<in> {None, Some (CHR ''+''), Some (CHR ''-'')}"
  shows "parseFixed (sign_text sg @ ip @ CHR ''.'' # fp @ rest) =
    Inr (word_of_int ((if sg = Some (CHR ''-'') then - 1 else 1) *
      (dec_value 0 ip * 10 ^ 8 + dec_value 0 fp * 10 ^ (8 - length fp))))"
  using assms by (rule parseFixed_decimal_aux)

theorem parseFixed_decimal_witness:
  "parseFixed ''-1.12345678x9'' = Inr (word_of_int (- 112345678))"
  using parseFixed_decimal [of "''1''" "''12345678''" "''x9''" "Some (CHR ''-'')"]
  by (simp add: sign_text_def is_digit_def graphic_def less_char_def digit_int_def)

section \<open>Round trips\<close>

lemma zero_pad_digits:
  assumes "0 \<le> n" and "n < 10 ^ 8"
  shows "length (zero_pad 8 (dec_digits n)) = 8"
    and "\<forall>c \<in> set (zero_pad 8 (dec_digits n)). is_digit c"
    and "dec_value 0 (zero_pad 8 (dec_digits n)) = n"
  using dec_digits_length [OF assms] dec_digits_digits [OF assms(1)] dec_value_dec_digits [OF assms(1)]
  by (auto simp: zero_pad_def dec_value_zeros)

lemma fmt_nonneg:
  assumes "0 \<le> a"
  shows "fmt_d (a sdiv 10 ^ 8) = dec_digits (a div 10 ^ 8)"
    and "fmt_0d 8 (a smod 10 ^ 8) = zero_pad 8 (dec_digits (a mod 10 ^ 8))"
proof -
  have "a sdiv 10 ^ 8 = a div 10 ^ 8" "a smod 10 ^ 8 = a mod 10 ^ 8"
    using assms by (cases "a = 0"; simp add: signed_divide_int_def signed_modulo_int_def)+
  moreover have "\<not> a div 10 ^ 8 < 0" "\<not> a mod 10 ^ 8 < 0"
    using assms by (simp_all add: not_less)
  ultimately show "fmt_d (a sdiv 10 ^ 8) = dec_digits (a div 10 ^ 8)"
    and "fmt_0d 8 (a smod 10 ^ 8) = zero_pad 8 (dec_digits (a mod 10 ^ 8))"
    by (simp_all only: fmt_d_def fmt_0d_def if_False)
qed

lemma sint_uminus:
  assumes "sint v \<noteq> - (2 ^ 63)" shows "sint (- v :: int64) = - sint v"
proof -
  have "- (2 ^ 63) \<le> - sint v" "- sint v < 2 ^ 63"
    using assms sint_greater_eq [of v] sint_less [of v] by simp_all
  then show ?thesis by (simp add: sint_word_ariths signed_take_bit_int_eq_self)
qed

lemma formatFixed_shape:
  assumes "sint v \<noteq> - (2 ^ 63)"
  shows "formatFixed v =
    sign_text (if sint v < 0 then Some (CHR ''-'') else None) @
    dec_digits (\<bar>sint v\<bar> div 10 ^ 8) @ CHR ''.'' # zero_pad 8 (dec_digits (\<bar>sint v\<bar> mod 10 ^ 8))"
proof -
  have v: "sint (if sint v < 0 then - v else v) = \<bar>sint v\<bar>"
    using sint_uminus [OF assms] by (auto simp: abs_if)
  have scale: "sint scaleFactor = 10 ^ 8" by (simp add: scaleFactor_def)
  show ?thesis
    unfolding formatFixed_def Let_def v scale Scale_def fmt_nonneg [OF abs_ge_zero]
    by (cases "sint v < 0") (simp_all only: if_True if_False sign_text_def option.case append.simps)
qed

lemma parse_format:
  assumes "sint v \<noteq> - (2 ^ 63)"
  shows "parseFixed (formatFixed v) = Inr v"
proof -
  let ?a = "\<bar>sint v\<bar>"
  have b: "0 \<le> ?a mod 10 ^ 8" "?a mod 10 ^ 8 < 10 ^ 8" "0 \<le> ?a div 10 ^ 8" by simp_all
  have int: "\<forall>c \<in> set (dec_digits (?a div 10 ^ 8)). is_digit c"
    using dec_digits_digits [OF b(3)] by blast
  note pad = zero_pad_digits [OF b(1,2)]
    and val = dec_value_dec_digits [OF b(3)]
  let ?sg = "if sint v < 0 then Some (CHR ''-'') else None"
  have sg: "(if ?sg = Some (CHR ''-'') then - 1 else 1) = (if sint v < 0 then - 1 else 1 :: int)"
    "?sg \<in> {None, Some (CHR ''+''), Some (CHR ''-'')}"
    by simp_all
  have "parseFixed (formatFixed v) = Inr (word_of_int ((if ?sg = Some (CHR ''-'') then - 1 else 1) *
      (?a div 10 ^ 8 * 10 ^ 8 + ?a mod 10 ^ 8 * 10 ^ (8 - 8))))"
    unfolding formatFixed_shape [OF assms]
    using parseFixed_decimal_aux [OF int pad(2) eq_refl [OF pad(1)] disjI1 [OF refl]
        disjI1 [OF dec_digits_nonempty] sg(2)]
    unfolding pad(1,3) val append_Nil2 .
  also have "(if ?sg = Some (CHR ''-'') then - 1 else 1) *
      (?a div 10 ^ 8 * 10 ^ 8 + ?a mod 10 ^ 8 * 10 ^ (8 - 8)) = sint v"
    unfolding sg(1) by (simp only: div_mult_mod_eq diff_self_eq_0 power_0 mult_1_right) simp
  finally show ?thesis by simp
qed

lemma formatFixed_nonempty: "formatFixed v \<noteq> []"
  by (simp add: formatFixed_def Let_def)

lemma unmarshal_marshal:
  assumes "sint v \<noteq> - (2 ^ 63)"
  shows "unmarshalFixedJSON (marshalFixedJSON v) = Inr v"
  using parse_format [OF assms] formatFixed_nonempty [of v]
  by (simp add: unmarshalFixedJSON_def marshalFixedJSON_def butlast_append)

text \<open>
  Printing a price or quantity and parsing the text gives the value back,
  for every \<^verbatim>\<open>int64\<close> except the least one.
\<close>

theorem fixed_text_roundtrip:
  assumes "px_val a \<noteq> - (2 ^ 63)" and "qty_val b \<noteq> - (2 ^ 63)"
  shows "ParsePx (px_String a) = Inr a \<and> ParseQty (qty_String b) = Inr b"
  using parse_format [of "px_raw a"] parse_format [of "qty_raw b"] assms
  by (simp add: ParsePx_def px_String_def px_val_def ParseQty_def qty_String_def qty_val_def)

theorem fixed_text_roundtrip_witness:
  "ParsePx (px_String (Px (- 150000000))) = Inr (Px (- 150000000)) \<and>
   ParseQty (qty_String (Qty 1)) = Inr (Qty 1)"
  by (rule fixed_text_roundtrip) (simp_all add: px_val_def qty_val_def)

text \<open>
  The same round trip through the JSON methods, which quote the text: the
  decoder never panics on what the encoder wrote.
\<close>

theorem fixed_json_roundtrip:
  assumes "px_val a \<noteq> - (2 ^ 63)" and "qty_val b \<noteq> - (2 ^ 63)"
  shows "px_UnmarshalJSON (marshalFixedJSON (px_raw a)) = Inr a \<and>
    qty_UnmarshalJSON (marshalFixedJSON (qty_raw b)) = Inr b"
  using unmarshal_marshal [of "px_raw a"] unmarshal_marshal [of "qty_raw b"] assms
  by (simp add: px_UnmarshalJSON_def px_val_def qty_UnmarshalJSON_def qty_val_def)

theorem fixed_json_roundtrip_witness:
  "px_UnmarshalJSON (marshalFixedJSON (px_raw (Px 5))) = Inr (Px 5) \<and>
   qty_UnmarshalJSON (marshalFixedJSON (qty_raw (Qty (- 7)))) = Inr (Qty (- 7))"
  by (rule fixed_json_roundtrip) (simp_all add: px_val_def qty_val_def)

lemma least_text:
  "formatFixed (word_of_int (- (2 ^ 63))) = ''--92233720368.-54775808''"
  "parseFixed ''--92233720368.-54775808'' = Inl (BadDigit (CHR ''-'') ''-92233720368.-54775808'')"
  by code_simp+

text \<open>
  The least \<^verbatim>\<open>int64\<close> has no printable form: its negation wraps, both halves
  print with a sign of their own, and the text is rejected by the parser.
\<close>

theorem fixed_least_value:
  "formatFixed (word_of_int (- (2 ^ 63))) = ''--92233720368.-54775808'' \<and>
   parseFixed (formatFixed (word_of_int (- (2 ^ 63)))) =
     Inl (BadDigit (CHR ''-'') ''-92233720368.-54775808'')"
  by (simp only: least_text)

end
