(* ===== verification/Orders.thy ===== *)
theory Orders
  imports FixedText
begin

text \<open>
  \<^verbatim>\<open>models/order.go\<close>, \<^verbatim>\<open>models/match.go\<close> and \<^verbatim>\<open>models/event.go\<close>: orders, matches
  and book deltas. \<^verbatim>\<open>Side\<close>, \<^verbatim>\<open>Type\<close>, \<^verbatim>\<open>TIF\<close> and \<^verbatim>\<open>STPMode\<close> are Go string types with named
  constants: any other string is a possible value (it arrives through JSON), so
  they are strings here, and every \<open>switch\<close> keeps its default branch.
\<close>

section \<open>The string enumerations\<close>

type_synonym side = string
type_synonym order_type = string
type_synonym tif = string
type_synonym stp_mode = string
type_synonym order_id = int64

definition BUY :: side where "BUY = ''buy''"
definition SELL :: side where "SELL = ''sell''"

definition LIMIT :: order_type where "LIMIT = ''limit''"
definition MARKET :: order_type where "MARKET = ''market''"
definition STOP_LIMIT :: order_type where "STOP_LIMIT = ''stop_limit''"

definition GTC :: tif where "GTC = ''''"
definition IOC :: tif where "IOC = ''ioc''"
definition FOK :: tif where "FOK = ''fok''"
definition PostOnly :: tif where "PostOnly = ''post_only''"

definition STPNone :: stp_mode where "STPNone = ''''"
definition STPCancelTaker :: stp_mode where "STPCancelTaker = ''cancel_taker''"
definition STPCancelResting :: stp_mode where "STPCancelResting = ''cancel_resting''"
definition STPCancelBoth :: stp_mode where "STPCancelBoth = ''cancel_both''"
definition STPDecrement :: stp_mode where "STPDecrement = ''decrement''"

lemmas side_defs = BUY_def SELL_def
lemmas type_defs = LIMIT_def MARKET_def STOP_LIMIT_def
lemmas tif_defs = GTC_def IOC_def FOK_def PostOnly_def
lemmas stp_defs = STPNone_def STPCancelTaker_def STPCancelResting_def STPCancelBoth_def STPDecrement_def

lemma side_distinct [simp]: "BUY \<noteq> SELL" "SELL \<noteq> BUY"
  by (simp_all add: side_defs)

lemma type_distinct [simp]:
  "LIMIT \<noteq> MARKET" "MARKET \<noteq> LIMIT" "LIMIT \<noteq> STOP_LIMIT" "STOP_LIMIT \<noteq> LIMIT"
  "MARKET \<noteq> STOP_LIMIT" "STOP_LIMIT \<noteq> MARKET"
  by (simp_all add: type_defs)

lemma tif_distinct [simp]:
  "GTC \<noteq> IOC" "GTC \<noteq> FOK" "GTC \<noteq> PostOnly" "IOC \<noteq> GTC" "IOC \<noteq> FOK" "IOC \<noteq> PostOnly"
  "FOK \<noteq> GTC" "FOK \<noteq> IOC" "FOK \<noteq> PostOnly" "PostOnly \<noteq> GTC" "PostOnly \<noteq> IOC" "PostOnly \<noteq> FOK"
  by (simp_all add: tif_defs)

lemma stp_distinct [simp]:
  "STPNone \<noteq> STPCancelTaker" "STPCancelTaker \<noteq> STPNone"
  "STPCancelResting \<noteq> STPCancelTaker" "STPCancelBoth \<noteq> STPCancelTaker"
  "STPCancelBoth \<noteq> STPCancelResting" "STPDecrement \<noteq> STPCancelTaker"
  "STPDecrement \<noteq> STPCancelResting" "STPDecrement \<noteq> STPCancelBoth"
  "STPCancelTaker \<noteq> STPCancelResting" "STPCancelTaker \<noteq> STPCancelBoth"
  "STPCancelTaker \<noteq> STPDecrement" "STPCancelResting \<noteq> STPCancelBoth"
  "STPCancelResting \<noteq> STPDecrement" "STPCancelBoth \<noteq> STPDecrement"
  by (simp_all add: stp_defs)

section \<open>Order, Match, BookDelta\<close>

record order =
  oID :: order_id
  oSymbol :: string
  oUserID :: int64
  oSide :: side
  oType :: order_type
  oTIF :: tif
  oSTP :: stp_mode
  oPrice :: px
  oTrigger :: px
  oVolume :: qty

definition zero_order :: order where
  "zero_order = \<lparr>oID = 0, oSymbol = '''', oUserID = 0, oSide = '''', oType = '''', oTIF = '''',
     oSTP = '''', oPrice = 0, oTrigger = 0, oVolume = 0\<rparr>"

record match =
  mSeq :: uint64
  mBuyId :: order_id
  mSellId :: order_id
  mMatchId :: int64
  mPrice :: px
  mVolume :: qty

record book_delta =
  dSeq :: uint64
  dSymbol :: string
  dSide :: side
  dPrice :: px
  dQty :: qty

section \<open>Normalize, IsTriggered, Validate\<close>

definition Normalize :: "order \<Rightarrow> order" where
  "Normalize o0 =
     (let o1 = (if oTIF o0 = '''' then o0\<lparr>oTIF := GTC\<rparr> else o0)
      in if oSTP o1 = '''' \<and> oUserID o1 \<noteq> 0 then o1\<lparr>oSTP := STPCancelTaker\<rparr> else o1)"

definition IsTriggered :: "order \<Rightarrow> px \<Rightarrow> bool" where
  "IsTriggered ord price =
     (if oType ord \<noteq> STOP_LIMIT then True
      else if oSide ord = BUY then px_Lte price (oTrigger ord)
      else if oSide ord = SELL then px_Gte price (oTrigger ord)
      else False)"

datatype order_error = ErrNotValidOrder

definition Validate :: "order \<Rightarrow> order_error option" where
  "Validate ord =
     (if oType ord = '''' \<or> oSide ord = '''' \<or> px_IsZero (oPrice ord) \<or> oSymbol ord = ''''
      then Some ErrNotValidOrder else None)"

lemma Normalize_idem: "Normalize (Normalize ord) = Normalize ord"
  by (simp add: Normalize_def Let_def tif_defs stp_defs)

lemma Normalize_sel [simp]:
  "oID (Normalize ord) = oID ord" "oSymbol (Normalize ord) = oSymbol ord"
  "oUserID (Normalize ord) = oUserID ord" "oSide (Normalize ord) = oSide ord"
  "oType (Normalize ord) = oType ord" "oTIF (Normalize ord) = oTIF ord"
  "oPrice (Normalize ord) = oPrice ord" "oTrigger (Normalize ord) = oTrigger ord"
  "oVolume (Normalize ord) = oVolume ord"
  by (simp_all add: Normalize_def Let_def tif_defs)

lemma oSTP_Normalize:
  "oSTP (Normalize ord) = (if oSTP ord = STPNone \<and> oUserID ord \<noteq> 0 then STPCancelTaker else oSTP ord)"
  by (simp add: Normalize_def Let_def stp_defs)

section \<open>Printable orders\<close>

text \<open>The least \<^verbatim>\<open>int64\<close> is the one value without a printed form.\<close>

definition printable :: "order \<Rightarrow> bool" where
  "printable x \<longleftrightarrow> px_val (oPrice x) \<noteq> - (2 ^ 63) \<and> px_val (oTrigger x) \<noteq> - (2 ^ 63) \<and>
     qty_val (oVolume x) \<noteq> - (2 ^ 63)"

section \<open>The snapshot form of an order\<close>

text \<open>
  The fields of the generated message \<^verbatim>\<open>protoModels.Order\<close> (\<^verbatim>\<open>orderbook.proto\<close>).
  \<^verbatim>\<open>OrderFromProto\<close> panics on a corrupt field: the panics are the left values.
\<close>

record proto_order =
  poId :: int64
  poSymbol :: string
  poSide :: string
  poPrice :: string
  poVolume :: string
  poType :: string
  poTriggerPrice :: string
  poUserId :: int64
  poTimeInForce :: string
  poStp :: string

datatype proto_panic =
    CorruptPrice fixed_error
  | CorruptVolume fixed_error
  | CorruptTrigger fixed_error

definition order_ToProto :: "order \<Rightarrow> proto_order" where
  "order_ToProto ord =
     (let triggerStr = (if \<not> px_IsZero (oTrigger ord) then px_String (oTrigger ord) else '''')
      in \<lparr>poId = oID ord, poSymbol = oSymbol ord, poSide = oSide ord,
          poPrice = px_String (oPrice ord), poVolume = qty_String (oVolume ord),
          poType = oType ord, poTriggerPrice = triggerStr, poUserId = oUserID ord,
          poTimeInForce = oTIF ord, poStp = oSTP ord\<rparr>)"

definition OrderFromProto :: "proto_order \<Rightarrow> proto_panic + order" where
  "OrderFromProto p =
     (case ParsePx (poPrice p) of
        Inl e \<Rightarrow> Inl (CorruptPrice e)
      | Inr price \<Rightarrow>
          (case ParseQty (poVolume p) of
             Inl e \<Rightarrow> Inl (CorruptVolume e)
           | Inr vol \<Rightarrow>
               (case (if poTriggerPrice p \<noteq> '''' then ParsePx (poTriggerPrice p) else Inr 0) of
                  Inl e \<Rightarrow> Inl (CorruptTrigger e)
                | Inr trigger \<Rightarrow>
                    Inr \<lparr>oID = poId p, oSymbol = poSymbol p, oUserID = poUserId p,
                         oSide = poSide p, oType = poType p, oTIF = poTimeInForce p,
                         oSTP = poStp p, oPrice = price, oTrigger = trigger, oVolume = vol\<rparr>)))"

end
