(* ===== verification/NodeList.thy ===== *)
theory NodeList
  imports Orders
begin

text \<open>
  \<^verbatim>\<open>models/orderlist.go\<close>: the doubly linked FIFO queue of a price level, as a
  linked structure in a store of nodes. An address is a natural number, a Go
  pointer that may be nil is an optional address, and allocation hands out the
  next unused address. The list of addresses from head to tail is the queue's
  contents; the contract of the queue is stated as a locale and discharged for
  this implementation.
\<close>

type_synonym naddr = nat
type_synonym laddr = nat

record order_node =
  nOrder :: order
  nPrev :: "naddr option"
  nNext :: "naddr option"
  nLevel :: laddr

record order_list =
  lHead :: "naddr option"
  lTail :: "naddr option"
  lSize :: int

record node_store =
  nsNode :: "naddr \<Rightarrow> order_node"
  nsFree :: naddr

definition zero_node :: order_node where
  "zero_node = \<lparr>nOrder = zero_order, nPrev = None, nNext = None, nLevel = 0\<rparr>"

definition empty_store :: node_store where
  "empty_store = \<lparr>nsNode = (\<lambda>_. zero_node), nsFree = 0\<rparr>"

definition empty_list :: order_list where
  "empty_list = \<lparr>lHead = None, lTail = None, lSize = 0\<rparr>"

text \<open>An assignment to a field of the node at an address.\<close>

definition upd_node :: "naddr \<Rightarrow> (order_node \<Rightarrow> order_node) \<Rightarrow> node_store \<Rightarrow> node_store" where
  "upd_node a f s = s\<lparr>nsNode := (nsNode s)(a := f (nsNode s a))\<rparr>"

section \<open>The operations\<close>

definition list_Head :: "order_list \<Rightarrow> naddr option" where
  "list_Head l = lHead l"

definition list_Len :: "order_list \<Rightarrow> int" where
  "list_Len l = lSize l"

definition list_IsEmpty :: "order_list \<Rightarrow> bool" where
  "list_IsEmpty l \<longleftrightarrow> lSize l = 0"

definition PushBack ::
  "order \<Rightarrow> laddr \<Rightarrow> order_list \<times> node_store \<Rightarrow> naddr \<times> order_list \<times> node_store" where
  "PushBack ord level ls =
     (case ls of (l, s) \<Rightarrow>
        let n = nsFree s;
            s1 = s\<lparr>nsNode := (nsNode s)
                     (n := \<lparr>nOrder = ord, nPrev = None, nNext = None, nLevel = level\<rparr>),
                   nsFree := n + 1\<rparr>;
            (l2, s2) =
              (case lTail l of
                 None \<Rightarrow> (l\<lparr>lHead := Some n\<rparr>, s1)
               | Some t \<Rightarrow>
                   (l, upd_node t (\<lambda>x. x\<lparr>nNext := Some n\<rparr>)
                         (upd_node n (\<lambda>x. x\<lparr>nPrev := Some t\<rparr>) s1)))
        in (n, l2\<lparr>lTail := Some n, lSize := lSize l2 + 1\<rparr>, s2))"

definition list_Remove :: "naddr \<Rightarrow> order_list \<times> node_store \<Rightarrow> order_list \<times> node_store" where
  "list_Remove n ls =
     (case ls of (l, s) \<Rightarrow>
        let (l1, s1) =
              (case nPrev (nsNode s n) of
                 Some p \<Rightarrow> (l, upd_node p (\<lambda>x. x\<lparr>nNext := nNext (nsNode s n)\<rparr>) s)
               | None \<Rightarrow> (l\<lparr>lHead := nNext (nsNode s n)\<rparr>, s));
            (l2, s2) =
              (case nNext (nsNode s1 n) of
                 Some q \<Rightarrow> (l1, upd_node q (\<lambda>x. x\<lparr>nPrev := nPrev (nsNode s1 n)\<rparr>) s1)
               | None \<Rightarrow> (l1\<lparr>lTail := nPrev (nsNode s1 n)\<rparr>, s1));
            s3 = upd_node n (\<lambda>x. x\<lparr>nPrev := None, nNext := None\<rparr>) s2
        in (l2\<lparr>lSize := lSize l2 - 1\<rparr>, s3))"

section \<open>Chains of nodes\<close>

text \<open>
  \<open>chain N p xs q\<close>: the nodes \<open>xs\<close> are linked in this order in both directions,
  the first one's \<open>prev\<close> is \<open>p\<close> and the last one's \<open>next\<close> is \<open>q\<close>.
\<close>

fun chain :: "(naddr \<Rightarrow> order_node) \<Rightarrow> naddr option \<Rightarrow> naddr list \<Rightarrow> naddr option \<Rightarrow> bool" where
  "chain N p [] q \<longleftrightarrow> True"
| "chain N p (x # xs) q \<longleftrightarrow>
     nPrev (N x) = p \<and> nNext (N x) = hd_or xs q \<and> chain N (Some x) xs q"

lemma chain_append [simp]:
  "chain N p (xs @ ys) q \<longleftrightarrow> chain N p xs (hd_or ys q) \<and> chain N (last_or xs p) ys q"
proof (induction xs arbitrary: p)
  case (Cons x xs)
  then show ?case by (auto simp: hd_or_append last_or_Cons)
qed simp

lemma chain_frame:
  "\<forall>x \<in> set xs. nPrev (M x) = nPrev (N x) \<and> nNext (M x) = nNext (N x) \<Longrightarrow>
   chain M p xs q = chain N p xs q"
  by (induction xs arbitrary: p) auto

text \<open>Redirecting the pointers at the two ends of a chain.\<close>

lemma chain_set_next:
  assumes "chain N p (xs @ [x]) q" and "distinct (xs @ [x])"
  shows "chain (N(x := (N x)\<lparr>nNext := r\<rparr>)) p (xs @ [x]) r"
proof -
  let ?M = "N(x := (N x)\<lparr>nNext := r\<rparr>)"
  have "chain ?M p xs (Some x)"
    using assms by (subst chain_frame [where N = N]) auto
  then show ?thesis using assms by simp
qed

lemma chain_set_prev:
  assumes "chain N p (x # xs) q" and "distinct (x # xs)"
  shows "chain (N(x := (N x)\<lparr>nPrev := r\<rparr>)) r (x # xs) q"
proof -
  have "chain (N(x := (N x)\<lparr>nPrev := r\<rparr>)) (Some x) xs q"
    using assms by (subst chain_frame [where N = N]) auto
  then show ?thesis using assms by simp
qed

lemma chain_upd_other: "a \<notin> set xs \<Longrightarrow> chain (N(a := v)) p xs q = chain N p xs q"
  by (rule chain_frame) auto

section \<open>Representation of a queue\<close>

text \<open>
  \<open>list_rep N fr l xs\<close>: the list header \<open>l\<close> represents the queue whose nodes, oldest
  first, are \<open>xs\<close>, all allocated (below \<open>fr\<close>).
\<close>

definition list_rep :: "node_store \<Rightarrow> order_list \<Rightarrow> naddr list \<Rightarrow> bool" where
  "list_rep s l xs \<longleftrightarrow>
     chain (nsNode s) None xs None \<and> distinct xs \<and> (\<forall>x \<in> set xs. x < nsFree s) \<and>
     lHead l = hd_or xs None \<and> lTail l = last_or xs None \<and> lSize l = int (length xs)"

text \<open>Reading the queue off the store: follow \<open>next\<close> at most \<open>k\<close> times.\<close>

fun walk :: "(naddr \<Rightarrow> order_node) \<Rightarrow> naddr option \<Rightarrow> nat \<Rightarrow> naddr list" where
  "walk N None k = []"
| "walk N (Some a) 0 = []"
| "walk N (Some a) (Suc k) = a # walk N (nNext (N a)) k"

definition list_nodes :: "node_store \<Rightarrow> order_list \<Rightarrow> naddr list" where
  "list_nodes s l = walk (nsNode s) (lHead l) (nat (lSize l))"

lemma walk_chain: "chain N p xs None \<Longrightarrow> walk N (hd_or xs None) (length xs) = xs"
  by (induction xs arbitrary: p) auto

lemma list_rep_nodes: "list_rep s l xs \<Longrightarrow> list_nodes s l = xs"
  by (auto simp: list_rep_def list_nodes_def dest: walk_chain)

lemma list_rep_empty: "list_rep s empty_list []"
  by (simp add: list_rep_def empty_list_def)

lemma list_rep_Head: "list_rep s l xs \<Longrightarrow> list_Head l = hd_or xs None"
  by (simp add: list_rep_def list_Head_def)

lemma list_rep_IsEmpty: "list_rep s l xs \<Longrightarrow> list_IsEmpty l \<longleftrightarrow> xs = []"
  by (simp add: list_rep_def list_IsEmpty_def)

lemma list_rep_Len: "list_rep s l xs \<Longrightarrow> list_Len l = int (length xs)"
  by (simp add: list_rep_def list_Len_def)

lemma list_rep_frame:
  assumes "list_rep s l xs" and "nsFree s \<le> nsFree t"
    and "\<And>x. x \<in> set xs \<Longrightarrow> nPrev (nsNode t x) = nPrev (nsNode s x) \<and> nNext (nsNode t x) = nNext (nsNode s x)"
  shows "list_rep t l xs"
  using assms chain_frame [of xs "nsNode t" "nsNode s"]
  by (auto simp: list_rep_def)

section \<open>Contracts of PushBack and Remove\<close>

text \<open>\<open>same_except A s t\<close>: the stores differ at most at the addresses \<open>A\<close>.\<close>

definition same_except :: "naddr set \<Rightarrow> node_store \<Rightarrow> node_store \<Rightarrow> bool" where
  "same_except A s t \<longleftrightarrow> (\<forall>x. x \<notin> A \<longrightarrow> nsNode t x = nsNode s x)"

definition payload :: "node_store \<Rightarrow> naddr \<Rightarrow> order \<times> laddr" where
  "payload s x = (nOrder (nsNode s x), nLevel (nsNode s x))"

lemma upd_node_sel [frame_simps]:
  "nsNode (upd_node a f s) x = (if x = a then f (nsNode s a) else nsNode s x)"
  "nsFree (upd_node a f s) = nsFree s"
  by (simp_all add: upd_node_def)

lemma PushBack_contract:
  assumes rep: "list_rep s l xs" and push: "PushBack ord lv (l, s) = (n, l', s')"
  shows "n = nsFree s \<and> nsFree s' = nsFree s + 1 \<and> list_rep s' l' (xs @ [n]) \<and>
    payload s' n = (ord, lv) \<and> (\<forall>x. x \<noteq> n \<longrightarrow> payload s' x = payload s x) \<and>
    same_except (insert n (set xs)) s s'"
proof (cases xs rule: rev_cases)
  case Nil
  with rep push show ?thesis
    by (auto simp: PushBack_def list_rep_def Let_def payload_def same_except_def)
next
  case (snoc ys t)
  let ?new = "\<lparr>nOrder = ord, nPrev = None, nNext = None, nLevel = lv\<rparr>"
  have xs: "chain (nsNode s) None (ys @ [t]) None" "distinct (ys @ [t])" "lTail l = Some t"
    "\<forall>x \<in> set (ys @ [t]). x < nsFree s" "lHead l = hd_or (ys @ [t]) None"
    "lSize l = int (length (ys @ [t]))"
    using rep snoc by (simp_all add: list_rep_def)
  have n: "n = nsFree s" and fresh: "n \<notin> set (ys @ [t])"
    using push xs(4) by (auto simp: PushBack_def Let_def split: option.splits)
  define N where "N = (nsNode s)(n := ?new)"
  have t: "t \<noteq> n" using fresh by auto
  have s': "nsFree s' = nsFree s + 1"
    "nsNode s' = (N(n := (N n)\<lparr>nPrev := Some t\<rparr>))(t := (N t)\<lparr>nNext := Some n\<rparr>)"
    and l': "l' = l\<lparr>lTail := Some n, lSize := lSize l + 1\<rparr>"
    using push xs(3) n t by (auto simp: PushBack_def Let_def upd_node_def N_def)
  have "chain N None (ys @ [t]) None"
    using xs(1) fresh unfolding N_def by (simp only: chain_upd_other not_False_eq_True)
  then have "chain (N(t := (N t)\<lparr>nNext := Some n\<rparr>)) None (ys @ [t]) (Some n)"
    using xs(2) by (rule chain_set_next)
  then have "chain (nsNode s') None (ys @ [t]) (Some n)"
    by (subst chain_frame [where N = "N(t := (N t)\<lparr>nNext := Some n\<rparr>)"]) (use s' fresh in auto)
  moreover have "nsNode s' n = ?new\<lparr>nPrev := Some t\<rparr>" using s' t by (simp add: N_def)
  ultimately have "chain (nsNode s') None ((ys @ [t]) @ [n]) None"
    unfolding chain_append [of _ _ "ys @ [t]"] by simp
  then have "list_rep s' l' (xs @ [n])"
    using snoc xs n fresh s'(1) l' by (auto simp: list_rep_def hd_or_append last_or_def less_Suc_eq)
  then show ?thesis
    using n s' t snoc by (auto simp: payload_def same_except_def N_def)
qed

lemma list_Remove_contract:
  assumes rep: "list_rep s l (as @ n # bs)" and rem: "list_Remove n (l, s) = (l', s')"
  shows "nsFree s' = nsFree s \<and> list_rep s' l' (as @ bs) \<and>
    (\<forall>x. payload s' x = payload s x) \<and> same_except (set (as @ n # bs)) s s'"
proof -
  let ?N = "nsNode s"
  have ch: "chain ?N None as (Some n)" "chain ?N (Some n) bs None"
    "nPrev (?N n) = last_or as None" "nNext (?N n) = hd_or bs None"
    and d: "distinct (as @ n # bs)"
    using rep by (simp_all add: list_rep_def)
  define M1 where "M1 = (case last_or as None of Some p \<Rightarrow> ?N(p := (?N p)\<lparr>nNext := hd_or bs None\<rparr>)
    | None \<Rightarrow> ?N)"
  define M2 where "M2 = (case hd_or bs None of Some q \<Rightarrow> M1(q := (M1 q)\<lparr>nPrev := last_or as None\<rparr>)
    | None \<Rightarrow> M1)"
  have M1: "chain M1 None as (hd_or bs None)" "chain M1 (Some n) bs None" "M1 n = ?N n"
  proof -
    show "chain M1 None as (hd_or bs None)"
      using ch(1) d chain_set_next [of ?N None "butlast as" "last as"]
      by (cases as rule: rev_cases) (auto simp: M1_def)
    show "chain M1 (Some n) bs None" "M1 n = ?N n"
      using ch(2) d by (cases as rule: rev_cases; auto simp: M1_def chain_upd_other)+
  qed
  have M2: "chain M2 None as (hd_or bs None)" "chain M2 (last_or as None) bs None" "M2 n = ?N n"
  proof -
    show "chain M2 None as (hd_or bs None)" "M2 n = ?N n"
      using M1(1,3) d by (cases bs; auto simp: M2_def chain_upd_other)+
    show "chain M2 (last_or as None) bs None"
      using M1(2) d chain_set_prev [of M1 "Some n" "hd bs" "tl bs"]
      by (cases bs) (auto simp: M2_def)
  qed
  have s': "nsNode s' = M2(n := (M2 n)\<lparr>nPrev := None, nNext := None\<rparr>)" "nsFree s' = nsFree s"
    and l': "lHead l' = (if as = [] then hd_or bs None else lHead l)"
      "lTail l' = (if bs = [] then last_or as None else lTail l)" "lSize l' = lSize l - 1"
    using rem ch(3,4) d
    by (cases as rule: rev_cases; cases bs;
        auto simp: list_Remove_def Let_def upd_node_def M1_def M2_def)+
  have "chain (nsNode s') None (as @ bs) None"
    unfolding s' chain_append using M2 d by (simp add: chain_upd_other)
  moreover have "payload s' x = payload s x" for x
    unfolding payload_def s' M2_def M1_def by (auto split: option.split)
  moreover have "same_except (set (as @ n # bs)) s s'"
    unfolding same_except_def s' M2_def M1_def
    by (cases as rule: rev_cases; cases bs) auto
  ultimately show ?thesis
    using rep s'(2) l' d
    by (auto simp: list_rep_def hd_or_append hd_or_nonempty last_or_append last_or_Cons last_or_def
        split: if_splits)
qed

lemmas PushBack_facts = PushBack_contract [THEN conjunct1]
  PushBack_contract [THEN conjunct2, THEN conjunct1]
  PushBack_contract [THEN conjunct2, THEN conjunct2, THEN conjunct1]
  PushBack_contract [THEN conjunct2, THEN conjunct2, THEN conjunct2, THEN conjunct1]
  PushBack_contract [THEN conjunct2, THEN conjunct2, THEN conjunct2, THEN conjunct2, THEN conjunct1, rule_format]
  PushBack_contract [THEN conjunct2, THEN conjunct2, THEN conjunct2, THEN conjunct2, THEN conjunct2]

lemmas list_Remove_facts = list_Remove_contract [THEN conjunct1]
  list_Remove_contract [THEN conjunct2, THEN conjunct1]
  list_Remove_contract [THEN conjunct2, THEN conjunct2, THEN conjunct1, rule_format]
  list_Remove_contract [THEN conjunct2, THEN conjunct2, THEN conjunct2]

section \<open>The queue interface\<close>

text \<open>
  What the price level relies on: a queue with a contents list, where \<open>push\<close>
  appends a fresh element carrying its payload, \<open>remove\<close> takes out an element at
  any position, and \<open>head\<close>, \<open>len\<close> and \<open>is_empty\<close> read the contents. The client
  lemmas say that such a queue is first-in first-out.
\<close>

locale fifo_queue =
  fixes rep :: "'s \<Rightarrow> 'l \<Rightarrow> 'a list \<Rightarrow> bool"
    and item :: "'s \<Rightarrow> 'a \<Rightarrow> 'p"
    and push :: "'p \<Rightarrow> 'l \<times> 's \<Rightarrow> 'a \<times> 'l \<times> 's"
    and remove :: "'a \<Rightarrow> 'l \<times> 's \<Rightarrow> 'l \<times> 's"
    and head :: "'l \<Rightarrow> 'a option"
    and len :: "'l \<Rightarrow> int"
    and is_empty :: "'l \<Rightarrow> bool"
  assumes push_rep: "rep s l xs \<Longrightarrow> push p (l, s) = (n, l', s') \<Longrightarrow> rep s' l' (xs @ [n])"
    and push_item: "rep s l xs \<Longrightarrow> push p (l, s) = (n, l', s') \<Longrightarrow> item s' n = p"
    and push_others: "rep s l xs \<Longrightarrow> push p (l, s) = (n, l', s') \<Longrightarrow> x \<noteq> n \<Longrightarrow> item s' x = item s x"
    and remove_rep:
      "rep s l (as @ n # bs) \<Longrightarrow> remove n (l, s) = (l', s') \<Longrightarrow> rep s' l' (as @ bs)"
    and remove_items:
      "rep s l (as @ n # bs) \<Longrightarrow> remove n (l, s) = (l', s') \<Longrightarrow> item s' x = item s x"
    and rep_distinct: "rep s l xs \<Longrightarrow> distinct xs"
    and head_rep: "rep s l xs \<Longrightarrow> head l = hd_or xs None"
    and len_rep: "rep s l xs \<Longrightarrow> len l = int (length xs)"
    and is_empty_rep: "rep s l xs \<Longrightarrow> is_empty l \<longleftrightarrow> xs = []"
begin

text \<open>The items in queue order after a push and after a removal.\<close>

lemma push_items:
  assumes "rep s l xs" and "push p (l, s) = (n, l', s')"
  shows "map (item s') (xs @ [n]) = map (item s) xs @ [p]"
proof -
  have "distinct (xs @ [n])" using rep_distinct [OF push_rep [OF assms]] .
  then have "n \<notin> set xs" by simp
  then have "\<forall>x \<in> set xs. item s' x = item s x"
    using push_others [OF assms] by metis
  then show ?thesis using push_item [OF assms] by simp
qed

lemma push_head:
  assumes "rep s l xs" and "push p (l, s) = (n, l', s')"
  shows "head l' = (case head l of None \<Rightarrow> Some n | Some h \<Rightarrow> Some h)"
  using head_rep [OF push_rep [OF assms]] head_rep [OF assms(1)]
  by (simp add: hd_or_append hd_or_def split: list.split)

text \<open>
  Taking the head out \<open>k\<close> times leaves the queue without its \<open>k\<close> oldest elements:
  first in, first out.
\<close>

lemma drain_rep:
  assumes "rep s l xs" and "k \<le> length xs"
  shows "\<exists>l' s'. ((\<lambda>(l, s). case head l of None \<Rightarrow> (l, s) | Some n \<Rightarrow> remove n (l, s)) ^^ k) (l, s)
      = (l', s') \<and> rep s' l' (drop k xs) \<and> (\<forall>x. item s' x = item s x)"
  using assms(2)
proof (induction k)
  case 0
  then show ?case using assms(1) by simp
next
  case (Suc k)
  let ?f = "\<lambda>(l, s). case head l of None \<Rightarrow> (l, s) | Some n \<Rightarrow> remove n (l, s)"
  from Suc obtain l1 s1 where it: "(?f ^^ k) (l, s) = (l1, s1)"
    and r: "rep s1 l1 (drop k xs)" and i: "\<forall>x. item s1 x = item s x"
    by auto
  from Suc.prems have d: "drop k xs = xs ! k # drop (Suc k) xs"
    by (simp add: Cons_nth_drop_Suc)
  obtain l2 s2 where rm: "remove (xs ! k) (l1, s1) = (l2, s2)" by fastforce
  have "rep s1 l1 ([] @ xs ! k # drop (Suc k) xs)" using r d by simp
  note rr = remove_rep [OF this rm] remove_items [OF this rm]
  have "head l1 = Some (xs ! k)" using head_rep [OF r] d by simp
  with it rm have "(?f ^^ Suc k) (l, s) = (l2, s2)" by simp
  with rr i show ?case by auto
qed

end

interpretation order_queue: fifo_queue
  list_rep payload "\<lambda>(ord, lv). PushBack ord lv" list_Remove list_Head list_Len list_IsEmpty
proof (unfold_locales, goal_cases)
  case (1 s l xs p n l' s') then show ?case by (cases p) (auto intro: PushBack_facts)
next
  case (2 s l xs p n l' s') then show ?case by (cases p) (auto intro: PushBack_facts)
next
  case (3 s l xs p n l' s' x) then show ?case by (cases p) (auto intro: PushBack_facts)
next
  case (4 s l as n bs l' s') then show ?case by (auto intro: list_Remove_facts)
next
  case (5 s l as n bs l' s' x) then show ?case by (auto intro: list_Remove_facts)
next
  case (6 s l xs) then show ?case by (simp add: list_rep_def)
qed (simp_all add: list_rep_Head list_rep_Len list_rep_IsEmpty)

text \<open>
  The linked queue is first-in first-out: reading it off the pointers after
  \<^verbatim>\<open>PushBack\<close> gives the old nodes followed by the new one, with the orders of all
  nodes as they were and the new order last; taking the head out \<open>k\<close> times leaves
  exactly the queue without its \<open>k\<close> oldest nodes.
\<close>

theorem queue_fifo:
  assumes "list_rep s l xs" and "PushBack ord lv (l, s) = (n, l1, s1)" and "k \<le> length xs + 1"
  shows "list_nodes s1 l1 = list_nodes s l @ [n] \<and>
    map (payload s1) (list_nodes s1 l1) = map (payload s) (list_nodes s l) @ [(ord, lv)] \<and>
    (\<exists>l2 s2. ((\<lambda>(l, s). case list_Head l of None \<Rightarrow> (l, s) | Some n \<Rightarrow> list_Remove n (l, s)) ^^ k)
        (l1, s1) = (l2, s2) \<and> list_nodes s2 l2 = drop k (xs @ [n]))"
proof -
  have push: "(\<lambda>(ord, lv). PushBack ord lv) (ord, lv) (l, s) = (n, l1, s1)" using assms(2) by simp
  note r = order_queue.push_rep [OF assms(1) push]
  have "k \<le> length (xs @ [n])" using assms(3) by simp
  from order_queue.drain_rep [OF r this] order_queue.push_items [OF assms(1) push]
  show ?thesis
    using list_rep_nodes [OF assms(1)] list_rep_nodes [OF r] by (fastforce dest: list_rep_nodes)
qed

theorem queue_fifo_witness:
  "list_nodes (snd (snd (PushBack zero_order 3 (empty_list, empty_store))))
      (fst (snd (PushBack zero_order 3 (empty_list, empty_store))))
    = list_nodes empty_store empty_list @ [0]"
  using queue_fifo [OF list_rep_empty, of zero_order 3 empty_store 0 _ _ 1]
  by (auto simp: PushBack_def empty_store_def empty_list_def Let_def)

end
