(* ===== verification/Level.thy ===== *)
theory Level
  imports NodeList
begin

text \<open>
  \<^verbatim>\<open>MatchEngineEntry\<close> of \<^verbatim>\<open>models/orderbook.go\<close>: one price level, a FIFO queue of
  orders with the cached sum of their volumes. Every operation is given the
  level's address, its contents and the node store, and returns the last two
  updated. \<open>level_rep\<close> is what each of them keeps: the queue is well linked,
  every node points back to the level, and the cache is the walking sum.
\<close>

record level =
  lvPrice :: px
  lvOrders :: order_list
  lvTotal :: qty

definition new_level :: "px \<Rightarrow> level" where
  "new_level p = \<lparr>lvPrice = p, lvOrders = empty_list, lvTotal = 0\<rparr>"

definition node_order :: "node_store \<Rightarrow> naddr \<Rightarrow> order" where
  "node_order s n = nOrder (nsNode s n)"

definition set_volume :: "naddr \<Rightarrow> qty \<Rightarrow> node_store \<Rightarrow> node_store" where
  "set_volume n v s = upd_node n (\<lambda>x. x\<lparr>nOrder := (nOrder x)\<lparr>oVolume := v\<rparr>\<rparr>) s"

section \<open>The operations\<close>

definition TotalQty :: "level \<Rightarrow> qty" where
  "TotalQty e = lvTotal e"

definition addOrder :: "laddr \<Rightarrow> order \<Rightarrow> level \<times> node_store \<Rightarrow> naddr \<times> level \<times> node_store" where
  "addOrder la ord es =
     (case es of (e, s) \<Rightarrow>
        case PushBack ord la (lvOrders e, s) of (n, l, s') \<Rightarrow>
          (n, e\<lparr>lvOrders := l, lvTotal := qty_Add (lvTotal e) (oVolume ord)\<rparr>, s'))"

definition removeNode :: "naddr \<Rightarrow> level \<times> node_store \<Rightarrow> level \<times> node_store" where
  "removeNode n es =
     (case es of (e, s) \<Rightarrow>
        let e1 = e\<lparr>lvTotal := qty_Sub (lvTotal e) (oVolume (node_order s n))\<rparr>
        in case list_Remove n (lvOrders e1, s) of (l, s') \<Rightarrow> (e1\<lparr>lvOrders := l\<rparr>, s'))"

text \<open>\<^verbatim>\<open>reduceHead\<close> dereferences the head: on an empty level that is a nil pointer.\<close>

definition reduceHead :: "qty \<Rightarrow> level \<times> node_store \<Rightarrow> (level \<times> node_store) option" where
  "reduceHead by_qty es =
     (case es of (e, s) \<Rightarrow>
        case list_Head (lvOrders e) of
          None \<Rightarrow> None
        | Some h \<Rightarrow>
            Some (e\<lparr>lvTotal := qty_Sub (lvTotal e) by_qty\<rparr>,
                  set_volume h (qty_Sub (oVolume (node_order s h)) by_qty) s))"

definition reduceNode :: "naddr \<Rightarrow> qty \<Rightarrow> level \<times> node_store \<Rightarrow> level \<times> node_store" where
  "reduceNode n newVolume es =
     (case es of (e, s) \<Rightarrow>
        let delta = qty_Sub (oVolume (node_order s n)) newVolume
        in (e\<lparr>lvTotal := qty_Sub (lvTotal e) delta\<rparr>, set_volume n newVolume s))"

section \<open>Representation\<close>

definition orders_of :: "node_store \<Rightarrow> naddr list \<Rightarrow> order list" where
  "orders_of s xs = map (node_order s) xs"

definition volumes :: "order list \<Rightarrow> qty" where
  "volumes os = (\<Sum>ord\<leftarrow>os. oVolume ord)"

definition level_rep :: "laddr \<Rightarrow> node_store \<Rightarrow> level \<Rightarrow> naddr list \<Rightarrow> bool" where
  "level_rep la s e xs \<longleftrightarrow>
     list_rep s (lvOrders e) xs \<and> (\<forall>x \<in> set xs. nLevel (nsNode s x) = la) \<and>
     lvTotal e = volumes (orders_of s xs)"

lemma volumes_simps [simp]:
  "volumes [] = 0" "volumes (ord # os) = oVolume ord + volumes os"
  "volumes (os @ os') = volumes os + volumes os'"
  by (simp_all add: volumes_def)

lemma orders_of_simps [simp]:
  "orders_of s [] = []" "orders_of s (x # xs) = node_order s x # orders_of s xs"
  "orders_of s (xs @ ys) = orders_of s xs @ orders_of s ys" "orders_of s xs = [] \<longleftrightarrow> xs = []"
  "length (orders_of s xs) = length xs"
  by (simp_all add: orders_of_def)

lemma orders_of_cong:
  "(\<And>x. x \<in> set xs \<Longrightarrow> node_order s x = node_order t x) \<Longrightarrow> orders_of s xs = orders_of t xs"
  by (simp add: orders_of_def)

lemma payload_order: "payload s x = payload t y \<longleftrightarrow>
    node_order s x = node_order t y \<and> nLevel (nsNode s x) = nLevel (nsNode t y)"
  by (auto simp: payload_def node_order_def)

lemma level_rep_new: "level_rep la s (new_level p) []"
  by (simp add: level_rep_def new_level_def list_rep_empty)

lemma level_rep_frame:
  assumes "level_rep la s e xs" and "nsFree s \<le> nsFree t"
    and "\<And>x. x \<in> set xs \<Longrightarrow> nsNode t x = nsNode s x"
  shows "level_rep la t e xs" and "orders_of t xs = orders_of s xs"
proof -
  show "orders_of t xs = orders_of s xs"
    using assms(3) by (intro orders_of_cong) (simp add: node_order_def)
  then show "level_rep la t e xs"
    using assms list_rep_frame [of s "lvOrders e" xs t] by (simp add: level_rep_def)
qed

lemma level_rep_IsEmpty: "level_rep la s e xs \<Longrightarrow> list_IsEmpty (lvOrders e) \<longleftrightarrow> xs = []"
  by (auto simp: level_rep_def dest: order_queue.is_empty_rep)

lemma level_rep_Head: "level_rep la s e xs \<Longrightarrow> list_Head (lvOrders e) = hd_or xs None"
  by (auto simp: level_rep_def dest: order_queue.head_rep)

lemma set_volume_sel [frame_simps]:
  "nsFree (set_volume n v s) = nsFree s"
  "x \<noteq> n \<Longrightarrow> nsNode (set_volume n v s) x = nsNode s x"
  "nPrev (nsNode (set_volume n v s) x) = nPrev (nsNode s x)"
  "nNext (nsNode (set_volume n v s) x) = nNext (nsNode s x)"
  "nLevel (nsNode (set_volume n v s) x) = nLevel (nsNode s x)"
  "node_order (set_volume n v s) x =
     (if x = n then (node_order s n)\<lparr>oVolume := v\<rparr> else node_order s x)"
  by (simp_all add: set_volume_def node_order_def frame_simps)

section \<open>Contracts\<close>

lemma addOrder_contract:
  assumes rep: "level_rep la s e xs" and add: "addOrder la ord (e, s) = (n, e', s')"
  shows "level_rep la s' e' (xs @ [n])" and "lvPrice e' = lvPrice e"
    and "n = nsFree s" and "nsFree s' = nsFree s + 1"
    and "node_order s' n = ord" and "\<And>x. x \<noteq> n \<Longrightarrow> node_order s' x = node_order s x"
    and "orders_of s' (xs @ [n]) = orders_of s xs @ [ord]"
    and "same_except (insert n (set xs)) s s'"
    and "lvTotal e' = volumes (orders_of s xs @ [ord])"
    and "\<And>x. x \<noteq> n \<Longrightarrow> nLevel (nsNode s' x) = nLevel (nsNode s x)"
proof -
  obtain l where push: "PushBack ord la (lvOrders e, s) = (n, l, s')"
    and e': "e' = e\<lparr>lvOrders := l, lvTotal := qty_Add (lvTotal e) (oVolume ord)\<rparr>"
    using add by (auto simp: addOrder_def split: prod.splits)
  have lr: "list_rep s (lvOrders e) xs" using rep by (simp add: level_rep_def)
  note f = PushBack_facts [OF lr push]
  show "lvPrice e' = lvPrice e" "n = nsFree s" "nsFree s' = nsFree s + 1"
    "same_except (insert n (set xs)) s s'"
    using f e' by simp_all
  show n: "node_order s' n = ord" using f(4) by (simp add: payload_def node_order_def)
  show o: "node_order s' x = node_order s x" if "x \<noteq> n" for x
    using f(5) [OF that] by (simp add: payload_order)
  show nl: "nLevel (nsNode s' x) = nLevel (nsNode s x)" if "x \<noteq> n" for x
    using f(5) [OF that] by (simp add: payload_order)
  have nin: "n \<notin> set xs" using order_queue.rep_distinct [OF f(3)] by simp
  have "orders_of s' xs = orders_of s xs"
    using o nin by (intro orders_of_cong) metis
  then show os: "orders_of s' (xs @ [n]) = orders_of s xs @ [ord]" using n by simp
  show tot: "lvTotal e' = volumes (orders_of s xs @ [ord])"
    using rep e' by (simp add: level_rep_def px_qty_simps)
  have "nLevel (nsNode s' x) = la" if "x \<in> set (xs @ [n])" for x
    using that rep nl f(4) by (cases "x = n") (auto simp: level_rep_def payload_def)
  then show "level_rep la s' e' (xs @ [n])"
    using f(3) e' os tot by (auto simp: level_rep_def)
qed

lemma removeNode_contract:
  assumes rep: "level_rep la s e (as @ n # bs)" and rem: "removeNode n (e, s) = (e', s')"
  shows "level_rep la s' e' (as @ bs)" and "lvPrice e' = lvPrice e" and "nsFree s' = nsFree s"
    and "\<And>x. node_order s' x = node_order s x"
    and "\<And>x. nLevel (nsNode s' x) = nLevel (nsNode s x)"
    and "same_except (set (as @ n # bs)) s s'"
    and "lvTotal e' = lvTotal e - oVolume (node_order s n)"
proof -
  obtain l where rm: "list_Remove n (lvOrders e, s) = (l, s')"
    and e': "e' = e\<lparr>lvTotal := qty_Sub (lvTotal e) (oVolume (node_order s n)), lvOrders := l\<rparr>"
    using rem by (auto simp: removeNode_def Let_def split: prod.splits)
  have lr: "list_rep s (lvOrders e) (as @ n # bs)" using rep by (simp add: level_rep_def)
  note f = list_Remove_facts [OF lr rm]
  show "lvPrice e' = lvPrice e" "nsFree s' = nsFree s" "same_except (set (as @ n # bs)) s s'"
    "lvTotal e' = lvTotal e - oVolume (node_order s n)"
    using f e' by (simp_all add: px_qty_simps)
  show o: "node_order s' x = node_order s x" and nl: "nLevel (nsNode s' x) = nLevel (nsNode s x)" for x
    using f(3) [of x] by (simp_all add: payload_order)
  have "orders_of s' (as @ bs) = orders_of s (as @ bs)" using o by (intro orders_of_cong) simp
  then show "level_rep la s' e' (as @ bs)"
    using rep f(2) e' nl by (auto simp: level_rep_def px_qty_simps)
qed

text \<open>Both reductions give one node a new volume and move the cache by the difference.\<close>

lemma set_volume_contract:
  assumes rep: "level_rep la s e (as @ n # bs)"
    and e': "e' = e\<lparr>lvTotal := lvTotal e - (oVolume (node_order s n) - v)\<rparr>"
  shows "level_rep la (set_volume n v s) e' (as @ n # bs)"
    and "orders_of (set_volume n v s) (as @ n # bs) =
      orders_of s as @ (node_order s n)\<lparr>oVolume := v\<rparr> # orders_of s bs"
proof -
  have d: "n \<notin> set as" "n \<notin> set bs"
    using rep by (simp_all add: level_rep_def list_rep_def)
  have "orders_of (set_volume n v s) as = orders_of s as" "orders_of (set_volume n v s) bs = orders_of s bs"
    using d by (auto intro!: orders_of_cong simp: frame_simps)
  then show os: "orders_of (set_volume n v s) (as @ n # bs) =
      orders_of s as @ (node_order s n)\<lparr>oVolume := v\<rparr> # orders_of s bs"
    by (simp add: frame_simps)
  have "list_rep s (lvOrders e) (as @ n # bs)" using rep by (simp add: level_rep_def)
  then have "list_rep (set_volume n v s) (lvOrders e) (as @ n # bs)"
    by (rule list_rep_frame) (simp_all only: frame_simps order_refl simp_thms)
  moreover have tot: "lvTotal e = volumes (orders_of s as) + (oVolume (node_order s n) + volumes (orders_of s bs))"
    using rep by (simp add: level_rep_def)
  have "lvTotal e' = volumes (orders_of (set_volume n v s) (as @ n # bs))"
    unfolding e' os level.select_convs level.simps tot by (simp add: algebra_simps)
  moreover have "lvOrders e' = lvOrders e" using e' by simp
  moreover have "\<forall>x \<in> set (as @ n # bs). nLevel (nsNode (set_volume n v s) x) = la"
    using rep by (simp add: level_rep_def frame_simps)
  ultimately show "level_rep la (set_volume n v s) e' (as @ n # bs)"
    unfolding level_rep_def by simp
qed

lemma reduceHead_eq:
  "level_rep la s e (n # bs) \<Longrightarrow> reduceHead by_qty (e, s) =
     Some (reduceNode n (oVolume (node_order s n) - by_qty) (e, s))"
  using level_rep_Head [of la s e "n # bs"]
  by (simp add: reduceHead_def reduceNode_def Let_def px_qty_simps)

end
