(* ===== verification/Orderbook.thy ===== *)
theory Orderbook
  imports Level
begin

text \<open>
  \<^verbatim>\<open>models/orderbook.go\<close>, the \<^verbatim>\<open>Orderbook\<close> and its operations other than matching
  and the snapshot. The record holds the struct's fields and the store its
  pointers point into: the ladders are lists of level addresses, the two price
  maps and the order index map to addresses, \<open>obLevels\<close> and \<open>obNodes\<close> are the
  levels and the nodes at the addresses. \<open>obL2\<close> says whether an L2 sink is
  installed and \<open>obDeltas\<close> is what the sink has received, oldest first. A nil
  map reads as an empty one and \<^verbatim>\<open>ensureMaps\<close> runs before every write, so the
  maps are never nil here.
\<close>

record orderbook =
  obSymbol :: string
  obBuy :: "laddr list"
  obSell :: "laddr list"
  obConditional :: "order list"
  obSeq :: uint64
  obBid :: "px \<Rightarrow> laddr option"
  obAsk :: "px \<Rightarrow> laddr option"
  obIndex :: "order_id \<Rightarrow> naddr option"
  obL2 :: bool
  obNodes :: node_store
  obLevels :: "laddr \<Rightarrow> level"
  obLevelFree :: laddr
  obDeltas :: "book_delta list"

datatype book_error = ErrCancelOrderFailed | ErrModifyIncrease

section \<open>Construction, sequence numbers, deltas\<close>

definition NewOrderbook :: "string \<Rightarrow> orderbook" where
  "NewOrderbook symbol =
     \<lparr>obSymbol = symbol, obBuy = [], obSell = [], obConditional = [], obSeq = 0,
      obBid = (\<lambda>_. None), obAsk = (\<lambda>_. None), obIndex = (\<lambda>_. None), obL2 = False,
      obNodes = empty_store, obLevels = (\<lambda>_. new_level 0), obLevelFree = 0, obDeltas = []\<rparr>"

definition SetL2Sink :: "bool \<Rightarrow> orderbook \<Rightarrow> orderbook" where
  "SetL2Sink installed ob = ob\<lparr>obL2 := installed\<rparr>"

definition NextSeq :: "orderbook \<Rightarrow> uint64 \<times> orderbook" where
  "NextSeq ob = (let ob1 = ob\<lparr>obSeq := obSeq ob + 1\<rparr> in (obSeq ob1, ob1))"

definition Seq :: "orderbook \<Rightarrow> uint64" where
  "Seq ob = obSeq ob"

definition SetSeq :: "uint64 \<Rightarrow> orderbook \<Rightarrow> orderbook" where
  "SetSeq s ob = ob\<lparr>obSeq := s\<rparr>"

definition emitDelta :: "side \<Rightarrow> px \<Rightarrow> qty \<Rightarrow> orderbook \<Rightarrow> orderbook" where
  "emitDelta sd price q ob =
     (if \<not> obL2 ob then ob
      else case NextSeq ob of (sq, ob1) \<Rightarrow>
        ob1\<lparr>obDeltas := obDeltas ob1 @
          [\<lparr>dSeq = sq, dSymbol = obSymbol ob1, dSide = sd, dPrice = price, dQty = q\<rparr>]\<rparr>)"

definition AddConditionalOrder :: "order \<Rightarrow> orderbook \<Rightarrow> orderbook" where
  "AddConditionalOrder ord ob = ob\<lparr>obConditional := obConditional ob @ [ord]\<rparr>"

section \<open>The two ladders\<close>

text \<open>
  The code passes a pointer to a ladder and its price map together with the flag
  \<^verbatim>\<open>descending\<close>; the flag alone selects them here.
\<close>

definition book_of :: "bool \<Rightarrow> orderbook \<Rightarrow> laddr list" where
  "book_of descending ob = (if descending then obBuy ob else obSell ob)"

definition set_book :: "bool \<Rightarrow> laddr list \<Rightarrow> orderbook \<Rightarrow> orderbook" where
  "set_book descending b ob = (if descending then ob\<lparr>obBuy := b\<rparr> else ob\<lparr>obSell := b\<rparr>)"

definition by_price :: "bool \<Rightarrow> orderbook \<Rightarrow> px \<Rightarrow> laddr option" where
  "by_price descending ob = (if descending then obBid ob else obAsk ob)"

definition set_by_price :: "bool \<Rightarrow> px \<Rightarrow> laddr option \<Rightarrow> orderbook \<Rightarrow> orderbook" where
  "set_by_price descending p v ob =
     (if descending then ob\<lparr>obBid := (obBid ob)(p := v)\<rparr> else ob\<lparr>obAsk := (obAsk ob)(p := v)\<rparr>)"

definition level_price :: "orderbook \<Rightarrow> laddr \<Rightarrow> px" where
  "level_price ob la = lvPrice (obLevels ob la)"

definition level_at :: "laddr \<Rightarrow> orderbook \<Rightarrow> level \<times> node_store" where
  "level_at la ob = (obLevels ob la, obNodes ob)"

definition set_level :: "laddr \<Rightarrow> level \<times> node_store \<Rightarrow> orderbook \<Rightarrow> orderbook" where
  "set_level la es ob = ob\<lparr>obLevels := (obLevels ob)(la := fst es), obNodes := snd es\<rparr>"

definition index_order :: "order_id \<Rightarrow> naddr \<Rightarrow> orderbook \<Rightarrow> orderbook" where
  "index_order i n ob = ob\<lparr>obIndex := (obIndex ob)(i := Some n)\<rparr>"

definition unindex_order :: "order_id \<Rightarrow> orderbook \<Rightarrow> orderbook" where
  "unindex_order i ob = ob\<lparr>obIndex := (obIndex ob)(i := None)\<rparr>"

definition order_at :: "orderbook \<Rightarrow> naddr \<Rightarrow> order" where
  "order_at ob n = node_order (obNodes ob) n"

section \<open>Adding an order\<close>

definition insert_index :: "bool \<Rightarrow> px \<Rightarrow> orderbook \<Rightarrow> nat" where
  "insert_index descending p ob =
     sort_Search (length (book_of descending ob))
       (\<lambda>i. if descending then px_Lt (level_price ob (book_of descending ob ! i)) p
            else px_Gt (level_price ob (book_of descending ob ! i)) p)"

definition addSide :: "bool \<Rightarrow> order \<Rightarrow> orderbook \<Rightarrow> naddr \<times> orderbook" where
  "addSide descending ord ob =
     (case by_price descending ob (oPrice ord) of
        Some la \<Rightarrow>
          (case addOrder la ord (level_at la ob) of (n, e, s) \<Rightarrow>
             let ob1 = index_order (oID ord) n (set_level la (e, s) ob)
             in (n, emitDelta (oSide ord) (lvPrice e) (lvTotal e) ob1))
      | None \<Rightarrow>
          let la = obLevelFree ob in
          case addOrder la ord (new_level (oPrice ord), obNodes ob) of (n, e, s) \<Rightarrow>
            let ob1 = (set_level la (e, s) ob)\<lparr>obLevelFree := la + 1\<rparr>;
                ob2 = index_order (oID ord) n (set_by_price descending (oPrice ord) (Some la) ob1);
                idx = insert_index descending (oPrice ord) ob2;
                b = book_of descending ob2;
                ob3 = set_book descending (take idx b @ [la] @ drop idx b) ob2
            in (n, emitDelta (oSide ord) (lvPrice e) (lvTotal e) ob3))"

definition Add :: "order \<Rightarrow> orderbook \<Rightarrow> naddr option \<times> orderbook" where
  "Add ord ob =
     (if oSide ord = BUY then (case addSide True ord ob of (n, ob') \<Rightarrow> (Some n, ob'))
      else if oSide ord = SELL then (case addSide False ord ob of (n, ob') \<Rightarrow> (Some n, ob'))
      else (None, ob))"

section \<open>Lookup, cancel, reduce\<close>

definition LookupOrder :: "order_id \<Rightarrow> orderbook \<Rightarrow> order option" where
  "LookupOrder i ob =
     (case obIndex ob i of None \<Rightarrow> None | Some n \<Rightarrow> Some (order_at ob n))"

definition remove_index :: "bool \<Rightarrow> laddr \<Rightarrow> orderbook \<Rightarrow> nat" where
  "remove_index descending la ob =
     sort_Search (length (book_of descending ob))
       (\<lambda>i. if descending then px_Lte (level_price ob (book_of descending ob ! i)) (level_price ob la)
            else px_Gte (level_price ob (book_of descending ob ! i)) (level_price ob la))"

definition removeLevel :: "bool \<Rightarrow> laddr \<Rightarrow> orderbook \<Rightarrow> orderbook" where
  "removeLevel descending la ob =
     (let ob1 = set_by_price descending (level_price ob la) None ob;
          b = book_of descending ob1;
          idx = remove_index descending la ob1
      in if length b \<le> idx \<or> b ! idx \<noteq> la then ob1
         else set_book descending (take idx b @ drop (idx + 1) b) ob1)"

definition removeFrontLevel :: "side \<Rightarrow> orderbook \<Rightarrow> orderbook" where
  "removeFrontLevel sd ob =
     (if sd = BUY then
        (case obBuy ob of [] \<Rightarrow> ob
         | la # b \<Rightarrow> (set_by_price True (level_price ob la) None ob)\<lparr>obBuy := b\<rparr>)
      else if sd = SELL then
        (case obSell ob of [] \<Rightarrow> ob
         | la # b \<Rightarrow> (set_by_price False (level_price ob la) None ob)\<lparr>obSell := b\<rparr>)
      else ob)"

definition Cancel :: "order_id \<Rightarrow> orderbook \<Rightarrow> book_error option \<times> orderbook" where
  "Cancel targetID ob =
     (case obIndex ob targetID of
        None \<Rightarrow> (Some ErrCancelOrderFailed, ob)
      | Some n \<Rightarrow>
          let la = nLevel (nsNode (obNodes ob) n);
              sd = oSide (order_at ob n);
              ob1 = set_level la (removeNode n (level_at la ob)) ob;
              ob2 = unindex_order targetID ob1;
              ob3 = (if list_IsEmpty (lvOrders (obLevels ob2 la)) then
                       (if sd = BUY then removeLevel True la ob2
                        else if sd = SELL then removeLevel False la ob2 else ob2)
                     else ob2)
          in (None, emitDelta sd (level_price ob3 la) (lvTotal (obLevels ob3 la)) ob3))"

definition ReduceVolume :: "order_id \<Rightarrow> qty \<Rightarrow> orderbook \<Rightarrow> book_error option \<times> orderbook" where
  "ReduceVolume i newVolume ob =
     (if qty_IsZero newVolume then Cancel i ob
      else case obIndex ob i of
        None \<Rightarrow> (Some ErrCancelOrderFailed, ob)
      | Some n \<Rightarrow>
          if \<not> qty_Lt newVolume (oVolume (order_at ob n)) then (Some ErrModifyIncrease, ob)
          else
            let la = nLevel (nsNode (obNodes ob) n);
                ob1 = set_level la (reduceNode n newVolume (level_at la ob)) ob
            in (None, emitDelta (oSide (order_at ob1 n)) (level_price ob1 la)
                        (lvTotal (obLevels ob1 la)) ob1))"

section \<open>Counts\<close>

definition frontLevel :: "side \<Rightarrow> orderbook \<Rightarrow> laddr option" where
  "frontLevel sd ob =
     (if sd = BUY then hd_or (obBuy ob) None
      else if sd = SELL then hd_or (obSell ob) None
      else None)"

definition LevelCount :: "side \<Rightarrow> orderbook \<Rightarrow> int" where
  "LevelCount sd ob =
     (if sd = BUY then int (length (obBuy ob))
      else if sd = SELL then int (length (obSell ob))
      else 0)"

definition OrderCount :: "side \<Rightarrow> orderbook \<Rightarrow> int" where
  "OrderCount sd ob =
     (if sd = BUY then (\<Sum>la\<leftarrow>obBuy ob. list_Len (lvOrders (obLevels ob la)))
      else if sd = SELL then (\<Sum>la\<leftarrow>obSell ob. list_Len (lvOrders (obLevels ob la)))
      else 0)"

end
