(* ===== verification/Matching.thy ===== *)
theory Matching
  imports Orderbook "HOL-Library.Monad_Syntax"
begin

text \<open>
  \<^verbatim>\<open>models/orderbook.go\<close>, the matching loop. \<^verbatim>\<open>MatchTaker\<close> is two nested loops with
  no counter: the inner one (\<open>fill_level\<close>) consumes the queue of the front level,
  the outer one (\<open>match_levels\<close>) goes through the ladder. They are partial
  functions whose value \<open>None\<close> is not returning, or the nil dereference of
  \<^verbatim>\<open>reduceHead\<close>; that they do return is a theorem, not a premise.
\<close>

definition crosses :: "order \<Rightarrow> px \<Rightarrow> bool" where
  "crosses taker restingPrice =
     (if oSide taker = BUY then px_Gte (oPrice taker) restingPrice
      else if oSide taker = SELL then px_Lte (oPrice taker) restingPrice
      else False)"

definition makeMatch :: "order \<Rightarrow> order \<Rightarrow> px \<Rightarrow> qty \<Rightarrow> match" where
  "makeMatch taker resting price volume =
     (if oSide taker = BUY
      then \<lparr>mSeq = 0, mBuyId = oID taker, mSellId = oID resting, mMatchId = 0,
            mPrice = price, mVolume = volume\<rparr>
      else \<lparr>mSeq = 0, mBuyId = oID resting, mSellId = oID taker, mMatchId = 0,
            mPrice = price, mVolume = volume\<rparr>)"

text \<open>The level drops the node and the index forgets the order.\<close>

definition take_resting :: "naddr \<Rightarrow> laddr \<Rightarrow> orderbook \<Rightarrow> orderbook" where
  "take_resting n la ob =
     unindex_order (oID (order_at ob n)) (set_level la (removeNode n (level_at la ob)) ob)"

definition reduce_front :: "qty \<Rightarrow> laddr \<Rightarrow> orderbook \<Rightarrow> orderbook option" where
  "reduce_front fill la ob =
     map_option (\<lambda>es. set_level la es ob) (reduceHead fill (level_at la ob))"

text \<open>The result is the flag \<^verbatim>\<open>done\<close>, the taker's remainder and the book.\<close>

definition applySTP ::
  "stp_mode \<Rightarrow> qty \<Rightarrow> naddr \<Rightarrow> laddr \<Rightarrow> orderbook \<Rightarrow> (bool \<times> qty \<times> orderbook) option" where
  "applySTP mode remain n la ob =
     (let resting = order_at ob n in
      if mode = STPCancelTaker then Some (True, ZeroQty, ob)
      else if mode = STPCancelResting then Some (False, remain, take_resting n la ob)
      else if mode = STPCancelBoth then Some (True, ZeroQty, take_resting n la ob)
      else if mode = STPDecrement then
        (let fill = MinQty remain (oVolume resting); remain1 = qty_Sub remain fill in
         if qty_Eq fill (oVolume resting) then Some (False, remain1, take_resting n la ob)
         else map_option (\<lambda>ob1. (False, remain1, ob1)) (reduce_front fill la ob))
      else Some (True, ZeroQty, ob))"

partial_function (option) fill_level ::
  "order \<Rightarrow> bool \<Rightarrow> laddr \<Rightarrow> match list \<Rightarrow> qty \<Rightarrow> bool \<Rightarrow> orderbook
   \<Rightarrow> (match list \<times> qty \<times> bool \<times> orderbook) option" where
  [code]: "fill_level taker stpEnabled la matches remain levelChanged ob =
     (if \<not> qty_IsPositive remain then Some (matches, remain, levelChanged, ob)
      else case list_Head (lvOrders (obLevels ob la)) of
        None \<Rightarrow> Some (matches, remain, levelChanged, ob)
      | Some n \<Rightarrow>
          if stpEnabled \<and> oUserID (order_at ob n) = oUserID taker then
            do {
              (done, remain1, ob1) \<leftarrow> applySTP (oSTP taker) remain n la ob;
              let changed1 = (levelChanged \<or>
                \<not> qty_Eq (lvTotal (obLevels ob1 la)) (lvTotal (obLevels ob la)));
              if done then Some (matches, remain1, changed1, ob1)
              else fill_level taker stpEnabled la matches remain1 changed1 ob1
            }
          else
            (let resting = order_at ob n;
                 fill = MinQty remain (oVolume resting);
                 (sq, ob1) = NextSeq ob;
                 m = (makeMatch taker resting (level_price ob la) fill)\<lparr>mSeq := sq\<rparr>;
                 remain1 = qty_Sub remain fill in
             do {
               ob2 \<leftarrow> (if qty_Eq fill (oVolume resting) then Some (take_resting n la ob1)
                       else reduce_front fill la ob1);
               fill_level taker stpEnabled la (matches @ [m]) remain1 True ob2
             }))"

partial_function (option) match_levels ::
  "order \<Rightarrow> bool \<Rightarrow> bool \<Rightarrow> side \<Rightarrow> match list \<Rightarrow> qty \<Rightarrow> orderbook
   \<Rightarrow> (match list \<times> qty \<times> orderbook) option" where
  [code]: "match_levels taker alwaysCross stpEnabled oppositeSide matches remain ob =
     (if \<not> qty_IsPositive remain then Some (matches, remain, ob)
      else case frontLevel oppositeSide ob of
        None \<Rightarrow> Some (matches, remain, ob)
      | Some la \<Rightarrow>
          if \<not> alwaysCross \<and> \<not> crosses taker (level_price ob la) then Some (matches, remain, ob)
          else do {
            (matches1, remain1, levelChanged, ob1) \<leftarrow>
              fill_level taker stpEnabled la matches remain False ob;
            let levelEmpty = list_IsEmpty (lvOrders (obLevels ob1 la));
            let levelPrice = level_price ob1 la;
            let ob2 = (if levelEmpty then removeFrontLevel oppositeSide ob1 else ob1);
            let ob3 = (if levelChanged
                       then emitDelta oppositeSide levelPrice
                         (if levelEmpty then ZeroQty else lvTotal (obLevels ob2 la)) ob2
                       else ob2);
            match_levels taker alwaysCross stpEnabled oppositeSide matches1 remain1 ob3
          })"

definition MatchTaker :: "order \<Rightarrow> bool \<Rightarrow> orderbook \<Rightarrow> (match list \<times> qty \<times> orderbook) option" where
  [code]: "MatchTaker taker alwaysCross ob =
     (if oSide taker \<noteq> BUY \<and> oSide taker \<noteq> SELL then Some ([], oVolume taker, ob)
      else
        let oppositeSide = (if oSide taker = BUY then SELL else BUY);
            stpEnabled = (oUserID taker \<noteq> 0 \<and> oSTP taker \<noteq> STPNone)
        in match_levels taker alwaysCross stpEnabled oppositeSide [] (oVolume taker) ob)"

end
