(* ===== verification/Engine.thy ===== *)
theory Engine
  imports Matching
begin

text \<open>
  \<^verbatim>\<open>matchEngine/matchEngine.go\<close> and \<^verbatim>\<open>utils/utils.go\<close>: the order types, the times in
  force, cancel and modify, and the choice of the book a market starts from. An
  operation that runs the matching loop returns an option, \<open>None\<close> when the loop
  does not return. The value of \<^verbatim>\<open>SUPPORTED_SYMBOLS\<close> and the snapshot loaded from
  Redis are inputs.
\<close>

record result =
  rMatches :: "match list"
  rAccepted :: bool
  rReason :: string

definition RejectFOKUnfillable :: string where "RejectFOKUnfillable = ''fok_not_fully_fillable''"
definition RejectPostOnlyCrossed :: string where "RejectPostOnlyCrossed = ''post_only_would_cross''"
definition RejectInvalidOrder :: string where "RejectInvalidOrder = ''invalid_order''"
definition RejectUnsupportedType :: string where "RejectUnsupportedType = ''unsupported_order_type''"
definition RejectUnsupportedTIF :: string where "RejectUnsupportedTIF = ''unsupported_time_in_force''"
definition RejectModifyNotFound :: string where "RejectModifyNotFound = ''modify_order_not_found''"

definition rejected :: "string \<Rightarrow> result" where
  "rejected reason = \<lparr>rMatches = [], rAccepted = False, rReason = reason\<rparr>"

definition accepted :: "match list \<Rightarrow> result" where
  "accepted matches = \<lparr>rMatches = matches, rAccepted = True, rReason = ''''\<rparr>"

fun error_text :: "book_error \<Rightarrow> string" where
  "error_text ErrCancelOrderFailed = ''cancelling order failed''"
| "error_text ErrModifyIncrease = ''reduce: new volume must be smaller than resting''"

section \<open>Pre-checks\<close>

definition wouldCross :: "orderbook \<Rightarrow> order \<Rightarrow> bool" where
  "wouldCross ob taker =
     (if oSide taker = BUY then
        (case obSell ob of [] \<Rightarrow> False | front # _ \<Rightarrow> px_Gte (oPrice taker) (level_price ob front))
      else if oSide taker = SELL then
        (case obBuy ob of [] \<Rightarrow> False | front # _ \<Rightarrow> px_Lte (oPrice taker) (level_price ob front))
      else False)"

text \<open>
  The inner loop of \<^verbatim>\<open>canFullyFill\<close> follows \<^verbatim>\<open>Next\<close> from the head of a level; its
  value is whether the need was met, and the need left over.
\<close>

partial_function (option) scan_nodes :: "node_store \<Rightarrow> naddr option \<Rightarrow> qty \<Rightarrow> (bool \<times> qty) option" where
  [code]: "scan_nodes s n need =
     (case n of
        None \<Rightarrow> Some (False, need)
      | Some a \<Rightarrow>
          (let need1 = qty_Sub need (oVolume (node_order s a)) in
           if \<not> qty_IsPositive need1 then Some (True, need1)
           else scan_nodes s (nNext (nsNode s a)) need1))"

fun scan_levels :: "orderbook \<Rightarrow> (px \<Rightarrow> bool) \<Rightarrow> qty \<Rightarrow> laddr list \<Rightarrow> bool option" where
  "scan_levels ob crosses_price need [] = Some False"
| "scan_levels ob crosses_price need (la # book) =
     (if \<not> crosses_price (level_price ob la) then Some False
      else case scan_nodes (obNodes ob) (list_Head (lvOrders (obLevels ob la))) need of
        None \<Rightarrow> None
      | Some (met, need1) \<Rightarrow> if met then Some True else scan_levels ob crosses_price need1 book)"

definition canFullyFill :: "orderbook \<Rightarrow> order \<Rightarrow> bool option" where
  "canFullyFill ob taker =
     (if oSide taker = BUY then
        scan_levels ob (\<lambda>p. px_Gte (oPrice taker) p) (oVolume taker) (obSell ob)
      else if oSide taker = SELL then
        scan_levels ob (\<lambda>p. px_Lte (oPrice taker) p) (oVolume taker) (obBuy ob)
      else Some False)"

section \<open>Order types\<close>

definition handleLimitOrder :: "orderbook \<Rightarrow> order \<Rightarrow> (result \<times> orderbook) option" where
  "handleLimitOrder ob newOrder =
     (if oTIF newOrder = PostOnly \<and> wouldCross ob newOrder
      then Some (rejected RejectPostOnlyCrossed, ob)
      else do {
        fillable \<leftarrow> (if oTIF newOrder = FOK then canFullyFill ob newOrder else Some True);
        if \<not> fillable then Some (rejected RejectFOKUnfillable, ob)
        else do {
          (matches, remain, ob1) \<leftarrow> MatchTaker newOrder False ob;
          let ob2 = (if oTIF newOrder = IOC \<or> oTIF newOrder = FOK then ob1
                     else if qty_IsPositive remain
                          then snd (Add (newOrder\<lparr>oVolume := remain\<rparr>) ob1)
                          else ob1);
          Some (accepted matches, ob2)
        }
      })"

definition handleMarketOrder :: "orderbook \<Rightarrow> order \<Rightarrow> (result \<times> orderbook) option" where
  "handleMarketOrder ob newOrder =
     do {
       (matches, remain, ob1) \<leftarrow> MatchTaker newOrder True ob;
       Some (accepted matches, ob1)
     }"

definition handleStopLimitOrder :: "orderbook \<Rightarrow> order \<Rightarrow> (result \<times> orderbook) option" where
  "handleStopLimitOrder ob ord =
     (if IsTriggered ord ZeroPx then handleLimitOrder ob ord
      else Some (accepted [], AddConditionalOrder ord ob))"

definition MatchAndAddNewOrder :: "orderbook \<Rightarrow> order \<Rightarrow> (result \<times> orderbook) option" where
  "MatchAndAddNewOrder ob order0 =
     (let newOrder = Normalize order0 in
      if oType newOrder = LIMIT then handleLimitOrder ob newOrder
      else if oType newOrder = MARKET then handleMarketOrder ob newOrder
      else if oType newOrder = STOP_LIMIT then handleStopLimitOrder ob newOrder
      else Some (rejected (RejectUnsupportedType @ '': '' @ oType newOrder), ob))"

text \<open>
  The two ranges of \<^verbatim>\<open>HandleConditionalOrders\<close>: the outer one runs over the queue as
  it was at the start (Go evaluates the range expression once), the inner one over
  the matches just produced.
\<close>

fun promote_order :: "order \<Rightarrow> match list \<Rightarrow> orderbook \<Rightarrow> (match list \<times> orderbook) option" where
  "promote_order ord [] ob = Some ([], ob)"
| "promote_order ord (m # lastMatches) ob =
     (if IsTriggered ord (mPrice m) then
        do {
          (r, ob1) \<leftarrow> handleLimitOrder ob ord;
          (matches, ob2) \<leftarrow> promote_order ord lastMatches ob1;
          Some (rMatches r @ matches, ob2)
        }
      else promote_order ord lastMatches ob)"

fun promote_orders :: "order list \<Rightarrow> match list \<Rightarrow> orderbook \<Rightarrow> (match list \<times> orderbook) option" where
  "promote_orders [] lastMatches ob = Some ([], ob)"
| "promote_orders (ord # ords) lastMatches ob =
     do {
       (matches1, ob1) \<leftarrow> promote_order ord lastMatches ob;
       (matches2, ob2) \<leftarrow> promote_orders ords lastMatches ob1;
       Some (matches1 @ matches2, ob2)
     }"

definition HandleConditionalOrders :: "orderbook \<Rightarrow> match list \<Rightarrow> (match list \<times> orderbook) option" where
  "HandleConditionalOrders ob lastMatches = promote_orders (obConditional ob) lastMatches ob"

section \<open>Cancel and modify\<close>

definition CancelOrder :: "orderbook \<Rightarrow> order_id \<Rightarrow> book_error option \<times> orderbook" where
  "CancelOrder ob targetOrderID = Cancel targetOrderID ob"

definition ModifyOrder :: "orderbook \<Rightarrow> order_id \<Rightarrow> px \<Rightarrow> qty \<Rightarrow> (result \<times> orderbook) option" where
  "ModifyOrder ob orderID newPrice newVolume =
     (case LookupOrder orderID ob of
        None \<Rightarrow> Some (rejected RejectModifyNotFound, ob)
      | Some existing \<Rightarrow>
          if qty_IsZero newVolume then Some (accepted [], snd (Cancel orderID ob))
          else if px_Eq newPrice (oPrice existing) \<and> qty_Lt newVolume (oVolume existing) then
            (case ReduceVolume orderID newVolume ob of
               (Some e, ob1) \<Rightarrow> Some (rejected (error_text e), ob1)
             | (None, ob1) \<Rightarrow> Some (accepted [], ob1))
          else
            let fresh = existing\<lparr>oPrice := newPrice, oVolume := newVolume\<rparr> in
            (case Cancel orderID ob of
               (Some e, ob1) \<Rightarrow> Some (rejected (error_text e), ob1)
             | (None, ob1) \<Rightarrow> MatchAndAddNewOrder ob1 fresh))"

section \<open>The book a market starts from\<close>

definition Contains :: "string list \<Rightarrow> string \<Rightarrow> bool" where
  "Contains l target = list_ex (\<lambda>item. item = target) l"

text \<open>\<^verbatim>\<open>strings.Split\<close> with a one-byte separator.\<close>

fun Split_on :: "char \<Rightarrow> string \<Rightarrow> string list" where
  "Split_on c [] = ['''']"
| "Split_on c (x # xs) =
     (if x = c then '''' # Split_on c xs
      else case Split_on c xs of [] \<Rightarrow> [[x]] | w # ws \<Rightarrow> (x # w) # ws)"

datatype symbol_error = ErrNotValidSymbol

definition createOrderbook :: "string \<Rightarrow> string \<Rightarrow> symbol_error + orderbook" where
  "createOrderbook supportedSymbols symbol =
     (if Contains (Split_on CHR '','' supportedSymbols) symbol
      then Inr (NewOrderbook symbol) else Inl ErrNotValidSymbol)"

definition LoadOrFetchOrderbook :: "string \<Rightarrow> orderbook option \<Rightarrow> string \<Rightarrow> symbol_error + orderbook" where
  "LoadOrFetchOrderbook supportedSymbols loaded symbol =
     (case loaded of None \<Rightarrow> createOrderbook supportedSymbols symbol | Some ob \<Rightarrow> Inr ob)"

end
