(* ===== verification/PriceOrder.thy ===== *)
theory PriceOrder
  imports Fixed
begin

text \<open>
  Bids are sorted by falling price and asks by rising price, and the code runs
  the same binary searches on both. The shared part is a locale: a strict total
  order \<open>better\<close> on prices, with the lemmas on where \<^verbatim>\<open>sort.Search\<close> lands in a ladder
  sorted by it. It is interpreted for both directions.
\<close>

locale price_order =
  fixes better :: "'a \<Rightarrow> 'a \<Rightarrow> bool"
  assumes irrefl: "\<not> better a a"
    and trans: "better a b \<Longrightarrow> better b c \<Longrightarrow> better a c"
    and total: "a \<noteq> b \<Longrightarrow> better a b \<or> better b a"
begin

lemma asym: "better a b \<Longrightarrow> \<not> better b a"
  using irrefl trans by blast

lemma sorted_nth: "sorted_wrt better ps \<Longrightarrow> i < j \<Longrightarrow> j < length ps \<Longrightarrow> better (ps ! i) (ps ! j)"
  by (rule sorted_wrt_nth_less)

lemma sorted_distinct: "sorted_wrt better ps \<Longrightarrow> distinct ps"
  by (induction ps) (auto dest: irrefl [THEN notE])

text \<open>The insertion search returns the place that keeps the ladder sorted.\<close>

lemma search_insert:
  assumes s: "sorted_wrt better ps" and new: "p \<notin> set ps"
    and i: "i = sort_Search (length ps) (\<lambda>k. better p (ps ! k))"
  shows "sorted_wrt better (take i ps @ p # drop i ps)"
proof -
  have mono: "better p (ps ! b)" if "a \<le> b" "b < length ps" "better p (ps ! a)" for a b
    using that sorted_nth [OF s, of a b] trans by (cases "a = b") auto
  have le: "i \<le> length ps" using i sort_Search_le by simp
  have "better x p" if "x \<in> set (take i ps)" for x
  proof -
    from that obtain k where k: "k < i" "k < length ps" "x = ps ! k"
      by (auto simp: in_set_conv_nth)
    then have "\<not> better p x"
      using sort_Search_boundary(1) [of "length ps" "\<lambda>k. better p (ps ! k)" k] mono i by blast
    moreover have "x \<noteq> p" using new k by auto
    ultimately show ?thesis using total by blast
  qed
  moreover have "better p x" if "x \<in> set (drop i ps)" for x
  proof -
    from that obtain k where "k < length (drop i ps)" "x = drop i ps ! k"
      unfolding in_set_conv_nth by blast
    then have "i + k < length ps" "x = ps ! (i + k)" by auto
    then show ?thesis
      using sort_Search_boundary(2) [of "length ps" "\<lambda>k. better p (ps ! k)" "i + k"] mono i by simp
  qed
  moreover have "sorted_wrt better (take i ps @ drop i ps)" using s by simp
  ultimately show ?thesis
    unfolding sorted_wrt_append by auto
qed

text \<open>The removal search finds the level with the given price.\<close>

lemma search_remove:
  assumes s: "sorted_wrt better ps" and j: "j < length ps"
  shows "sort_Search (length ps) (\<lambda>k. \<not> better (ps ! k) (ps ! j)) = j"
proof (rule sort_Search_eqI)
  show "j \<le> length ps" using j by simp
  show "\<not> \<not> better (ps ! k) (ps ! j)" if "k < j" for k
    using sorted_nth [OF s that j] by simp
  show "\<not> better (ps ! k) (ps ! j)" if "j \<le> k" "k < length ps" for k
    using sorted_nth [OF s, of j k] that asym irrefl by (cases "j = k") auto
qed

lemma sorted_remove_nth: "sorted_wrt better ps \<Longrightarrow> sorted_wrt better (take i ps @ drop (Suc i) ps)"
proof -
  assume "sorted_wrt better ps"
  then have s: "sorted_wrt better (take i ps @ drop i ps)" by simp
  moreover have "set (drop (Suc i) ps) \<subseteq> set (drop i ps)"
    by (rule set_drop_subset_set_drop) simp
  moreover have "sorted_wrt better (drop (Suc i) ps)"
    using \<open>sorted_wrt better ps\<close> by (rule sorted_wrt_drop)
  ultimately show ?thesis unfolding sorted_wrt_append by blast
qed

text \<open>In a sorted ladder the front is the best: no later level beats it.\<close>

lemma front_best: "sorted_wrt better (p # ps) \<Longrightarrow> q \<in> set (p # ps) \<Longrightarrow> \<not> better q p"
  using asym irrefl by auto

end

definition better :: "bool \<Rightarrow> px \<Rightarrow> px \<Rightarrow> bool" where
  "better descending p q \<longleftrightarrow> (if descending then q < p else p < q)"

interpretation ladder: price_order "better d" for d
  by unfold_locales (auto simp: better_def split: if_splits)

end
