(* ===== verification/BookInv.thy ===== *)
theory BookInv
  imports Orderbook PriceOrder
begin

text \<open>
  The well-formedness of an order book: the internal invariants stated in
  \<^verbatim>\<open>models/orderbook.go\<close> and checked by its fuzz harness, as a predicate on the
  model, with the lemmas that each primitive change of the book keeps it.
  Proofs use a ghost map \<open>G\<close> from a level's address to its queue; the public
  predicates read the queue off the store.
\<close>

section \<open>Field frames\<close>

lemma emitDelta_sel [frame_simps]:
  "obBuy (emitDelta sd p q ob) = obBuy ob" "obSell (emitDelta sd p q ob) = obSell ob"
  "obConditional (emitDelta sd p q ob) = obConditional ob" "obBid (emitDelta sd p q ob) = obBid ob"
  "obAsk (emitDelta sd p q ob) = obAsk ob" "obIndex (emitDelta sd p q ob) = obIndex ob"
  "obL2 (emitDelta sd p q ob) = obL2 ob" "obNodes (emitDelta sd p q ob) = obNodes ob"
  "obLevels (emitDelta sd p q ob) = obLevels ob" "obLevelFree (emitDelta sd p q ob) = obLevelFree ob"
  "obSymbol (emitDelta sd p q ob) = obSymbol ob"
  by (simp_all add: emitDelta_def NextSeq_def Let_def)

lemma emitDelta_derived [frame_simps]:
  "book_of d (emitDelta sd p q ob) = book_of d ob" "by_price d (emitDelta sd p q ob) = by_price d ob"
  "level_price (emitDelta sd p q ob) la = level_price ob la" "order_at (emitDelta sd p q ob) n = order_at ob n"
  by (simp_all add: book_of_def by_price_def level_price_def order_at_def frame_simps)

lemma set_level_sel [frame_simps]:
  "obBuy (set_level la es ob) = obBuy ob" "obSell (set_level la es ob) = obSell ob"
  "obConditional (set_level la es ob) = obConditional ob" "obBid (set_level la es ob) = obBid ob"
  "obAsk (set_level la es ob) = obAsk ob" "obIndex (set_level la es ob) = obIndex ob"
  "obL2 (set_level la es ob) = obL2 ob" "obNodes (set_level la es ob) = snd es"
  "obLevels (set_level la es ob) = (obLevels ob)(la := fst es)"
  "obLevelFree (set_level la es ob) = obLevelFree ob" "obSymbol (set_level la es ob) = obSymbol ob"
  "obSeq (set_level la es ob) = obSeq ob" "obDeltas (set_level la es ob) = obDeltas ob"
  "book_of d (set_level la es ob) = book_of d ob" "by_price d (set_level la es ob) = by_price d ob"
  by (simp_all add: set_level_def book_of_def by_price_def)

lemma index_sel [frame_simps]:
  "obBuy (index_order i n ob) = obBuy ob" "obSell (index_order i n ob) = obSell ob"
  "obConditional (index_order i n ob) = obConditional ob"
  "obBid (index_order i n ob) = obBid ob" "obAsk (index_order i n ob) = obAsk ob"
  "obIndex (index_order i n ob) = (obIndex ob)(i := Some n)"
  "obL2 (index_order i n ob) = obL2 ob" "obNodes (index_order i n ob) = obNodes ob"
  "obLevels (index_order i n ob) = obLevels ob" "obLevelFree (index_order i n ob) = obLevelFree ob"
  "obSymbol (index_order i n ob) = obSymbol ob" "obSeq (index_order i n ob) = obSeq ob"
  "obDeltas (index_order i n ob) = obDeltas ob" "book_of d (index_order i n ob) = book_of d ob"
  "by_price d (index_order i n ob) = by_price d ob" "level_price (index_order i n ob) la = level_price ob la"
  by (simp_all add: index_order_def book_of_def by_price_def level_price_def)

lemma unindex_sel [frame_simps]:
  "obBuy (unindex_order i ob) = obBuy ob" "obSell (unindex_order i ob) = obSell ob"
  "obConditional (unindex_order i ob) = obConditional ob"
  "obBid (unindex_order i ob) = obBid ob" "obAsk (unindex_order i ob) = obAsk ob"
  "obIndex (unindex_order i ob) = (obIndex ob)(i := None)"
  "obL2 (unindex_order i ob) = obL2 ob" "obNodes (unindex_order i ob) = obNodes ob"
  "obLevels (unindex_order i ob) = obLevels ob" "obLevelFree (unindex_order i ob) = obLevelFree ob"
  "obSymbol (unindex_order i ob) = obSymbol ob" "obSeq (unindex_order i ob) = obSeq ob"
  "obDeltas (unindex_order i ob) = obDeltas ob" "book_of d (unindex_order i ob) = book_of d ob"
  "by_price d (unindex_order i ob) = by_price d ob" "level_price (unindex_order i ob) la = level_price ob la"
  by (simp_all add: unindex_order_def book_of_def by_price_def level_price_def)

lemma set_book_sel [frame_simps]:
  "obConditional (set_book d b ob) = obConditional ob" "obIndex (set_book d b ob) = obIndex ob"
  "obL2 (set_book d b ob) = obL2 ob" "obNodes (set_book d b ob) = obNodes ob"
  "obLevels (set_book d b ob) = obLevels ob" "obLevelFree (set_book d b ob) = obLevelFree ob"
  "obSymbol (set_book d b ob) = obSymbol ob" "obSeq (set_book d b ob) = obSeq ob"
  "obDeltas (set_book d b ob) = obDeltas ob"
  "book_of d' (set_book d b ob) = (if d' = d then b else book_of d' ob)"
  "by_price d' (set_book d b ob) = by_price d' ob" "level_price (set_book d b ob) la = level_price ob la"
  by (simp_all add: set_book_def book_of_def by_price_def level_price_def)

lemma set_by_price_sel [frame_simps]:
  "obBuy (set_by_price d p v ob) = obBuy ob" "obSell (set_by_price d p v ob) = obSell ob"
  "obConditional (set_by_price d p v ob) = obConditional ob"
  "obIndex (set_by_price d p v ob) = obIndex ob"
  "obL2 (set_by_price d p v ob) = obL2 ob" "obNodes (set_by_price d p v ob) = obNodes ob"
  "obLevels (set_by_price d p v ob) = obLevels ob" "obLevelFree (set_by_price d p v ob) = obLevelFree ob"
  "obSymbol (set_by_price d p v ob) = obSymbol ob" "obSeq (set_by_price d p v ob) = obSeq ob"
  "obDeltas (set_by_price d p v ob) = obDeltas ob" "book_of d' (set_by_price d p v ob) = book_of d' ob"
  "by_price d' (set_by_price d p v ob) =
     (if d' = d then (by_price d' ob)(p := v) else by_price d' ob)"
  "level_price (set_by_price d p v ob) la = level_price ob la"
  by (simp_all add: set_by_price_def book_of_def by_price_def level_price_def)

lemma level_free_frame [frame_simps]:
  "book_of d (ob\<lparr>obLevelFree := k\<rparr>) = book_of d ob"
  "by_price d (ob\<lparr>obLevelFree := k\<rparr>) = by_price d ob"
  "level_price (ob\<lparr>obLevelFree := k\<rparr>) la = level_price ob la"
  by (simp_all add: book_of_def by_price_def level_price_def)

section \<open>Ladders\<close>

definition side_of :: "bool \<Rightarrow> side" where
  "side_of descending = (if descending then BUY else SELL)"

lemma side_of_eq [simp]:
  "side_of d = BUY \<longleftrightarrow> d" "side_of d = SELL \<longleftrightarrow> \<not> d" "side_of d = side_of d' \<longleftrightarrow> d = d'"
  "side_of True = BUY" "side_of False = SELL"
  by (simp_all add: side_of_def)

text \<open>
  One ladder with its price map: sorted best first, indexed exactly by the prices
  present, every level allocated and representing its queue, every order on the
  right side and at the level's price.
\<close>

definition ladder_ok ::
  "(laddr \<Rightarrow> level) \<Rightarrow> laddr \<Rightarrow> node_store \<Rightarrow> (laddr \<Rightarrow> naddr list) \<Rightarrow> bool \<Rightarrow> laddr list
   \<Rightarrow> (px \<Rightarrow> laddr option) \<Rightarrow> bool" where
  "ladder_ok L fr s G d b m \<longleftrightarrow>
     sorted_wrt (better d) (map (\<lambda>la. lvPrice (L la)) b) \<and>
     (\<forall>p la. m p = Some la \<longleftrightarrow> la \<in> set b \<and> lvPrice (L la) = p) \<and>
     (\<forall>la \<in> set b. la < fr \<and> level_rep la s (L la) (G la) \<and>
        (\<forall>n \<in> set (G la). oSide (node_order s n) = side_of d \<and>
           oPrice (node_order s n) = lvPrice (L la)))"

definition ladder_inv :: "orderbook \<Rightarrow> (laddr \<Rightarrow> naddr list) \<Rightarrow> bool \<Rightarrow> bool" where
  "ladder_inv ob G d =
     ladder_ok (obLevels ob) (obLevelFree ob) (obNodes ob) G d (book_of d ob) (by_price d ob)"

definition levels_of :: "orderbook \<Rightarrow> laddr set" where
  "levels_of ob = set (obBuy ob) \<union> set (obSell ob)"

definition index_ok :: "orderbook \<Rightarrow> (laddr \<Rightarrow> naddr list) \<Rightarrow> bool" where
  "index_ok ob G \<longleftrightarrow>
     (\<forall>i n. obIndex ob i = Some n \<longrightarrow>
        oID (order_at ob n) = i \<and> (\<exists>la \<in> levels_of ob. n \<in> set (G la)))"

definition wf_ghost :: "orderbook \<Rightarrow> (laddr \<Rightarrow> naddr list) \<Rightarrow> bool" where
  "wf_ghost ob G \<longleftrightarrow>
     (\<forall>d. ladder_inv ob G d) \<and> set (obBuy ob) \<inter> set (obSell ob) = {} \<and> index_ok ob G"

section \<open>The public predicates\<close>

definition level_nodes :: "orderbook \<Rightarrow> laddr \<Rightarrow> naddr list" where
  "level_nodes ob la = list_nodes (obNodes ob) (lvOrders (obLevels ob la))"

definition level_orders :: "orderbook \<Rightarrow> laddr \<Rightarrow> order list" where
  "level_orders ob la = orders_of (obNodes ob) (level_nodes ob la)"

text \<open>
  \<open>book_wf\<close>: both ladders are well formed, no level is empty, and an index entry
  points to a resting node with that ID. \<open>book_indexed\<close>: every resting node is
  the index entry of its ID, so IDs are unique. \<open>book_positive\<close>: every resting
  volume is positive.
\<close>

definition book_wf :: "orderbook \<Rightarrow> bool" where
  "book_wf ob \<longleftrightarrow> wf_ghost ob (level_nodes ob) \<and> (\<forall>la \<in> levels_of ob. level_nodes ob la \<noteq> [])"

definition book_indexed :: "orderbook \<Rightarrow> bool" where
  "book_indexed ob \<longleftrightarrow>
     (\<forall>la \<in> levels_of ob. \<forall>n \<in> set (level_nodes ob la). obIndex ob (oID (order_at ob n)) = Some n)"

definition book_positive :: "orderbook \<Rightarrow> bool" where
  "book_positive ob \<longleftrightarrow> (\<forall>la \<in> levels_of ob. \<forall>ord \<in> set (level_orders ob la). 0 < oVolume ord)"

lemma levels_of_book: "levels_of ob = (\<Union>d. set (book_of d ob))"
  by (auto simp: levels_of_def book_of_def split: if_splits)

lemma levels_of_two: "levels_of ob = set (book_of d ob) \<union> set (book_of (\<not> d) ob)"
  by (cases d) (auto simp: levels_of_def book_of_def)

lemma levels_of_in: "la \<in> set (book_of d ob) \<Longrightarrow> la \<in> levels_of ob"
  by (auto simp: levels_of_book)

lemma ladder_ok_level:
  "ladder_ok L fr s G d b m \<Longrightarrow> la \<in> set b \<Longrightarrow> la < fr"
  "ladder_ok L fr s G d b m \<Longrightarrow> la \<in> set b \<Longrightarrow> level_rep la s (L la) (G la)"
  "ladder_ok L fr s G d b m \<Longrightarrow> la \<in> set b \<Longrightarrow> n \<in> set (G la) \<Longrightarrow> oSide (node_order s n) = side_of d"
  "ladder_ok L fr s G d b m \<Longrightarrow> la \<in> set b \<Longrightarrow> n \<in> set (G la) \<Longrightarrow> oPrice (node_order s n) = lvPrice (L la)"
  "ladder_ok L fr s G d b m \<Longrightarrow> m p = Some la \<longleftrightarrow> la \<in> set b \<and> lvPrice (L la) = p"
  "ladder_ok L fr s G d b m \<Longrightarrow> sorted_wrt (better d) (map (\<lambda>la. lvPrice (L la)) b)"
  by (auto simp: ladder_ok_def)

lemma level_rep_node: "level_rep la s e xs \<Longrightarrow> n \<in> set xs \<Longrightarrow> nLevel (nsNode s n) = la \<and> n < nsFree s"
  by (auto simp: level_rep_def list_rep_def)

lemma level_rep_distinct: "level_rep la s e xs \<Longrightarrow> distinct xs"
  by (simp add: level_rep_def list_rep_def)

lemma ladder_ok_cong:
  assumes "\<And>la. la \<in> set b \<Longrightarrow> G la = G' la"
  shows "ladder_ok L fr s G d b m = ladder_ok L fr s G' d b m"
  using assms by (simp add: ladder_ok_def)

lemma wf_ghost_ladder: "wf_ghost ob G \<Longrightarrow> ladder_inv ob G d"
  by (simp add: wf_ghost_def)

lemma wf_ghost_nodes:
  assumes "wf_ghost ob G" and "la \<in> levels_of ob"
  shows "level_nodes ob la = G la" and "level_rep la (obNodes ob) (obLevels ob la) (G la)"
proof -
  from assms obtain d where "la \<in> set (book_of d ob)" "ladder_inv ob G d"
    by (auto simp: levels_of_book wf_ghost_def)
  then show r: "level_rep la (obNodes ob) (obLevels ob la) (G la)"
    by (auto simp: ladder_inv_def dest: ladder_ok_level(2))
  show "level_nodes ob la = G la"
    using r by (auto simp: level_nodes_def level_rep_def dest: list_rep_nodes)
qed

lemma wf_ghost_cong:
  assumes "\<And>la. la \<in> levels_of ob \<Longrightarrow> G la = G' la"
  shows "wf_ghost ob G = wf_ghost ob G'"
proof -
  have "ladder_inv ob G d = ladder_inv ob G' d" for d
    unfolding ladder_inv_def using assms by (intro ladder_ok_cong) (auto dest: levels_of_in)
  moreover have "index_ok ob G = index_ok ob G'"
    using assms by (auto simp: index_ok_def)
  ultimately show ?thesis by (simp add: wf_ghost_def)
qed

lemma book_wf_ghost: "book_wf ob \<Longrightarrow> wf_ghost ob (level_nodes ob)"
  by (simp add: book_wf_def)

text \<open>To show a book well formed, any ghost map will do.\<close>

lemma book_wfI:
  assumes "wf_ghost ob G" and "\<And>la. la \<in> levels_of ob \<Longrightarrow> G la \<noteq> []"
  shows "book_wf ob"
proof -
  have "G la = level_nodes ob la" if "la \<in> levels_of ob" for la
    using wf_ghost_nodes(1) [OF assms(1) that] by simp
  then show ?thesis
    using assms wf_ghost_cong [of ob G "level_nodes ob"] by (auto simp: book_wf_def)
qed

section \<open>Changing one level\<close>

lemma ladder_ok_set_level:
  assumes ok: "ladder_ok L fr s G d b m" and "fr \<le> fr'" and free: "nsFree s \<le> nsFree s'"
    and same: "\<And>x. x < nsFree s \<Longrightarrow> nLevel (nsNode s x) \<noteq> la \<Longrightarrow> nsNode s' x = nsNode s x"
    and mine: "la \<in> set b \<Longrightarrow> lvPrice e' = lvPrice (L la) \<and> level_rep la s' e' xs' \<and>
      (\<forall>n \<in> set xs'. oSide (node_order s' n) = side_of d \<and> oPrice (node_order s' n) = lvPrice e')"
  shows "ladder_ok (L(la := e')) fr' s' (G(la := xs')) d b m"
proof -
  have price: "lvPrice ((L(la := e')) lb) = lvPrice (L lb)" if "lb \<in> set b" for lb
    using that mine by auto
  have other: "level_rep lb s' (L lb) (G lb) \<and> (\<forall>n \<in> set (G lb). node_order s' n = node_order s n)"
    if lb: "lb \<in> set b" "lb \<noteq> la" for lb
  proof -
    note r = ladder_ok_level(2) [OF ok lb(1)]
    have eq: "nsNode s' x = nsNode s x" if "x \<in> set (G lb)" for x
      using level_rep_node [OF r that] lb(2) by (intro same) auto
    from level_rep_frame(1) [OF r free eq] eq show ?thesis by (simp add: node_order_def)
  qed
  have m: "map (\<lambda>la'. lvPrice ((L(la := e')) la')) b = map (\<lambda>la. lvPrice (L la)) b"
    using price by (intro map_cong) auto
  have mp: "m p = Some lb \<longleftrightarrow> lb \<in> set b \<and> lvPrice ((L(la := e')) lb) = p" for p lb
    using ladder_ok_level(5) [OF ok, of p lb] price [of lb] by auto
  have lv: "lb < fr' \<and> level_rep lb s' ((L(la := e')) lb) ((G(la := xs')) lb) \<and>
      (\<forall>n \<in> set ((G(la := xs')) lb). oSide (node_order s' n) = side_of d \<and>
         oPrice (node_order s' n) = lvPrice ((L(la := e')) lb))" if "lb \<in> set b" for lb
  proof (cases "lb = la")
    case True
    then show ?thesis using mine that ladder_ok_level(1) [OF ok that] \<open>fr \<le> fr'\<close> by simp
  next
    case False
    then show ?thesis
      using other [OF that False] ladder_ok_level(1,3,4) [OF ok that] \<open>fr \<le> fr'\<close> by simp
  qed
  show ?thesis
    using ladder_ok_level(6) [OF ok] mp lv unfolding ladder_ok_def m by blast
qed

text \<open>The same for the whole book, up to its order index.\<close>

lemma wf_ghost_set_level:
  assumes wf: "wf_ghost ob G" and la: "la \<in> set (book_of d ob)"
    and e': "lvPrice e' = level_price ob la" and free: "nsFree (obNodes ob) \<le> nsFree s'"
    and same: "\<And>x. x < nsFree (obNodes ob) \<Longrightarrow> nLevel (nsNode (obNodes ob) x) \<noteq> la
      \<Longrightarrow> nsNode s' x = nsNode (obNodes ob) x"
    and rep: "level_rep la s' e' xs'"
    and items: "\<And>n. n \<in> set xs' \<Longrightarrow>
      oSide (node_order s' n) = side_of d \<and> oPrice (node_order s' n) = level_price ob la"
    and ob': "obLevels ob' = (obLevels ob)(la := e')" "obNodes ob' = s'"
      "obBuy ob' = obBuy ob" "obSell ob' = obSell ob" "obBid ob' = obBid ob" "obAsk ob' = obAsk ob"
      "obLevelFree ob' = obLevelFree ob"
    and idx: "index_ok ob' (G(la := xs'))"
  shows "wf_ghost ob' (G(la := xs'))"
proof -
  have bk: "book_of d' ob' = book_of d' ob" "by_price d' ob' = by_price d' ob" for d'
    using ob' by (simp_all add: book_of_def by_price_def)
  have side: "d' = d" if "la \<in> set (book_of d' ob)" for d'
    using that la wf by (auto simp: wf_ghost_def book_of_def split: if_splits)
  have "ladder_inv ob' (G(la := xs')) d'" for d'
    unfolding ladder_inv_def ob' bk
    using wf_ghost_ladder [OF wf, of d'] unfolding ladder_inv_def
    by (rule ladder_ok_set_level [where e' = e' and xs' = xs', OF _ order_refl free same])
      (use side rep items e' in \<open>auto simp: level_price_def\<close>)
  then show ?thesis using wf ob' idx by (simp add: wf_ghost_def)
qed

section \<open>The two primitive changes: unlinking a node, changing a volume\<close>

definition unlink :: "laddr \<Rightarrow> naddr \<Rightarrow> orderbook \<Rightarrow> orderbook" where
  "unlink la n ob =
     unindex_order (oID (order_at ob n)) (set_level la (removeNode n (level_at la ob)) ob)"

definition revolume :: "laddr \<Rightarrow> naddr \<Rightarrow> qty \<Rightarrow> orderbook \<Rightarrow> orderbook" where
  "revolume la n v ob = set_level la (reduceNode n v (level_at la ob)) ob"

lemma unlink_frame [frame_simps]:
  "obBuy (unlink la n ob) = obBuy ob" "obSell (unlink la n ob) = obSell ob"
  "obConditional (unlink la n ob) = obConditional ob" "obBid (unlink la n ob) = obBid ob"
  "obAsk (unlink la n ob) = obAsk ob" "obL2 (unlink la n ob) = obL2 ob"
  "obLevelFree (unlink la n ob) = obLevelFree ob" "obSymbol (unlink la n ob) = obSymbol ob"
  "obSeq (unlink la n ob) = obSeq ob" "obDeltas (unlink la n ob) = obDeltas ob"
  "book_of d (unlink la n ob) = book_of d ob" "by_price d (unlink la n ob) = by_price d ob"
  "obIndex (unlink la n ob) = (obIndex ob)(oID (order_at ob n) := None)"
  "lb \<noteq> la \<Longrightarrow> obLevels (unlink la n ob) lb = obLevels ob lb"
  by (simp_all add: unlink_def frame_simps)

lemma revolume_frame [frame_simps]:
  "obBuy (revolume la n v ob) = obBuy ob" "obSell (revolume la n v ob) = obSell ob"
  "obConditional (revolume la n v ob) = obConditional ob" "obBid (revolume la n v ob) = obBid ob"
  "obAsk (revolume la n v ob) = obAsk ob" "obL2 (revolume la n v ob) = obL2 ob"
  "obLevelFree (revolume la n v ob) = obLevelFree ob" "obSymbol (revolume la n v ob) = obSymbol ob"
  "obSeq (revolume la n v ob) = obSeq ob" "obDeltas (revolume la n v ob) = obDeltas ob"
  "book_of d (revolume la n v ob) = book_of d ob" "by_price d (revolume la n v ob) = by_price d ob"
  "obIndex (revolume la n v ob) = obIndex ob"
  "lb \<noteq> la \<Longrightarrow> obLevels (revolume la n v ob) lb = obLevels ob lb"
  by (simp_all add: revolume_def frame_simps)

lemma unlink_contract:
  assumes wf: "wf_ghost ob G" and la: "la \<in> set (book_of d ob)" and G: "G la = as @ n # bs"
  shows "wf_ghost (unlink la n ob) (G(la := as @ bs))"
    and "order_at (unlink la n ob) x = order_at ob x"
    and "level_price (unlink la n ob) lb = level_price ob lb"
    and "level_rep la (obNodes (unlink la n ob)) (obLevels (unlink la n ob) la) (as @ bs)"
    and "lvTotal (obLevels (unlink la n ob) la) = lvTotal (obLevels ob la) - oVolume (order_at ob n)"
proof -
  have r: "level_rep la (obNodes ob) (obLevels ob la) (as @ n # bs)"
    using wf_ghost_nodes(2) [OF wf levels_of_in [OF la]] G by simp
  obtain e' s' where rm: "removeNode n (obLevels ob la, obNodes ob) = (e', s')" by fastforce
  note c = removeNode_contract [OF r rm]
  have u: "obNodes (unlink la n ob) = s'" "obLevels (unlink la n ob) = (obLevels ob)(la := e')"
    using rm by (simp_all add: unlink_def frame_simps level_at_def)
  show o: "order_at (unlink la n ob) x = order_at ob x" for x
    using c(4) u by (simp add: order_at_def)
  show "level_price (unlink la n ob) lb = level_price ob lb"
    using c(2) u by (simp add: level_price_def)
  show "level_rep la (obNodes (unlink la n ob)) (obLevels (unlink la n ob) la) (as @ bs)"
    "lvTotal (obLevels (unlink la n ob) la) = lvTotal (obLevels ob la) - oVolume (order_at ob n)"
    using c(1,7) u by (simp_all add: order_at_def)
  have same: "nsNode s' x = nsNode (obNodes ob) x" if "nLevel (nsNode (obNodes ob) x) \<noteq> la" for x
    using c(6) that level_rep_node [OF r] by (auto simp: same_except_def)
  have items: "oSide (node_order s' x) = side_of d \<and> oPrice (node_order s' x) = level_price ob la"
    if "x \<in> set (as @ bs)" for x
    using that c(4) G ladder_ok_level(3,4) [OF wf_ghost_ladder [OF wf, of d, unfolded ladder_inv_def] la, of x]
    by (auto simp: level_price_def)
  have "index_ok (unlink la n ob) (G(la := as @ bs))"
    unfolding index_ok_def
  proof (intro allI impI)
    fix i x
    assume "obIndex (unlink la n ob) i = Some x"
    then have "i \<noteq> oID (order_at ob n)" "obIndex ob i = Some x"
      by (auto simp: frame_simps split: if_splits)
    then obtain lb where "oID (order_at ob x) = i" "x \<noteq> n" "lb \<in> levels_of ob" "x \<in> set (G lb)"
      using wf unfolding wf_ghost_def index_ok_def by metis
    then show "oID (order_at (unlink la n ob) x) = i \<and>
        (\<exists>la' \<in> levels_of (unlink la n ob). x \<in> set ((G(la := as @ bs)) la'))"
      using G o by (intro conjI bexI [of _ lb]) (auto simp: levels_of_def frame_simps)
  qed
  then show "wf_ghost (unlink la n ob) (G(la := as @ bs))"
    using c(2,3) same c(1) items u
    by (intro wf_ghost_set_level [OF wf la, of e' s' _ "unlink la n ob"])
      (simp_all add: frame_simps level_price_def)
qed

lemma revolume_contract:
  assumes wf: "wf_ghost ob G" and la: "la \<in> set (book_of d ob)" and G: "G la = as @ n # bs"
  shows "wf_ghost (revolume la n v ob) G"
    and "order_at (revolume la n v ob) x =
      (if x = n then (order_at ob n)\<lparr>oVolume := v\<rparr> else order_at ob x)"
    and "level_price (revolume la n v ob) lb = level_price ob lb"
    and "lvTotal (obLevels (revolume la n v ob) la) =
      lvTotal (obLevels ob la) - (oVolume (order_at ob n) - v)"
    and "nLevel (nsNode (obNodes (revolume la n v ob)) x) = nLevel (nsNode (obNodes ob) x)"
proof -
  let ?e = "obLevels ob la" and ?s = "obNodes ob"
  have r: "level_rep la ?s ?e (as @ n # bs)"
    using wf_ghost_nodes(2) [OF wf levels_of_in [OF la]] G by simp
  define e' where "e' = ?e\<lparr>lvTotal := lvTotal ?e - (oVolume (node_order ?s n) - v)\<rparr>"
  have u: "obNodes (revolume la n v ob) = set_volume n v ?s"
    "obLevels (revolume la n v ob) = (obLevels ob)(la := e')"
    by (simp_all add: revolume_def frame_simps level_at_def reduceNode_def Let_def px_qty_simps e'_def)
  note c = set_volume_contract [OF r e'_def]
  show o: "order_at (revolume la n v ob) x =
      (if x = n then (order_at ob n)\<lparr>oVolume := v\<rparr> else order_at ob x)" for x
    using u by (simp add: order_at_def frame_simps)
  show "level_price (revolume la n v ob) lb = level_price ob lb"
    "lvTotal (obLevels (revolume la n v ob) la) =
      lvTotal (obLevels ob la) - (oVolume (order_at ob n) - v)"
    "nLevel (nsNode (obNodes (revolume la n v ob)) x) = nLevel (nsNode (obNodes ob) x)"
    using u by (simp_all add: level_price_def order_at_def frame_simps e'_def)
  have same: "nsNode (set_volume n v ?s) x = nsNode ?s x" if "nLevel (nsNode ?s x) \<noteq> la" for x
    using that level_rep_node [OF r, of n] by (cases "x = n") (auto simp: frame_simps)
  have items: "oSide (node_order (set_volume n v ?s) x) = side_of d \<and>
      oPrice (node_order (set_volume n v ?s) x) = level_price ob la"
    if "x \<in> set (as @ n # bs)" for x
    using that G ladder_ok_level(3,4) [OF wf_ghost_ladder [OF wf, of d, unfolded ladder_inv_def] la, of x]
    by (auto simp: level_price_def frame_simps)
  have GG: "G(la := as @ n # bs) = G" using G by auto
  have "index_ok (revolume la n v ob) (G(la := as @ n # bs))"
    using wf o unfolding GG wf_ghost_def index_ok_def by (auto simp: levels_of_def frame_simps)
  then have "wf_ghost (revolume la n v ob) (G(la := as @ n # bs))"
    using same c(1) items u
    by (intro wf_ghost_set_level [OF wf la, of e' "set_volume n v ?s" _ "revolume la n v ob"])
      (simp_all add: frame_simps level_price_def e'_def)
  then show "wf_ghost (revolume la n v ob) G" unfolding GG .
qed

section \<open>Removing an empty level\<close>

lemma book_split: "la \<in> set (book_of d ob) \<Longrightarrow> \<exists>b1 b2. book_of d ob = b1 @ la # b2"
  by (rule split_list)

lemma level_price_fun: "level_price ob = (\<lambda>la. lvPrice (obLevels ob la))"
  by (auto simp: level_price_def)

lemma ladder_sorted:
  assumes "ladder_inv ob G d"
  shows "sorted_wrt (better d) (map (level_price ob) (book_of d ob))"
proof -
  have eq: "map (level_price ob) (book_of d ob) = map (\<lambda>la. lvPrice (obLevels ob la)) (book_of d ob)"
    by (simp add: level_price_def)
  show ?thesis unfolding eq using ladder_ok_level(6) [OF assms [unfolded ladder_inv_def]] .
qed

lemma ladder_distinct:
  assumes "ladder_inv ob G d"
  shows "distinct (book_of d ob)" and "distinct (map (level_price ob) (book_of d ob))"
proof -
  show "distinct (map (level_price ob) (book_of d ob))"
    by (rule ladder.sorted_distinct) (rule ladder_sorted [OF assms])
  then show "distinct (book_of d ob)" by (simp add: distinct_map)
qed

lemma ladder_by_price:
  "ladder_inv ob G d \<Longrightarrow> by_price d ob p = Some la \<longleftrightarrow> la \<in> set (book_of d ob) \<and> level_price ob la = p"
  unfolding ladder_inv_def level_price_def by (rule ladder_ok_level(5))

definition drop_level :: "bool \<Rightarrow> laddr \<Rightarrow> laddr list \<Rightarrow> orderbook \<Rightarrow> orderbook" where
  "drop_level d la b ob = set_book d b (set_by_price d (level_price ob la) None ob)"

lemma drop_level_frame [frame_simps]:
  "obIndex (drop_level d la b ob) = obIndex ob" "obNodes (drop_level d la b ob) = obNodes ob"
  "obLevels (drop_level d la b ob) = obLevels ob" "obL2 (drop_level d la b ob) = obL2 ob"
  "obSeq (drop_level d la b ob) = obSeq ob" "obDeltas (drop_level d la b ob) = obDeltas ob"
  "obSymbol (drop_level d la b ob) = obSymbol ob" "obConditional (drop_level d la b ob) = obConditional ob"
  "obLevelFree (drop_level d la b ob) = obLevelFree ob"
  "book_of d' (drop_level d la b ob) = (if d' = d then b else book_of d' ob)"
  "by_price d' (drop_level d la b ob) =
     (if d' = d then (by_price d' ob)(level_price ob la := None) else by_price d' ob)"
  "level_price (drop_level d la b ob) lb = level_price ob lb"
  "order_at (drop_level d la b ob) n = order_at ob n"
  by (simp_all add: drop_level_def frame_simps order_at_def)

lemma removeLevel_eq:
  assumes inv: "ladder_inv ob G d" and b: "book_of d ob = b1 @ la # b2"
  shows "removeLevel d la ob = drop_level d la (b1 @ b2) ob"
proof -
  let ?ob1 = "set_by_price d (level_price ob la) None ob"
  let ?ps = "map (level_price ob) (book_of d ob)"
  have search: "(\<lambda>i. if d then px_Lte (level_price ?ob1 (book_of d ?ob1 ! i)) (level_price ?ob1 la)
      else px_Gte (level_price ?ob1 (book_of d ?ob1 ! i)) (level_price ?ob1 la)) =
    (\<lambda>i. \<not> better d (level_price ob (book_of d ob ! i)) (level_price ob la))"
    by (auto simp: frame_simps px_qty_simps better_def)
  have "remove_index d la ?ob1 =
      sort_Search (length ?ps) (\<lambda>i. \<not> better d (level_price ob (book_of d ob ! i)) (level_price ob la))"
    unfolding remove_index_def search by (simp add: frame_simps)
  also have "\<dots> = sort_Search (length ?ps) (\<lambda>i. \<not> better d (?ps ! i) (?ps ! length b1))"
  proof -
    have "?ps ! length b1 = level_price ob la" by (simp add: b nth_append)
    then show ?thesis by (intro sort_Search_cong) (simp only: length_map nth_map)
  qed
  also have "\<dots> = length b1"
    by (rule ladder.search_remove [OF ladder_sorted [OF inv]]) (simp add: b)
  finally show ?thesis
    by (simp add: removeLevel_def Let_def frame_simps b drop_level_def)
qed

lemma removeFrontLevel_eq:
  "book_of d ob = la # b2 \<Longrightarrow> removeFrontLevel (side_of d) ob = drop_level d la b2 ob"
  by (cases d)
    (auto simp: removeFrontLevel_def drop_level_def set_book_def book_of_def)

lemma drop_level_wf:
  assumes wf: "wf_ghost ob G" and b: "book_of d ob = b1 @ la # b2" and G: "G la = []"
  shows "wf_ghost (drop_level d la (b1 @ b2) ob) G"
proof -
  let ?ob = "drop_level d la (b1 @ b2) ob"
  note inv = wf_ghost_ladder [OF wf]
  have d1: "la \<notin> set b1" "la \<notin> set b2" using ladder_distinct(1) [OF inv, of d] b by auto
  have p1: "level_price ob lb \<noteq> level_price ob la" if "lb \<in> set b1 \<union> set b2" for lb
    using ladder_distinct(2) [OF inv, of d] b that by auto (metis imageI)+
  have "ladder_inv ?ob G d'" for d'
  proof (cases "d' = d")
    case False
    then show ?thesis using inv [of d']
      by (simp add: ladder_inv_def frame_simps)
  next
    case True
    have bp: "by_price d ?ob = (by_price d ob)(level_price ob la := None)"
      by (simp add: drop_level_def frame_simps)
    have "sorted_wrt (better d) (map (level_price ob) (take (length b1) (book_of d ob)
        @ drop (Suc (length b1)) (book_of d ob)))"
      using ladder.sorted_remove_nth [OF ladder_sorted [OF inv, of d], of "length b1"]
      by (simp add: take_map drop_map)
    then have "sorted_wrt (better d) (map (\<lambda>la. lvPrice (obLevels ob la)) (b1 @ b2))"
      by (simp add: b level_price_fun)
    moreover have "by_price d ?ob p = Some lb \<longleftrightarrow> lb \<in> set (b1 @ b2) \<and> lvPrice (obLevels ob lb) = p" for p lb
      using ladder_by_price [OF inv, of d p lb] d1 p1 [of lb] unfolding bp b
      by (auto simp: level_price_def)
    ultimately show ?thesis
      using inv [of d] True unfolding ladder_inv_def ladder_ok_def
      by (auto simp: frame_simps b)
  qed
  moreover have "set (obBuy ?ob) \<inter> set (obSell ?ob) = {}"
    using wf b by (cases d) (auto simp: wf_ghost_def drop_level_def set_book_def set_by_price_def book_of_def)
  moreover have "index_ok ?ob G"
    unfolding index_ok_def
  proof (intro allI impI)
    fix i x
    assume "obIndex ?ob i = Some x"
    then have "oID (order_at ob x) = i" and "\<exists>lb \<in> levels_of ob. x \<in> set (G lb)"
      using wf unfolding wf_ghost_def index_ok_def by (auto simp: frame_simps)
    then obtain lb where lb: "lb \<in> levels_of ob" "x \<in> set (G lb)" "lb \<noteq> la"
      using G by (metis empty_iff list.set(1))
    then obtain d' where "lb \<in> set (book_of d' ob)" by (auto simp: levels_of_book)
    then have "lb \<in> set (book_of d' ?ob)" using b lb(3) by (auto simp: frame_simps)
    then have "lb \<in> levels_of ?ob" by (rule levels_of_in)
    then show "oID (order_at ?ob x) = i \<and> (\<exists>la \<in> levels_of ?ob. x \<in> set (G la))"
      using \<open>oID (order_at ob x) = i\<close> lb(2) by (auto simp: frame_simps)
  qed
  ultimately show ?thesis by (simp add: wf_ghost_def)
qed

section \<open>Adding an order\<close>

lemma wf_ghost_emitDelta [simp]: "wf_ghost (emitDelta sd p q ob) G = wf_ghost ob G"
  by (simp add: wf_ghost_def ladder_inv_def index_ok_def levels_of_def frame_simps)

lemma index_okD:
  "wf_ghost ob G \<Longrightarrow> obIndex ob i = Some n \<Longrightarrow>
   oID (order_at ob n) = i \<and> (\<exists>la \<in> levels_of ob. n \<in> set (G la))"
  by (simp add: wf_ghost_def index_ok_def)

lemma wf_node_alloc:
  "wf_ghost ob G \<Longrightarrow> la \<in> levels_of ob \<Longrightarrow> n \<in> set (G la) \<Longrightarrow>
   n < nsFree (obNodes ob) \<and> nLevel (nsNode (obNodes ob) n) = la"
  using level_rep_node [OF wf_ghost_nodes(2)] by blast

lemma wf_disjoint: "wf_ghost ob G \<Longrightarrow> set (book_of d ob) \<inter> set (book_of (\<not> d) ob) = {}"
  by (auto simp: wf_ghost_def book_of_def)

text \<open>Appending to an existing level.\<close>

lemma add_existing_wf:
  assumes wf: "wf_ghost ob G" and la: "la \<in> set (book_of d ob)"
    and ord: "oSide ord = side_of d" "oPrice ord = level_price ob la"
    and add: "addOrder la ord (level_at la ob) = (n, e, s)"
  shows "wf_ghost (index_order (oID ord) n (set_level la (e, s) ob)) (G(la := G la @ [n]))"
proof -
  let ?ob = "index_order (oID ord) n (set_level la (e, s) ob)"
  have r: "level_rep la (obNodes ob) (obLevels ob la) (G la)"
    by (rule wf_ghost_nodes(2) [OF wf levels_of_in [OF la]])
  note c = addOrder_contract [OF r add [unfolded level_at_def]]
  have same: "nsNode s x = nsNode (obNodes ob) x"
    if "x < nsFree (obNodes ob)" "nLevel (nsNode (obNodes ob) x) \<noteq> la" for x
  proof -
    have "x \<notin> insert n (set (G la))" using that c(3) level_rep_node [OF r, of x] by auto
    then show ?thesis using c(8) unfolding same_except_def by blast
  qed
  have items: "oSide (node_order s x) = side_of d \<and> oPrice (node_order s x) = level_price ob la"
    if "x \<in> set (G la @ [n])" for x
    using that c(5,6) ord level_rep_node [OF r]
      ladder_ok_level(3,4) [OF wf_ghost_ladder [OF wf, of d, unfolded ladder_inv_def] la, of x]
    by (cases "x = n") (auto simp: level_price_def)
  have "index_ok ?ob (G(la := G la @ [n]))"
    unfolding index_ok_def
  proof (intro allI impI)
    fix i x
    assume i: "obIndex ?ob i = Some x"
    show "oID (order_at ?ob x) = i \<and> (\<exists>lb \<in> levels_of ?ob. x \<in> set ((G(la := G la @ [n])) lb))"
    proof (cases "i = oID ord")
      case True
      then show ?thesis using i c(5) levels_of_in [OF la]
        by (auto simp: frame_simps order_at_def levels_of_def)
    next
      case False
      then obtain lb where lb: "oID (order_at ob x) = i" "lb \<in> levels_of ob" "x \<in> set (G lb)"
        using i index_okD [OF wf] by (auto simp: frame_simps)
      then have "x \<noteq> n" using wf_node_alloc [OF wf lb(2,3)] c(3) by simp
      then show ?thesis using lb c(6)
        by (intro conjI bexI [of _ lb]) (auto simp: frame_simps order_at_def levels_of_def)
    qed
  qed
  then show ?thesis
    using c same items
    by (intro wf_ghost_set_level [OF wf la, of e s]) (simp_all add: frame_simps level_price_def)
qed

text \<open>Opening a new level at its sorted place.\<close>

definition open_level ::
  "bool \<Rightarrow> order \<Rightarrow> naddr \<Rightarrow> level \<times> node_store \<Rightarrow> laddr list \<Rightarrow> orderbook \<Rightarrow> orderbook" where
  "open_level d ord n es b ob =
     set_book d b (index_order (oID ord) n (set_by_price d (oPrice ord) (Some (obLevelFree ob))
       ((set_level (obLevelFree ob) es ob)\<lparr>obLevelFree := obLevelFree ob + 1\<rparr>)))"

lemma open_level_frame [frame_simps]:
  "obIndex (open_level d ord n es b ob) = (obIndex ob)(oID ord := Some n)"
  "obNodes (open_level d ord n es b ob) = snd es"
  "obLevels (open_level d ord n es b ob) = (obLevels ob)(obLevelFree ob := fst es)"
  "obLevelFree (open_level d ord n es b ob) = obLevelFree ob + 1"
  "obL2 (open_level d ord n es b ob) = obL2 ob" "obSeq (open_level d ord n es b ob) = obSeq ob"
  "obDeltas (open_level d ord n es b ob) = obDeltas ob"
  "obSymbol (open_level d ord n es b ob) = obSymbol ob"
  "obConditional (open_level d ord n es b ob) = obConditional ob"
  "book_of d' (open_level d ord n es b ob) = (if d' = d then b else book_of d' ob)"
  "by_price d' (open_level d ord n es b ob) =
     (if d' = d then (by_price d' ob)(oPrice ord := Some (obLevelFree ob)) else by_price d' ob)"
  by (simp_all add: open_level_def frame_simps set_level_def set_by_price_def book_of_def by_price_def
      set_book_def index_order_def)

lemma insert_index_eq:
  "insert_index d p ob =
   sort_Search (length (map (level_price ob) (book_of d ob)))
     (\<lambda>k. better d p (map (level_price ob) (book_of d ob) ! k))"
  unfolding insert_index_def
  by (simp, rule sort_Search_cong) (simp add: px_qty_simps better_def)

lemma add_new_sorted:
  assumes inv: "ladder_inv ob G d" and new: "by_price d ob p = None"
    and lv: "\<And>lb. lb \<in> set (book_of d ob) \<Longrightarrow> level_price ob' lb = level_price ob lb"
    and bk: "book_of d ob0 = book_of d ob" "level_price ob0 = level_price ob'"
    and la: "level_price ob' la = p" and i: "i = insert_index d p ob0"
  shows "sorted_wrt (better d) (map (level_price ob')
    (take i (book_of d ob) @ la # drop i (book_of d ob)))"
proof -
  have eq: "map (level_price ob') (book_of d ob) = map (level_price ob) (book_of d ob)"
    using lv by simp
  have "p \<notin> set (map (level_price ob) (book_of d ob))"
    using ladder_by_price [OF inv, of p] new by auto
  moreover have "i = sort_Search (length (map (level_price ob) (book_of d ob)))
      (\<lambda>k. better d p (map (level_price ob) (book_of d ob) ! k))"
    unfolding i insert_index_eq bk eq ..
  ultimately have "sorted_wrt (better d) (take i (map (level_price ob) (book_of d ob))
      @ p # drop i (map (level_price ob) (book_of d ob)))"
    by (intro ladder.search_insert ladder_sorted [OF inv])
  then show ?thesis unfolding eq [symmetric] by (simp add: take_map drop_map la)
qed

lemma add_new_wf:
  assumes wf: "wf_ghost ob G" and new: "by_price d ob (oPrice ord) = None"
    and side: "oSide ord = side_of d"
    and add: "addOrder (obLevelFree ob) ord (new_level (oPrice ord), obNodes ob) = (n, e, s)"
    and i: "i = insert_index d (oPrice ord) (open_level d ord n (e, s) (book_of d ob) ob)"
    and b: "b = take i (book_of d ob) @ [obLevelFree ob] @ drop i (book_of d ob)"
  shows "wf_ghost (open_level d ord n (e, s) b ob) (G(obLevelFree ob := [n]))"
proof -
  let ?la = "obLevelFree ob" and ?ob = "open_level d ord n (e, s) b ob"
  note c = addOrder_contract [OF level_rep_new add, simplified]
  note inv = wf_ghost_ladder [OF wf]
  have fresh: "?la \<notin> set (book_of d' ob)" for d'
    using ladder_ok_level(1) [OF inv [unfolded ladder_inv_def], of ?la d'] by auto
  have setb: "set b = insert ?la (set (book_of d ob))"
    unfolding b using set_append [of "take i (book_of d ob)" "drop i (book_of d ob)"] by auto
  have same: "nsNode s x = nsNode (obNodes ob) x" if "x < nsFree (obNodes ob)" for x
    using that c(3,8) by (auto simp: same_except_def)
  have base: "ladder_ok ((obLevels ob)(?la := e)) (?la + 1) s (G(?la := [n])) d'
      (book_of d' ob) (by_price d' ob)" for d'
    using inv [of d'] unfolding ladder_inv_def
    by (rule ladder_ok_set_level) (use fresh same c(4) in auto)
  have price: "lvPrice e = oPrice ord" using c(2) by (simp add: new_level_def)
  have "ladder_inv ?ob (G(?la := [n])) d'" for d'
  proof (cases "d' = d")
    case False
    then show ?thesis using base [of d'] by (simp add: ladder_inv_def frame_simps)
  next
    case True
    have "sorted_wrt (better d) (map (level_price ?ob)
        (take i (book_of d ob) @ ?la # drop i (book_of d ob)))"
    proof (rule add_new_sorted [OF inv [of d] new])
      show "level_price ?ob lb = level_price ob lb" if "lb \<in> set (book_of d ob)" for lb
        using that fresh by (auto simp: level_price_def frame_simps)
      show "level_price ?ob ?la = oPrice ord" using price by (simp add: level_price_def frame_simps)
    qed (simp_all add: i frame_simps level_price_fun)
    then have "sorted_wrt (better d) (map (\<lambda>la. lvPrice (obLevels ?ob la)) b)"
      by (simp add: b level_price_fun)
    moreover have "by_price d ?ob p = Some lb \<longleftrightarrow> lb \<in> set b \<and> lvPrice (obLevels ?ob lb) = p" for p lb
      using ladder_ok_level(5) [OF base, of d p lb] ladder_ok_level(5) [OF base, of d "oPrice ord" lb]
        price new fresh [of d] by (auto simp: frame_simps setb)
    ultimately show ?thesis
      using base [of d] True c(1,4,5) side price unfolding ladder_inv_def ladder_ok_def
      by (auto simp: frame_simps setb)
  qed
  moreover have "set (obBuy ?ob) \<inter> set (obSell ?ob) = {}"
  proof -
    have "set (book_of d ?ob) \<inter> set (book_of (\<not> d) ?ob) = {}"
      using wf_disjoint [OF wf, of d] setb fresh [of "\<not> d"] by (auto simp: frame_simps)
    then show ?thesis by (cases d) (auto simp: book_of_def)
  qed
  moreover have "index_ok ?ob (G(?la := [n]))"
    unfolding index_ok_def
  proof (intro allI impI)
    fix i' x
    assume i': "obIndex ?ob i' = Some x"
    have lev: "levels_of ?ob = insert ?la (levels_of ob)"
      unfolding levels_of_book using setb by (auto simp: frame_simps split: if_splits)
    show "oID (order_at ?ob x) = i' \<and> (\<exists>lb \<in> levels_of ?ob. x \<in> set ((G(?la := [n])) lb))"
    proof (cases "i' = oID ord")
      case True
      then show ?thesis using i' c(5) lev by (auto simp: frame_simps order_at_def)
    next
      case False
      then obtain lb where lb: "oID (order_at ob x) = i'" "lb \<in> levels_of ob" "x \<in> set (G lb)"
        using i' index_okD [OF wf] by (auto simp: frame_simps)
      then have "x \<noteq> n" using wf_node_alloc [OF wf lb(2,3)] c(3) by simp
      moreover have "lb \<noteq> ?la" using lb(2) fresh by (auto simp: levels_of_book)
      ultimately show ?thesis using lb c(6) lev
        by (intro conjI bexI [of _ lb]) (auto simp: frame_simps order_at_def)
    qed
  qed
  ultimately show ?thesis by (simp add: wf_ghost_def)
qed

end
