(* ===== verification/BookOps.thy ===== *)
theory BookOps
  imports BookInv
begin

text \<open>
  What \<^verbatim>\<open>Add\<close>, \<^verbatim>\<open>Cancel\<close> and \<^verbatim>\<open>ReduceVolume\<close> do to a well-formed book, each as one
  shape lemma over the ghost queues, and the invariants they keep.
\<close>

section \<open>Shapes\<close>

lemma Add_other_side: "oSide ord \<noteq> BUY \<Longrightarrow> oSide ord \<noteq> SELL \<Longrightarrow> Add ord ob = (None, ob)"
  by (simp add: Add_def)

lemma Add_side:
  "oSide ord = side_of d \<Longrightarrow> Add ord ob = (case addSide d ord ob of (n, ob') \<Rightarrow> (Some n, ob'))"
  by (cases d) (simp_all add: Add_def)

text \<open>
  The two ways to place an order: at the tail of the level with its price, or as
  the only order of a new level inserted at the sorted place.
\<close>

lemma addSide_cases:
  assumes wf: "wf_ghost ob G" and side: "oSide ord = side_of d"
  obtains (existing) la n e s b1 b2 where
      "book_of d ob = b1 @ la # b2" "level_price ob la = oPrice ord"
      "addOrder la ord (level_at la ob) = (n, e, s)"
      "addSide d ord ob = (n, emitDelta (side_of d) (oPrice ord) (lvTotal e)
         (index_order (oID ord) n (set_level la (e, s) ob)))"
    | (new) n e s b1 b2 where
      "book_of d ob = b1 @ b2" "by_price d ob (oPrice ord) = None"
      "addOrder (obLevelFree ob) ord (new_level (oPrice ord), obNodes ob) = (n, e, s)"
      "addSide d ord ob = (n, emitDelta (side_of d) (oPrice ord) (lvTotal e)
         (open_level d ord n (e, s) (b1 @ obLevelFree ob # b2) ob))"
      "wf_ghost (open_level d ord n (e, s) (b1 @ obLevelFree ob # b2) ob)
         (G(obLevelFree ob := [n]))"
proof (cases "by_price d ob (oPrice ord)")
  case (Some la)
  then have la: "la \<in> set (book_of d ob)" "level_price ob la = oPrice ord"
    using ladder_by_price [OF wf_ghost_ladder [OF wf]] by auto
  then obtain b1 b2 where b: "book_of d ob = b1 @ la # b2" using book_split by blast
  obtain n e s where add: "addOrder la ord (level_at la ob) = (n, e, s)" by (metis prod_cases3)
  have "level_rep la (obNodes ob) (obLevels ob la) (G la)"
    by (rule wf_ghost_nodes(2) [OF wf levels_of_in [OF la(1)]])
  from addOrder_contract(2) [OF this add [unfolded level_at_def]]
  have "lvPrice e = oPrice ord" using la by (simp add: level_price_def)
  then have "addSide d ord ob = (n, emitDelta (side_of d) (oPrice ord) (lvTotal e)
      (index_order (oID ord) n (set_level la (e, s) ob)))"
    using Some add side by (simp add: addSide_def Let_def)
  with existing b la(2) add show ?thesis by blast
next
  case None
  let ?la = "obLevelFree ob"
  obtain n e s where add: "addOrder ?la ord (new_level (oPrice ord), obNodes ob) = (n, e, s)"
    by (metis prod_cases3)
  have pe: "lvPrice e = oPrice ord"
    using addOrder_contract(2) [OF level_rep_new add] by (simp add: new_level_def)
  define i where "i = insert_index d (oPrice ord) (open_level d ord n (e, s) (book_of d ob) ob)"
  define b1 where "b1 = take i (book_of d ob)"
  define b2 where "b2 = drop i (book_of d ob)"
  have old: "index_order (oID ord) n (set_by_price d (oPrice ord) (Some ?la)
      ((set_level ?la (e, s) ob)\<lparr>obLevelFree := ?la + 1\<rparr>)) =
      open_level d ord n (e, s) (book_of d ob) ob"
    by (cases d) (simp_all add: open_level_def set_book_def book_of_def index_order_def
        set_by_price_def set_level_def)
  have over: "set_book d b (open_level d ord n (e, s) b' ob) = open_level d ord n (e, s) b ob" for b b'
    by (cases d) (simp_all add: open_level_def set_book_def)
  have "addSide d ord ob = (n, emitDelta (side_of d) (oPrice ord) (lvTotal e)
      (open_level d ord n (e, s) (b1 @ ?la # b2) ob))"
    using None add side pe old
    by (simp del: add_Suc_right One_nat_def add: addSide_def Let_def over i_def b1_def b2_def frame_simps)
  moreover have "book_of d ob = b1 @ b2" by (simp add: b1_def b2_def)
  moreover have "wf_ghost (open_level d ord n (e, s) (b1 @ ?la # b2) ob) (G(?la := [n]))"
    by (rule add_new_wf [OF wf None side add i_def]) (simp add: b1_def b2_def)
  ultimately show ?thesis using new None add by blast
qed

lemma orders_of_at: "orders_of (obNodes ob) xs = map (order_at ob) xs"
  by (simp add: orders_of_def order_at_def)

text \<open>An indexed node with its place in the ladder.\<close>

lemma index_place:
  assumes wf: "wf_ghost ob G" and i: "obIndex ob i = Some n"
  obtains d la as bs b1 b2 where "book_of d ob = b1 @ la # b2" "la \<in> set (book_of d ob)"
    "G la = as @ n # bs" "oID (order_at ob n) = i" "nLevel (nsNode (obNodes ob) n) = la"
    "oSide (order_at ob n) = side_of d" "oPrice (order_at ob n) = level_price ob la"
proof -
  obtain la where la: "la \<in> levels_of ob" "n \<in> set (G la)" and id: "oID (order_at ob n) = i"
    using index_okD [OF wf i] by blast
  then obtain d where d: "la \<in> set (book_of d ob)" by (auto simp: levels_of_book)
  note inv = wf_ghost_ladder [OF wf, of d, unfolded ladder_inv_def]
  have "oSide (order_at ob n) = side_of d" "oPrice (order_at ob n) = level_price ob la"
    using ladder_ok_level(3,4) [OF inv d la(2)] by (simp_all add: order_at_def level_price_def)
  then show ?thesis
    using that split_list [OF la(2)] book_split [OF d] d id wf_node_alloc [OF wf la] by blast
qed

lemma Cancel_missing: "obIndex ob i = None \<Longrightarrow> Cancel i ob = (Some ErrCancelOrderFailed, ob)"
  by (simp add: Cancel_def)

lemma Cancel_cases:
  assumes wf: "wf_ghost ob G" and i: "obIndex ob i = Some n"
  obtains d la as bs b1 b2 ob' where
    "book_of d ob = b1 @ la # b2" "la \<in> set (book_of d ob)" "G la = as @ n # bs"
    "oID (order_at ob n) = i"
    "ob' = (if as @ bs = [] then drop_level d la (b1 @ b2) (unlink la n ob) else unlink la n ob)"
    "wf_ghost ob' (G(la := as @ bs))"
    "Cancel i ob = (None, emitDelta (side_of d) (level_price ob la)
       (volumes (map (order_at ob) (as @ bs))) ob')"
proof -
  from index_place [OF wf i] obtain d la as bs b1 b2 where
    p: "book_of d ob = b1 @ la # b2" "la \<in> set (book_of d ob)" "G la = as @ n # bs"
    "oID (order_at ob n) = i" "nLevel (nsNode (obNodes ob) n) = la"
    "oSide (order_at ob n) = side_of d" .
  note u = unlink_contract [OF wf p(2,3)]
  let ?ob2 = "unlink la n ob"
  define ob' where "ob' = (if as @ bs = [] then drop_level d la (b1 @ b2) ?ob2 else ?ob2)"
  have ob2: "unindex_order i (set_level la (removeNode n (level_at la ob)) ob) = ?ob2"
    using p(4) by (simp add: unlink_def)
  have empty: "list_IsEmpty (lvOrders (obLevels ?ob2 la)) \<longleftrightarrow> as @ bs = []"
    by (rule level_rep_IsEmpty [OF u(4)])
  have wf2: "wf_ghost ?ob2 (G(la := as @ bs))" by (rule u(1))
  have rl: "removeLevel d la ?ob2 = drop_level d la (b1 @ b2) ?ob2"
    by (rule removeLevel_eq [OF wf_ghost_ladder [OF wf2]]) (simp add: p(1) frame_simps)
  have at: "order_at ?ob2 = order_at ob" using u(2) by auto
  have tot: "lvTotal (obLevels ?ob2 la) = volumes (map (order_at ob) (as @ bs))"
    using u(4) at by (simp add: level_rep_def orders_of_at)
  have "(if list_IsEmpty (lvOrders (obLevels ?ob2 la)) then
           (if side_of d = BUY then removeLevel True la ?ob2
            else if side_of d = SELL then removeLevel False la ?ob2 else ?ob2)
         else ?ob2) = ob'"
    unfolding empty ob'_def rl [symmetric] by (cases d) simp_all
  then have "Cancel i ob = (None, emitDelta (side_of d) (level_price ob' la) (lvTotal (obLevels ob' la)) ob')"
    by (simp only: Cancel_def Let_def i p(5,6) ob2 option.case)
  also have "level_price ob' la = level_price ob la" using u(3) by (simp add: ob'_def frame_simps)
  also have "lvTotal (obLevels ob' la) = volumes (map (order_at ob) (as @ bs))"
    using tot by (simp add: ob'_def frame_simps)
  finally have "Cancel i ob = (None, emitDelta (side_of d) (level_price ob la)
       (volumes (map (order_at ob) (as @ bs))) ob')" .
  moreover have "wf_ghost ob' (G(la := as @ bs))"
    using wf2 drop_level_wf [OF wf2, of d b1 la b2] p(1) by (simp add: ob'_def frame_simps)
  ultimately show ?thesis using that p(1-4) ob'_def by blast
qed

lemma ReduceVolume_cases:
  assumes wf: "wf_ghost ob G" and i: "obIndex ob i = Some n" and v: "v \<noteq> 0"
    and less: "v < oVolume (order_at ob n)"
  obtains d la as bs b1 b2 where
    "book_of d ob = b1 @ la # b2" "la \<in> set (book_of d ob)" "G la = as @ n # bs"
    "oID (order_at ob n) = i" "wf_ghost (revolume la n v ob) G"
    "ReduceVolume i v ob = (None, emitDelta (side_of d) (level_price ob la)
       (volumes (map (order_at (revolume la n v ob)) (G la))) (revolume la n v ob))"
proof -
  from index_place [OF wf i] obtain d la as bs b1 b2 where
    p: "book_of d ob = b1 @ la # b2" "la \<in> set (book_of d ob)" "G la = as @ n # bs"
    "oID (order_at ob n) = i" "nLevel (nsNode (obNodes ob) n) = la"
    "oSide (order_at ob n) = side_of d" .
  note r = revolume_contract [OF wf p(2,3), of v]
  have la': "la \<in> levels_of (revolume la n v ob)"
    using levels_of_in [OF p(2)] by (simp add: levels_of_def frame_simps)
  have "lvTotal (obLevels (revolume la n v ob) la) = volumes (map (order_at (revolume la n v ob)) (G la))"
    using wf_ghost_nodes(2) [OF r(1) la'] by (simp add: level_rep_def orders_of_at)
  moreover have "oSide (order_at (revolume la n v ob) n) = side_of d"
    using r(2) p(6) by simp
  ultimately have "ReduceVolume i v ob = (None, emitDelta (side_of d) (level_price ob la)
       (volumes (map (order_at (revolume la n v ob)) (G la))) (revolume la n v ob))"
    using i v less p(5) r(3) by (simp add: ReduceVolume_def Let_def px_qty_simps revolume_def [symmetric])
  then show ?thesis using that p(1-4) r(1) by blast
qed

section \<open>Invariants under the operations\<close>

text \<open>\<open>book_indexed\<close> over a ghost map.\<close>

definition ghost_indexed :: "orderbook \<Rightarrow> (laddr \<Rightarrow> naddr list) \<Rightarrow> bool" where
  "ghost_indexed ob G \<longleftrightarrow>
     (\<forall>la \<in> levels_of ob. \<forall>n \<in> set (G la). obIndex ob (oID (order_at ob n)) = Some n)"

lemma ghost_indexed_iff: "wf_ghost ob G \<Longrightarrow> book_indexed ob \<longleftrightarrow> ghost_indexed ob G"
  by (auto simp: book_indexed_def ghost_indexed_def wf_ghost_nodes(1))

lemma ghost_indexed_emitDelta [simp]: "ghost_indexed (emitDelta sd p q ob) G = ghost_indexed ob G"
  by (simp add: ghost_indexed_def levels_of_def frame_simps)

lemma levels_of_unlink [simp]: "levels_of (unlink la n ob) = levels_of ob"
  by (simp add: levels_of_def frame_simps)

lemma levels_of_revolume [simp]: "levels_of (revolume la n v ob) = levels_of ob"
  by (simp add: levels_of_def frame_simps)

lemma levels_of_emitDelta [simp]: "levels_of (emitDelta sd p q ob) = levels_of ob"
  by (simp add: levels_of_def frame_simps)

lemma levels_of_drop:
  assumes wf: "wf_ghost ob G" and b: "book_of d ob = b1 @ la # b2"
  shows "levels_of (drop_level d la (b1 @ b2) ob) = levels_of ob - {la}"
proof -
  have "la \<notin> set b1" "la \<notin> set b2"
    using ladder_distinct(1) [OF wf_ghost_ladder [OF wf], of d] b by auto
  moreover have "la \<notin> set (book_of (\<not> d) ob)" using wf_disjoint [OF wf, of d] b by auto
  ultimately show ?thesis using b by (auto simp: levels_of_two [of _ d] frame_simps)
qed

lemma unlink_indexed:
  assumes wf: "wf_ghost ob G" and la: "la \<in> set (book_of d ob)" and G: "G la = as @ n # bs"
    and ix: "ghost_indexed ob G"
  shows "ghost_indexed (unlink la n ob) (G(la := as @ bs))"
  unfolding ghost_indexed_def
proof (intro ballI)
  fix lb x
  assume lb: "lb \<in> levels_of (unlink la n ob)" and x: "x \<in> set ((G(la := as @ bs)) lb)"
  note u = unlink_contract [OF wf la G]
  have n: "obIndex ob (oID (order_at ob n)) = Some n"
    using ix levels_of_in [OF la] G by (auto simp: ghost_indexed_def)
  have xG: "x \<in> set (G lb)" using x G by (auto split: if_splits)
  then have ox: "obIndex ob (oID (order_at ob x)) = Some x"
    using ix lb by (auto simp: ghost_indexed_def)
  have "x \<noteq> n"
  proof (cases "lb = la")
    case True
    have "distinct (as @ n # bs)"
      using level_rep_distinct [OF wf_ghost_nodes(2) [OF wf levels_of_in [OF la]]] G by simp
    then show ?thesis using x True by auto
  next
    case False
    then show ?thesis
      using wf_node_alloc [OF wf, of lb x] wf_node_alloc [OF wf levels_of_in [OF la], of n] lb xG G
      by auto
  qed
  then have "oID (order_at ob x) \<noteq> oID (order_at ob n)" using ox n by auto
  then show "obIndex (unlink la n ob) (oID (order_at (unlink la n ob) x)) = Some x"
    using ox u(2) by (simp add: frame_simps)
qed

lemma revolume_indexed:
  assumes wf: "wf_ghost ob G" and la: "la \<in> set (book_of d ob)" and G: "G la = as @ n # bs"
    and ix: "ghost_indexed ob G"
  shows "ghost_indexed (revolume la n v ob) G"
  using ix revolume_contract(2) [OF wf la G] by (auto simp: ghost_indexed_def frame_simps)

lemma drop_level_indexed:
  assumes "wf_ghost ob G" and "book_of d ob = b1 @ la # b2" and "ghost_indexed ob G"
  shows "ghost_indexed (drop_level d la (b1 @ b2) ob) G"
  using assms levels_of_drop [OF assms(1,2)] by (auto simp: ghost_indexed_def frame_simps)

end
