(* ===== verification/BookSpec.thy ===== *)
theory BookSpec
  imports BookOps
begin

text \<open>
  What the order book promises, without pointers, indexes, caches or binary
  searches: a ladder is a list of prices with the queue of orders at each, best
  price first, and the operations are list functions. \<open>view\<close> reads a ladder off
  the book; the refinement lemmas say that the code's operations are these
  functions.
\<close>

type_synonym ladder = "(px \<times> order list) list"

definition view :: "bool \<Rightarrow> orderbook \<Rightarrow> ladder" where
  "view d ob = map (\<lambda>la. (level_price ob la, level_orders ob la)) (book_of d ob)"

definition resting :: "orderbook \<Rightarrow> order list" where
  "resting ob = concat (map snd (view True ob)) @ concat (map snd (view False ob))"

section \<open>The operations on ladders\<close>

fun lad_insert :: "bool \<Rightarrow> order \<Rightarrow> ladder \<Rightarrow> ladder" where
  "lad_insert d ord [] = [(oPrice ord, [ord])]"
| "lad_insert d ord ((p, os) # l) =
     (if p = oPrice ord then (p, os @ [ord]) # l
      else if better d (oPrice ord) p then (oPrice ord, [ord]) # (p, os) # l
      else (p, os) # lad_insert d ord l)"

definition lad_remove :: "order_id \<Rightarrow> ladder \<Rightarrow> ladder" where
  "lad_remove i lad =
     filter (\<lambda>(p, os). os \<noteq> []) (map (\<lambda>(p, os). (p, filter (\<lambda>x. oID x \<noteq> i) os)) lad)"

definition resize :: "order_id \<Rightarrow> qty \<Rightarrow> order \<Rightarrow> order" where
  "resize i v x = (if oID x = i then x\<lparr>oVolume := v\<rparr> else x)"

definition lad_resize :: "order_id \<Rightarrow> qty \<Rightarrow> ladder \<Rightarrow> ladder" where
  "lad_resize i v lad = map (\<lambda>(p, os). (p, map (resize i v) os)) lad"

definition qty_at :: "ladder \<Rightarrow> px \<Rightarrow> qty" where
  "qty_at lad p = (case map_of lad p of None \<Rightarrow> 0 | Some os \<Rightarrow> volumes os)"

lemma lad_insert_existing:
  "\<forall>x \<in> set v1. better d (fst x) (oPrice ord) \<Longrightarrow>
   lad_insert d ord (v1 @ (oPrice ord, os) # v2) = v1 @ (oPrice ord, os @ [ord]) # v2"
proof (induction v1)
  case (Cons a v1)
  then have "fst a \<noteq> oPrice ord" "\<not> better d (oPrice ord) (fst a)"
    using ladder.asym ladder.irrefl by fastforce+
  then show ?case using Cons by (cases a) simp
qed simp

lemma lad_insert_new:
  assumes "\<forall>x \<in> set v1. better d (fst x) (oPrice ord)"
    and v2: "\<forall>x \<in> set v2. better d (oPrice ord) (fst x)"
  shows "lad_insert d ord (v1 @ v2) = v1 @ (oPrice ord, [ord]) # v2"
  using assms(1)
proof (induction v1)
  case Nil
  show ?case using v2 ladder.irrefl by (cases v2) auto
next
  case (Cons a v1)
  then have "fst a \<noteq> oPrice ord" "\<not> better d (oPrice ord) (fst a)"
    using ladder.asym ladder.irrefl by fastforce+
  then show ?case using Cons by (cases a) simp
qed

section \<open>The view over a ghost map\<close>

definition gview :: "bool \<Rightarrow> orderbook \<Rightarrow> (laddr \<Rightarrow> naddr list) \<Rightarrow> ladder" where
  "gview d ob G = map (\<lambda>la. (level_price ob la, map (order_at ob) (G la))) (book_of d ob)"

lemma view_ghost: "wf_ghost ob G \<Longrightarrow> view d ob = gview d ob G"
  by (auto simp: view_def gview_def level_orders_def orders_of_at wf_ghost_nodes(1) levels_of_in)

lemma gview_emitDelta [simp]: "gview d (emitDelta sd p q ob) G = gview d ob G"
  by (simp add: gview_def frame_simps)

lemma view_emitDelta [simp]: "view d (emitDelta sd p q ob) = view d ob"
  by (simp add: view_def level_orders_def level_nodes_def frame_simps)

lemma gview_split:
  "book_of d ob = b1 @ la # b2 \<Longrightarrow> gview d ob G =
   map (\<lambda>la. (level_price ob la, map (order_at ob) (G la))) b1 @
   (level_price ob la, map (order_at ob) (G la)) #
   map (\<lambda>la. (level_price ob la, map (order_at ob) (G la))) b2"
  by (simp add: gview_def)

text \<open>Sortedness and non-emptiness of what is seen.\<close>

lemma view_prices: "map fst (view d ob) = map (level_price ob) (book_of d ob)"
  by (simp add: view_def)

lemma view_sorted: "wf_ghost ob G \<Longrightarrow> sorted_wrt (better d) (map fst (view d ob))"
  unfolding view_prices by (rule ladder_sorted) (rule wf_ghost_ladder)

lemma view_nonempty: "book_wf ob \<Longrightarrow> (p, os) \<in> set (view d ob) \<Longrightarrow> os \<noteq> []"
  by (auto simp: view_def book_wf_def level_orders_def dest: levels_of_in)

lemma view_order:
  assumes wf: "wf_ghost ob G" and "(p, os) \<in> set (view d ob)" and "x \<in> set os"
  shows "oPrice x = p" and "oSide x = side_of d"
proof -
  from assms obtain la n where la: "la \<in> set (book_of d ob)" "p = level_price ob la"
    and n: "n \<in> set (G la)" "x = order_at ob n"
    by (auto simp: view_ghost [OF wf] gview_def)
  note inv = wf_ghost_ladder [OF wf, of d, unfolded ladder_inv_def]
  show "oPrice x = p" "oSide x = side_of d"
    using ladder_ok_level(3,4) [OF inv la(1) n(1)] la n by (simp_all add: order_at_def level_price_def)
qed

lemma sorted_split:
  assumes "sorted_wrt (better d) (map fst (v1 @ (p, os) # v2))"
  shows "\<forall>x \<in> set v1. better d (fst x) p" and "\<forall>x \<in> set v2. better d p (fst x)"
  using assms by (auto simp: sorted_wrt_append)

lemma qty_at_split:
  assumes "sorted_wrt (better d) (map fst (v1 @ (p, os) # v2))"
  shows "qty_at (v1 @ (p, os) # v2) q = (if q = p then volumes os else qty_at (v1 @ v2) q)"
    and "qty_at (v1 @ v2) p = 0"
proof -
  have "p \<notin> fst ` set v1" "p \<notin> fst ` set v2"
    using sorted_split [OF assms] ladder.irrefl by fastforce+
  then have n: "map_of v1 p = None" "map_of v2 p = None" by (simp_all add: map_of_eq_None_iff)
  then show "qty_at (v1 @ v2) p = 0" by (simp add: qty_at_def map_add_def)
  show "qty_at (v1 @ (p, os) # v2) q = (if q = p then volumes os else qty_at (v1 @ v2) q)"
    using n by (auto simp: qty_at_def map_add_def split: option.splits)
qed

lemma view_level_qty:
  assumes wf: "wf_ghost ob G" and la: "la \<in> set (book_of d ob)"
  shows "qty_at (view d ob) (level_price ob la) = volumes (map (order_at ob) (G la))"
proof -
  obtain b1 b2 where b: "book_of d ob = b1 @ la # b2" using book_split [OF la] by blast
  from view_sorted [OF wf, of d] show ?thesis
    unfolding view_ghost [OF wf] gview_split [OF b] by (simp only: qty_at_split(1) simp_thms if_True)
qed

section \<open>One level changes\<close>

abbreviation rung :: "orderbook \<Rightarrow> (laddr \<Rightarrow> naddr list) \<Rightarrow> laddr \<Rightarrow> px \<times> order list" where
  "rung ob G la \<equiv> (level_price ob la, map (order_at ob) (G la))"

lemma rungs_cong:
  assumes "\<And>la. la \<in> set b \<Longrightarrow> level_price ob' la = level_price ob la"
    and "\<And>la. la \<in> set b \<Longrightarrow> G' la = G la"
    and "\<And>la x. la \<in> set b \<Longrightarrow> x \<in> set (G la) \<Longrightarrow> order_at ob' x = order_at ob x"
  shows "map (rung ob' G') b = map (rung ob G) b"
  using assms by auto

text \<open>
  What changes in the log when a book operation ends by publishing level \<open>p\<close>: one
  delta with the quantity now visible there, when a sink is installed.
\<close>

definition published :: "bool \<Rightarrow> px \<Rightarrow> orderbook \<Rightarrow> orderbook \<Rightarrow> bool" where
  "published d p ob ob' \<longleftrightarrow>
     (let e = emitDelta (side_of d) p (qty_at (view d ob') p) ob in
      obSeq ob' = obSeq e \<and> obDeltas ob' = obDeltas e \<and> obSymbol ob' = obSymbol ob \<and>
      obL2 ob' = obL2 ob \<and> obConditional ob' = obConditional ob)"

lemma emitDelta_log:
  "obL2 a = obL2 b \<Longrightarrow> obSeq a = obSeq b \<Longrightarrow> obDeltas a = obDeltas b \<Longrightarrow> obSymbol a = obSymbol b \<Longrightarrow>
   obSeq (emitDelta sd p q a) = obSeq (emitDelta sd p q b) \<and>
   obDeltas (emitDelta sd p q a) = obDeltas (emitDelta sd p q b)"
  by (simp add: emitDelta_def NextSeq_def Let_def)

lemma published_emitDelta:
  assumes "obL2 ob1 = obL2 ob" "obSeq ob1 = obSeq ob" "obDeltas ob1 = obDeltas ob"
    "obSymbol ob1 = obSymbol ob" "obConditional ob1 = obConditional ob"
    and "q = qty_at (view d ob1) p" "sd = side_of d"
  shows "published d p ob (emitDelta sd p q ob1)"
  using emitDelta_log [of ob1 ob sd p q] assms by (simp add: published_def Let_def frame_simps)

section \<open>Adding\<close>

text \<open>
  Both ways of adding an order give a new node \<open>n\<close> the order, at level \<open>la\<close>, and
  change nothing at the other levels.
\<close>

definition placed ::
  "order \<Rightarrow> laddr \<Rightarrow> naddr \<Rightarrow> orderbook \<Rightarrow> (laddr \<Rightarrow> naddr list) \<Rightarrow> orderbook \<Rightarrow> (laddr \<Rightarrow> naddr list) \<Rightarrow> bool"
  where
  "placed ord la n ob G ob1 G1 \<longleftrightarrow>
     (\<forall>x. order_at ob1 x = (if x = n then ord else order_at ob x)) \<and> n = nsFree (obNodes ob) \<and>
     (\<forall>lb. lb \<noteq> la \<longrightarrow> G1 lb = G lb \<and> level_price ob1 lb = level_price ob lb) \<and>
     levels_of ob1 = insert la (levels_of ob) \<and>
     set (G1 la) \<subseteq> insert n (if la \<in> levels_of ob then set (G la) else {}) \<and>
     obIndex ob1 = (obIndex ob)(oID ord \<mapsto> n)"

lemma placed_new: "placed ord la n ob G ob1 G1 \<Longrightarrow> order_at ob1 n = ord"
  by (simp add: placed_def)

lemma placed_old:
  assumes "placed ord la n ob G ob1 G1" and "wf_ghost ob G" and "lb \<in> levels_of ob"
  shows "map (order_at ob1) (G lb) = map (order_at ob) (G lb)"
  using assms(1) wf_node_alloc [OF assms(2,3)] by (auto simp: placed_def)

lemma placed_rungs:
  assumes pl: "placed ord la n ob G ob1 G1" and wf: "wf_ghost ob G"
    and b: "set b \<subseteq> levels_of ob" "la \<notin> set b"
  shows "map (rung ob1 G1) b = map (rung ob G) b"
proof -
  have "rung ob1 G1 lb = rung ob G lb" if "lb \<in> set b" for lb
  proof -
    have "lb \<in> levels_of ob" "lb \<noteq> la" using that b by auto
    then show ?thesis using pl placed_old [OF pl wf] by (simp add: placed_def)
  qed
  then show ?thesis by (rule map_cong [OF refl])
qed

lemma placed_indexed:
  assumes pl: "placed ord la n ob G ob1 G1"
    and ix: "ghost_indexed ob G" and new: "obIndex ob (oID ord) = None"
  shows "ghost_indexed ob1 G1"
  unfolding ghost_indexed_def
proof (intro ballI)
  fix lb x assume lb: "lb \<in> levels_of ob1" "x \<in> set (G1 lb)"
  show "obIndex ob1 (oID (order_at ob1 x)) = Some x"
  proof (cases "x = n")
    case False
    then have "x \<in> set (G lb) \<and> lb \<in> levels_of ob"
      using lb pl by (cases "lb = la") (auto simp: placed_def split: if_splits)
    then have "obIndex ob (oID (order_at ob x)) = Some x"
      using ix unfolding ghost_indexed_def by blast
    then show ?thesis using False new pl by (auto simp: placed_def)
  qed (use pl in \<open>simp add: placed_def\<close>)
qed

text \<open>The way both end: the level's new total is published.\<close>

lemma placed_finish:
  assumes pl: "placed ord la n ob G ob1 G1" and wf: "wf_ghost ob G" and wf1: "wf_ghost ob1 G1"
    and ne: "\<And>lb. lb \<in> levels_of ob \<Longrightarrow> G lb \<noteq> []" "G1 la \<noteq> []"
    and la: "la \<in> set (book_of d ob1)" "level_price ob1 la = oPrice ord"
    and add: "Add ord ob = (Some n, emitDelta (side_of d) (oPrice ord) q ob1)"
    and q: "q = volumes (map (order_at ob1) (G1 la))"
    and v: "view d ob1 = lad_insert d ord (view d ob)" "book_of (\<not> d) ob1 = book_of (\<not> d) ob"
    and log: "obL2 ob1 = obL2 ob" "obSeq ob1 = obSeq ob" "obDeltas ob1 = obDeltas ob"
      "obSymbol ob1 = obSymbol ob" "obConditional ob1 = obConditional ob"
  obtains ob' where "Add ord ob = (Some n, ob')" "book_wf ob'"
    "view d ob' = lad_insert d ord (view d ob)" "view (\<not> d) ob' = view (\<not> d) ob"
    "published d (oPrice ord) ob ob'" "obIndex ob' = (obIndex ob)(oID ord \<mapsto> n)"
    "book_indexed ob \<Longrightarrow> obIndex ob (oID ord) = None \<Longrightarrow> book_indexed ob'"
proof
  let ?e = "emitDelta (side_of d) (oPrice ord) q ob1"
  show "Add ord ob = (Some n, ?e)" by (rule add)
  have "G1 lb \<noteq> []" if "lb \<in> levels_of ob1" for lb
    using that ne pl by (cases "lb = la") (auto simp: placed_def)
  then show "book_wf ?e" using wf1 by (intro book_wfI [of _ G1]) simp_all
  show "view d ?e = lad_insert d ord (view d ob)" using v by simp
  have "la \<notin> set (book_of (\<not> d) ob)" using wf_disjoint [OF wf1, of d] la v(2) by auto
  moreover have "set (book_of (\<not> d) ob) \<subseteq> levels_of ob" by (auto dest: levels_of_in)
  ultimately have "map (rung ob1 G1) (book_of (\<not> d) ob) = map (rung ob G) (book_of (\<not> d) ob)"
    by (intro placed_rungs [OF pl wf])
  then show "view (\<not> d) ?e = view (\<not> d) ob"
    by (simp add: view_ghost [OF wf1] view_ghost [OF wf] gview_def v(2))
  show "obIndex ?e = (obIndex ob)(oID ord \<mapsto> n)" using pl by (simp add: placed_def frame_simps)
  have "q = qty_at (view d ob1) (oPrice ord)"
    using view_level_qty [OF wf1 la(1)] la(2) q by simp
  then show "published d (oPrice ord) ob ?e" using log by (intro published_emitDelta) simp_all
  show "book_indexed ?e" if "book_indexed ob" "obIndex ob (oID ord) = None"
    using that placed_indexed [OF pl] wf wf1 by (simp add: ghost_indexed_iff [of _ G] ghost_indexed_iff [of _ G1])
qed

lemma Add_refines:
  assumes wf: "book_wf ob" and side: "oSide ord = side_of d"
  obtains n ob' where "Add ord ob = (Some n, ob')" "book_wf ob'"
    "view d ob' = lad_insert d ord (view d ob)" "view (\<not> d) ob' = view (\<not> d) ob"
    "published d (oPrice ord) ob ob'" "obIndex ob' = (obIndex ob)(oID ord \<mapsto> n)"
    "book_indexed ob \<Longrightarrow> obIndex ob (oID ord) = None \<Longrightarrow> book_indexed ob'"
proof -
  define G where "G = level_nodes ob"
  have wg: "wf_ghost ob G" and ne: "\<And>la. la \<in> levels_of ob \<Longrightarrow> G la \<noteq> []"
    using wf by (auto simp: book_wf_def G_def)
  note inv = wf_ghost_ladder [OF wg]
  have srt: "sorted_wrt (better d) (map fst (view d ob))" by (rule view_sorted [OF wg])
  note finish = that
  from wg side show thesis
  proof (cases rule: addSide_cases)
    case (existing la n e s b1 b2)
    let ?ob1 = "index_order (oID ord) n (set_level la (e, s) ob)"
    let ?G = "G(la := G la @ [n])"
    have la: "la \<in> set (book_of d ob)" using existing(1) by simp
    note lv = levels_of_in [OF la]
    have r: "level_rep la (obNodes ob) (obLevels ob la) (G la)" by (rule wf_ghost_nodes(2) [OF wg lv])
    note c = addOrder_contract [OF r existing(3) [unfolded level_at_def]]
    have wg1: "wf_ghost ?ob1 ?G"
      by (rule add_existing_wf [OF wg la side _ existing(3)]) (simp add: existing(2))
    have pl: "placed ord la n ob G ?ob1 ?G"
      using c(3,5,6) lv by (auto simp: placed_def order_at_def level_price_def levels_of_def frame_simps)
    have p1: "level_price ?ob1 la = oPrice ord"
      using c(2) existing(2) by (simp add: level_price_def frame_simps)
    have nb: "la \<notin> set b1" "la \<notin> set b2" using ladder_distinct(1) [OF inv, of d] existing(1) by auto
    have b12: "set b1 \<subseteq> levels_of ob" "set b2 \<subseteq> levels_of ob"
      using existing(1) levels_of_in [of _ d ob] by auto
    have row: "map (order_at ?ob1) (?G la) = map (order_at ob) (G la) @ [ord]"
      using placed_old [OF pl wg lv] placed_new [OF pl] by simp
    have v: "view d ob = map (rung ob G) b1 @ (oPrice ord, map (order_at ob) (G la)) # map (rung ob G) b2"
      unfolding view_ghost [OF wg] gview_split [OF existing(1)] existing(2) ..
    have "view d ?ob1 = map (rung ?ob1 ?G) b1 @ (oPrice ord, map (order_at ?ob1) (?G la)) # map (rung ?ob1 ?G) b2"
      unfolding view_ghost [OF wg1] p1 [symmetric] by (rule gview_split) (simp add: frame_simps existing(1))
    also have "\<dots> = lad_insert d ord (view d ob)"
      unfolding v row placed_rungs [OF pl wg b12(1) nb(1)] placed_rungs [OF pl wg b12(2) nb(2)]
      using sorted_split(1) [OF srt [unfolded v]] by (intro lad_insert_existing [symmetric])
    finally have v1: "view d ?ob1 = lad_insert d ord (view d ob)" .
    have add: "Add ord ob = (Some n, emitDelta (side_of d) (oPrice ord) (lvTotal e) ?ob1)"
      using existing(4) by (simp add: Add_side [OF side])
    have q: "lvTotal e = volumes (map (order_at ?ob1) (?G la))"
      unfolding row using c(9) by (simp add: orders_of_at)
    show thesis
      by (rule placed_finish [OF pl wg wg1 ne _ _ p1 add q v1])
        (use la finish in \<open>simp_all add: frame_simps\<close>)
  next
    case (new n e s b1 b2)
    let ?la = "obLevelFree ob"
    let ?ob1 = "open_level d ord n (e, s) (b1 @ ?la # b2) ob"
    let ?G = "G(?la := [n])"
    note wg1 = new(5)
    note c = addOrder_contract [OF level_rep_new new(3), simplified]
    have fresh: "?la \<notin> levels_of ob"
      using ladder_ok_level(1) [OF inv [unfolded ladder_inv_def]] by (fastforce simp: levels_of_book)
    have lev: "levels_of ?ob1 = insert ?la (levels_of ob)"
      using new(1) by (auto simp: levels_of_two [of _ d] frame_simps)
    have pl: "placed ord ?la n ob G ?ob1 ?G"
      using c(3,5,6) lev fresh by (auto simp: placed_def order_at_def level_price_def frame_simps)
    have p1: "level_price ?ob1 ?la = oPrice ord"
      using c(2) by (simp add: level_price_def frame_simps new_level_def)
    have b12: "set b1 \<subseteq> levels_of ob" "set b2 \<subseteq> levels_of ob"
      using new(1) levels_of_in [of _ d ob] by auto
    then have nb: "?la \<notin> set b1" "?la \<notin> set b2" using fresh by auto
    have row: "map (order_at ?ob1) (?G ?la) = [ord]" using placed_new [OF pl] by simp
    have v: "view d ob = map (rung ob G) b1 @ map (rung ob G) b2"
      by (simp add: view_ghost [OF wg] gview_def new(1))
    have v0: "view d ?ob1 = map (rung ob G) b1 @ (oPrice ord, [ord]) # map (rung ob G) b2"
      unfolding view_ghost [OF wg1] placed_rungs [OF pl wg b12(1) nb(1), symmetric]
        placed_rungs [OF pl wg b12(2) nb(2), symmetric] row [symmetric] p1 [symmetric]
      by (rule gview_split) (simp add: frame_simps)
    have v1: "view d ?ob1 = lad_insert d ord (view d ob)"
      using sorted_split [OF view_sorted [OF wg1, of d, unfolded v0]]
      unfolding v v0 by (intro lad_insert_new [symmetric])
    have add: "Add ord ob = (Some n, emitDelta (side_of d) (oPrice ord) (lvTotal e) ?ob1)"
      using new(4) by (simp add: Add_side [OF side])
    have q: "lvTotal e = volumes (map (order_at ?ob1) (?G ?la))" unfolding row using c(9) by simp
    show thesis
      by (rule placed_finish [OF pl wg wg1 ne _ _ p1 add q v1])
        (use finish in \<open>simp_all add: frame_simps\<close>)
  qed
qed

section \<open>Looking up\<close>

lemma ghost_unique:
  assumes ix: "ghost_indexed ob G" and "la \<in> levels_of ob" "n \<in> set (G la)"
    and "lb \<in> levels_of ob" "x \<in> set (G lb)" and "oID (order_at ob x) = oID (order_at ob n)"
  shows "x = n"
  using assms unfolding ghost_indexed_def by (metis option.inject)

lemma resting_view: "x \<in> set (resting ob) \<longleftrightarrow> (\<exists>d p os. (p, os) \<in> set (view d ob) \<and> x \<in> set os)"
proof -
  have "(\<exists>d. P d) \<longleftrightarrow> P True \<or> P False" for P by (metis (full_types))
  then show ?thesis by (force simp: resting_def)
qed

lemma resting_node:
  assumes wf: "wf_ghost ob G"
  shows "x \<in> set (resting ob) \<longleftrightarrow> (\<exists>la \<in> levels_of ob. \<exists>n \<in> set (G la). x = order_at ob n)"
proof -
  have "x \<in> set (resting ob) \<longleftrightarrow> (\<exists>d. \<exists>la \<in> set (book_of d ob). x \<in> set (map (order_at ob) (G la)))"
    unfolding resting_view view_ghost [OF wf] gview_def set_map [of "rung ob G"] by blast
  then show ?thesis unfolding levels_of_book by auto
qed

lemma LookupOrder_resting:
  assumes wf: "wf_ghost ob G" and l: "LookupOrder i ob = Some x"
  shows "x \<in> set (resting ob)" and "oID x = i"
proof -
  obtain n where n: "obIndex ob i = Some n" "x = order_at ob n"
    using l by (auto simp: LookupOrder_def split: option.splits)
  from index_okD [OF wf n(1)] show "x \<in> set (resting ob)" "oID x = i"
    unfolding resting_node [OF wf] n(2) by blast+
qed

lemma resting_LookupOrder:
  assumes wf: "book_wf ob" and ix: "book_indexed ob" and x: "x \<in> set (resting ob)"
  shows "LookupOrder (oID x) ob = Some x"
proof -
  from x obtain la n where "la \<in> levels_of ob" "n \<in> set (level_nodes ob la)" "x = order_at ob n"
    unfolding resting_node [OF book_wf_ghost [OF wf]] by blast
  then have "obIndex ob (oID x) = Some n" using ix by (simp add: book_indexed_def)
  then show ?thesis using \<open>x = _\<close> by (simp add: LookupOrder_def)
qed

section \<open>Cancelling\<close>

lemma lad_remove_append: "lad_remove i (a @ b) = lad_remove i a @ lad_remove i b"
  by (simp add: lad_remove_def)

definition avoids :: "order_id \<Rightarrow> ladder \<Rightarrow> bool" where
  "avoids i lad \<longleftrightarrow> (\<forall>e \<in> set lad. snd e \<noteq> [] \<and> i \<notin> oID ` set (snd e))"

lemma lad_remove_other: "avoids i lad \<Longrightarrow> lad_remove i lad = lad"
proof (induction lad)
  case (Cons e lad)
  then have "filter (\<lambda>x. oID x \<noteq> i) (snd e) = snd e"
    by (auto simp: avoids_def filter_id_conv)
  then show ?case using Cons by (cases e) (simp add: lad_remove_def avoids_def)
qed (simp add: lad_remove_def)

lemma lad_remove_one:
  assumes "avoids i v1" "avoids i v2" and "i \<notin> oID ` set (xs @ ys)" and "oID y = i"
  shows "lad_remove i (v1 @ (p, xs @ y # ys) # v2) =
    v1 @ (if xs @ ys = [] then [] else [(p, xs @ ys)]) @ v2"
proof -
  have "filter (\<lambda>x. oID x \<noteq> i) (xs @ ys) = xs @ ys"
    unfolding filter_id_conv using assms(3) by auto
  then have "filter (\<lambda>x. oID x \<noteq> i) (xs @ y # ys) = xs @ ys"
    using assms(4) by simp
  then have "lad_remove i [(p, xs @ y # ys)] = (if xs @ ys = [] then [] else [(p, xs @ ys)])"
    by (simp add: lad_remove_def)
  moreover have "lad_remove i v1 = v1" "lad_remove i v2 = v2"
    using assms(1,2) lad_remove_other by blast+
  ultimately show ?thesis
    using lad_remove_append [of i v1 "[(p, xs @ y # ys)] @ v2"]
      lad_remove_append [of i "[(p, xs @ y # ys)]" v2] by simp
qed

lemma unlink_rungs:
  assumes "wf_ghost ob G" "la \<in> set (book_of d ob)" "G la = as @ n # bs" and "la \<notin> set b"
  shows "map (rung (unlink la n ob) (G(la := as @ bs))) b = map (rung ob G) b"
  using unlink_contract(2,3) [OF assms(1-3)] assms(4) by (intro rungs_cong) auto

lemma rungs_avoid:
  assumes ix: "ghost_indexed ob G" and n: "la \<in> levels_of ob" "n \<in> set (G la)"
    and ne: "\<And>lb. lb \<in> levels_of ob \<Longrightarrow> G lb \<noteq> []"
    and b: "set b \<subseteq> levels_of ob" and "\<And>lb. lb \<in> set b \<Longrightarrow> n \<notin> set (G lb)"
  shows "avoids (oID (order_at ob n)) (map (rung ob G) b)"
  unfolding avoids_def
proof
  fix e assume "e \<in> set (map (rung ob G) b)"
  then obtain lb where lb: "lb \<in> set b" "snd e = map (order_at ob) (G lb)" by auto
  then have lv: "lb \<in> levels_of ob" and nin: "n \<notin> set (G lb)" using b assms(6) by auto
  have "oID (order_at ob x) \<noteq> oID (order_at ob n)" if "x \<in> set (G lb)" for x
    using ghost_unique [OF ix n lv that] that nin by blast
  then show "snd e \<noteq> [] \<and> oID (order_at ob n) \<notin> oID ` set (snd e)"
    using ne [OF lv] lb(2) by (auto dest: sym)
qed

lemma Cancel_refines:
  assumes wf: "book_wf ob" and ix: "book_indexed ob" and l: "LookupOrder i ob = Some x"
  obtains d ob' where "Cancel i ob = (None, ob')" "book_wf ob'" "book_indexed ob'"
    "\<And>d'. view d' ob' = lad_remove i (view d' ob)" "oSide x = side_of d"
    "published d (oPrice x) ob ob'" "obIndex ob' = (obIndex ob)(i := None)"
proof -
  define G where "G = level_nodes ob"
  have wg: "wf_ghost ob G" and ne: "\<And>la. la \<in> levels_of ob \<Longrightarrow> G la \<noteq> []"
    using wf by (auto simp: book_wf_def G_def)
  have gi: "ghost_indexed ob G" using ix ghost_indexed_iff [OF wg] by simp
  obtain n where n: "obIndex ob i = Some n" "x = order_at ob n"
    using l by (auto simp: LookupOrder_def split: option.splits)
  from wg n(1) show thesis
  proof (cases rule: Cancel_cases)
    case (1 d la as bs b1 b2 ob1)
    note lv = levels_of_in [OF 1(2)]
    note u = unlink_contract [OF wg 1(2,3)]
    have nG: "n \<in> set (G la)" using 1(3) by simp
    have nb: "la \<notin> set b1" "la \<notin> set b2" "la \<notin> set (book_of (\<not> d) ob)"
      using ladder_distinct(1) [OF wf_ghost_ladder [OF wg], of d] 1(1,2) wf_disjoint [OF wg, of d] by auto
    have av: "avoids i (map (rung ob G) b)"
      if "set b \<subseteq> levels_of ob" "la \<notin> set b" for b
      using that wf_node_alloc [OF wg, of _ n] wf_node_alloc [OF wg lv nG] 1(4)
      by (intro rungs_avoid [OF gi lv nG ne, of b, unfolded 1(4)]) auto
    have b12: "set b1 \<subseteq> levels_of ob" "set b2 \<subseteq> levels_of ob" "set (book_of (\<not> d) ob) \<subseteq> levels_of ob"
      using 1(1) by (auto simp: levels_of_two [of _ d])
    let ?ob2 = "unlink la n ob" and ?G = "G(la := as @ bs)"
    note same = unlink_rungs [OF wg 1(2,3)]
    have rest: "i \<notin> oID ` set (map (order_at ob) as @ map (order_at ob) bs)"
    proof -
      have "n \<notin> set (as @ bs)" using 1(3) level_rep_distinct [OF wf_ghost_nodes(2) [OF wg lv]] by auto
      then have "oID (order_at ob y) \<noteq> i" if "y \<in> set (as @ bs)" for y
        using ghost_unique [OF gi lv nG lv, of y] 1(3,4) that by auto
      then show ?thesis by auto
    qed
    have at: "order_at ?ob2 = order_at ob" using u(2) by auto
    have row: "map (order_at ob) (G la) = map (order_at ob) as @ x # map (order_at ob) bs"
      using 1(3) n(2) by simp
    have v: "view d ob = map (rung ob G) b1 @ (level_price ob la, map (order_at ob) as @ x # map (order_at ob) bs)
        # map (rung ob G) b2"
      unfolding view_ghost [OF wg] gview_split [OF 1(1)] row ..
    have px: "oPrice x = level_price ob la" and sx: "oSide x = side_of d"
      using view_order [OF wg, of "level_price ob la" "map (order_at ob) as @ x # map (order_at ob) bs" d x] v
      by simp_all
    have rm: "lad_remove i (view d ob) = map (rung ob G) b1 @
        (if as @ bs = [] then [] else [(level_price ob la, map (order_at ob) (as @ bs))]) @ map (rung ob G) b2"
      unfolding v lad_remove_one [OF av [OF b12(1) nb(1)] av [OF b12(2) nb(2)] rest 1(4) [folded n(2)]]
      by simp
    have wg1: "wf_ghost ob1 ?G" by (rule 1(6))
    have rungs: "map (rung ob1 ?G) b = map (rung ob G) b" if "la \<notin> set b" for b
    proof -
      have "level_price ob1 = level_price ?ob2" "order_at ob1 = order_at ?ob2"
        unfolding 1(5) by (auto simp: frame_simps)
      then show ?thesis using same [OF that] by (simp only:)
    qed
    have vd: "view d ob1 = lad_remove i (view d ob)"
    proof (cases "as @ bs = []")
      case True
      then have "book_of d ob1 = b1 @ b2" by (simp add: 1(5) frame_simps)
      then show ?thesis unfolding rm view_ghost [OF wg1] gview_def
        using rungs [OF nb(1)] rungs [OF nb(2)] True by simp
    next
      case False
      then have eq: "ob1 = ?ob2" unfolding 1(5) by (simp only: if_False)
      have "book_of d ?ob2 = b1 @ la # b2" using 1(1) by (simp add: frame_simps)
      then show ?thesis unfolding rm eq view_ghost [OF u(1)] gview_def
        using same [OF nb(1)] same [OF nb(2)] False u(3) at by simp
    qed
    have vo: "view (\<not> d) ob1 = lad_remove i (view (\<not> d) ob)"
    proof -
      have bk: "book_of (\<not> d) ob1 = book_of (\<not> d) ob" by (simp add: 1(5) frame_simps)
      show ?thesis
        unfolding view_ghost [OF wg] view_ghost [OF wg1] gview_def bk rungs [OF nb(3)]
          lad_remove_other [OF av [OF b12(3) nb(3)]] ..
    qed
    let ?q = "volumes (map (order_at ob) (as @ bs))"
    have qt: "?q = qty_at (view d ob1) (oPrice x)"
    proof (cases "as @ bs = []")
      case True
      then show ?thesis unfolding vd rm px
        using qty_at_split(2) [OF view_sorted [OF wg, of d, unfolded v]] by simp
    next
      case False
      have "sorted_wrt (better d) (map fst (view d ob1))" by (rule view_sorted [OF wg1])
      then show ?thesis unfolding vd rm px
        using False qty_at_split(1) by (simp only: if_False append_Cons append_Nil simp_thms if_True)
    qed
    let ?e = "emitDelta (side_of d) (oPrice x) ?q ob1"
    have lv1: "levels_of ob1 = (if as @ bs = [] then levels_of ob - {la} else levels_of ob)"
      using levels_of_drop [OF u(1), of d b1 la b2] 1(1) by (simp add: 1(5) frame_simps)
    have "book_of d ?ob2 = b1 @ la # b2" using 1(1) by (simp add: frame_simps)
    then have gi1: "ghost_indexed ob1 ?G"
      using unlink_indexed [OF wg 1(2,3) gi] drop_level_indexed [OF u(1)]
      unfolding 1(5) by (split if_split) blast
    show thesis
    proof (rule that)
      show "Cancel i ob = (None, ?e)" unfolding px by (rule 1(7))
      show "book_wf ?e" using wg1 lv1 ne by (intro book_wfI [of _ ?G]) (auto split: if_splits)
      show "book_indexed ?e" using gi1 wg1 by (simp add: ghost_indexed_iff [of _ ?G])
      show "view d' ?e = lad_remove i (view d' ob)" for d'
        using vd vo by (cases "d' = d") (auto simp: view_emitDelta)
      show "oSide x = side_of d" by (rule sx)
      show "published d (oPrice x) ob ?e"
        using qt by (intro published_emitDelta) (simp_all add: 1(5) frame_simps)
      show "obIndex ?e = (obIndex ob)(i := None)" using 1(4) by (simp add: 1(5) frame_simps)
    qed
  qed
qed

section \<open>Shrinking an order in place\<close>

lemma resize_other:
  "avoids i (map (rung ob G) b) \<Longrightarrow> lad_resize i v (map (rung ob G) b) = map (rung ob G) b"
  by (auto simp: avoids_def lad_resize_def resize_def)

lemma lad_resize_simps [simp]:
  "lad_resize i v [] = []" "lad_resize i v (e # l) = (fst e, map (resize i v) (snd e)) # lad_resize i v l"
  "lad_resize i v (l1 @ l2) = lad_resize i v l1 @ lad_resize i v l2"
  by (simp_all add: lad_resize_def case_prod_beta)

lemma ReduceVolume_refines:
  assumes wf: "book_wf ob" and ix: "book_indexed ob" and l: "LookupOrder i ob = Some x"
    and v: "v \<noteq> 0" "v < oVolume x"
  obtains d ob' where "ReduceVolume i v ob = (None, ob')" "book_wf ob'" "book_indexed ob'"
    "\<And>d'. view d' ob' = lad_resize i v (view d' ob)" "oSide x = side_of d"
    "published d (oPrice x) ob ob'" "obIndex ob' = obIndex ob"
proof -
  define G where "G = level_nodes ob"
  have wg: "wf_ghost ob G" and ne: "\<And>la. la \<in> levels_of ob \<Longrightarrow> G la \<noteq> []"
    using wf by (auto simp: book_wf_def G_def)
  have gi: "ghost_indexed ob G" using ix ghost_indexed_iff [OF wg] by simp
  obtain n where n: "obIndex ob i = Some n" "x = order_at ob n"
    using l by (auto simp: LookupOrder_def split: option.splits)
  from wg n(1) v(1) v(2) [unfolded n(2)] show thesis
  proof (cases rule: ReduceVolume_cases)
    case (1 d la as bs b1 b2)
    let ?ob1 = "revolume la n v ob"
    note lv = levels_of_in [OF 1(2)]
    note u = revolume_contract [OF wg 1(2,3), of v]
    note wg1 = u(1)
    have nG: "n \<in> set (G la)" using 1(3) by simp
    have at: "order_at ?ob1 y = resize i v (order_at ob y)" if "lb \<in> levels_of ob" "y \<in> set (G lb)" for lb y
    proof -
      have "oID (order_at ob y) = i \<longleftrightarrow> y = n" using ghost_unique [OF gi lv nG that] 1(4) by metis
      then show ?thesis using u(2) [of y] by (simp add: resize_def)
    qed
    have rows: "lad_resize i v (map (rung ob G) b) = map (rung ?ob1 G) b" if "set b \<subseteq> levels_of ob" for b
    proof -
      have "map (resize i v) (map (order_at ob) (G lb)) = map (order_at ?ob1) (G lb)" if "lb \<in> set b" for lb
      proof -
        have "lb \<in> levels_of ob" using \<open>set b \<subseteq> levels_of ob\<close> that by blast
        then show ?thesis using at [of lb] unfolding map_map by (intro map_cong) simp_all
      qed
      then show ?thesis using u(3) unfolding lad_resize_def by (simp add: case_prod_beta)
    qed
    have vw: "view d' ?ob1 = lad_resize i v (view d' ob)" for d'
    proof -
      have "set (book_of d' ob) \<subseteq> levels_of ob" by (auto dest: levels_of_in)
      moreover have "book_of d' ?ob1 = book_of d' ob" by (simp add: frame_simps)
      ultimately show ?thesis
        unfolding view_ghost [OF wg] view_ghost [OF wg1] gview_def using rows by simp
    qed
    have la1: "la \<in> set (book_of d ?ob1)" using 1(2) by (simp add: frame_simps)
    have px: "oPrice x = level_price ob la" and sx: "oSide x = side_of d"
      using view_order [OF wg, of "level_price ob la" "map (order_at ob) (G la)" d x] 1(2) n(2) nG
      by (auto simp: view_ghost [OF wg] gview_def)
    let ?q = "volumes (map (order_at ?ob1) (G la))"
    have q: "?q = qty_at (view d ?ob1) (oPrice x)"
      using view_level_qty [OF wg1 la1] px u(3) by simp
    let ?e = "emitDelta (side_of d) (oPrice x) ?q ?ob1"
    show thesis
    proof (rule that)
      show "ReduceVolume i v ob = (None, ?e)" unfolding px by (rule 1(6))
      show "book_wf ?e" using wg1 ne by (intro book_wfI [of _ G]) auto
      show "book_indexed ?e"
        using revolume_indexed [OF wg 1(2,3) gi] wg1 by (simp add: ghost_indexed_iff [of _ G])
      show "view d' ?e = lad_resize i v (view d' ob)" for d' using vw by simp
      show "oSide x = side_of d" by (rule sx)
      show "published d (oPrice x) ob ?e" using q by (intro published_emitDelta) (simp_all add: frame_simps)
      show "obIndex ?e = obIndex ob" by (simp add: frame_simps)
    qed
  qed
qed

end
