(* ===== verification/MatchSpec.thy ===== *)
theory MatchSpec
  imports Matching BookSpec
begin

text \<open>
  What matching promises: structural recursion over the queue of one level and
  over the ladder, with the events of the run (trades and depth updates) in the
  order in which they take their sequence numbers.
\<close>

datatype event = Trade match | Depth book_delta

fun trades :: "event list \<Rightarrow> match list" where
  "trades [] = []"
| "trades (Trade m # es) = m # trades es"
| "trades (Depth dl # es) = trades es"

fun depths :: "event list \<Rightarrow> book_delta list" where
  "depths [] = []"
| "depths (Trade m # es) = depths es"
| "depths (Depth dl # es) = dl # depths es"

fun event_seq :: "event \<Rightarrow> uint64" where
  "event_seq (Trade m) = mSeq m"
| "event_seq (Depth dl) = dSeq dl"

lemma trades_append [simp]: "trades (a @ b) = trades a @ trades b"
  by (induction a rule: trades.induct) simp_all

lemma depths_append [simp]: "depths (a @ b) = depths a @ depths b"
  by (induction a rule: depths.induct) simp_all

lemma trades_map [simp]: "trades (map Trade ms) = ms" "depths (map Trade ms) = []"
  by (induction ms) simp_all

section \<open>One level\<close>

text \<open>
  The result is the trades, the remainder, whether the level's total changed, the
  sequence counter and the queue left over.
\<close>

fun queue_fill ::
  "order \<Rightarrow> bool \<Rightarrow> px \<Rightarrow> uint64 \<Rightarrow> qty \<Rightarrow> bool \<Rightarrow> order list
   \<Rightarrow> match list \<times> qty \<times> bool \<times> uint64 \<times> order list" where
  "queue_fill t stp p sq rem ch [] = ([], rem, ch, sq, [])"
| "queue_fill t stp p sq rem ch (r # rs) =
     (if \<not> 0 < rem then ([], rem, ch, sq, r # rs)
      else if stp \<and> oUserID r = oUserID t then
        (if oSTP t = STPCancelResting then
           queue_fill t stp p sq rem (ch \<or> oVolume r \<noteq> 0) rs
         else if oSTP t = STPCancelBoth then ([], 0, ch \<or> oVolume r \<noteq> 0, sq, rs)
         else if oSTP t = STPDecrement then
           (if oVolume r \<le> rem
            then queue_fill t stp p sq (rem - oVolume r) (ch \<or> oVolume r \<noteq> 0) rs
            else ([], 0, True, sq, r\<lparr>oVolume := oVolume r - rem\<rparr> # rs))
         else ([], 0, ch, sq, r # rs))
      else
        (if oVolume r \<le> rem then
           (case queue_fill t stp p (sq + 1) (rem - oVolume r) True rs of (ms, x) \<Rightarrow>
              ((makeMatch t r p (oVolume r))\<lparr>mSeq := sq + 1\<rparr> # ms, x))
         else ([(makeMatch t r p rem)\<lparr>mSeq := sq + 1\<rparr>], 0, True, sq + 1,
               r\<lparr>oVolume := oVolume r - rem\<rparr> # rs)))"

text \<open>A queue is left over only when the taker has nothing left.\<close>

lemma queue_fill_rest:
  "queue_fill t stp p sq rem ch os = (ms, rem', ch', sq', os') \<Longrightarrow> os' \<noteq> [] \<Longrightarrow> \<not> 0 < rem'"
  by (induction t stp p sq rem ch os arbitrary: ms rule: queue_fill.induct)
    (auto split: if_splits prod.splits)

section \<open>The ladder\<close>

definition depth_event :: "bool \<Rightarrow> string \<Rightarrow> bool \<Rightarrow> px \<Rightarrow> uint64 \<Rightarrow> order list \<Rightarrow> event list" where
  "depth_event emit smb d p sq os =
     (if emit then [Depth \<lparr>dSeq = sq + 1, dSymbol = smb, dSide = side_of d, dPrice = p,
                           dQty = volumes os\<rparr>] else [])"

fun ladder_fill ::
  "order \<Rightarrow> bool \<Rightarrow> bool \<Rightarrow> bool \<Rightarrow> string \<Rightarrow> bool \<Rightarrow> uint64 \<Rightarrow> qty \<Rightarrow> ladder
   \<Rightarrow> event list \<times> qty \<times> uint64 \<times> ladder" where
  "ladder_fill t ac stp l2 smb d sq rem [] = ([], rem, sq, [])"
| "ladder_fill t ac stp l2 smb d sq rem ((p, os) # lad) =
     (if \<not> 0 < rem \<or> \<not> ac \<and> \<not> crosses t p then ([], rem, sq, (p, os) # lad)
      else case queue_fill t stp p sq rem False os of (ms, rem1, ch, sq1, os1) \<Rightarrow>
        let emit = (l2 \<and> ch);
            es = map Trade ms @ depth_event emit smb d p sq1 os1;
            sq2 = (if emit then sq1 + 1 else sq1)
        in if os1 = []
           then (case ladder_fill t ac stp l2 smb d sq2 rem1 lad of (es', x) \<Rightarrow> (es @ es', x))
           else (es, rem1, sq2, (p, os1) # lad))"

lemma trades_depth_event [simp]: "trades (depth_event emit smb d p sq os) = []"
  by (simp add: depth_event_def)

text \<open>The three ways to treat the front level: stop, go through it, end within it.\<close>

lemma ladder_fill_step:
  assumes run: "ladder_fill t ac stp l2 smb d sq rem ((p, os) # lad) = (es, rem', sq', lad')"
  obtains (stop) "\<not> 0 < rem \<or> \<not> ac \<and> \<not> crosses t p" "es = []" "rem' = rem" "sq' = sq" "lad' = (p, os) # lad"
    | (through) ms rem1 ch sq1 es' where "0 < rem" "ac \<or> crosses t p"
      "queue_fill t stp p sq rem False os = (ms, rem1, ch, sq1, [])"
      "ladder_fill t ac stp l2 smb d (if l2 \<and> ch then sq1 + 1 else sq1) rem1 lad = (es', rem', sq', lad')"
      "es = map Trade ms @ depth_event (l2 \<and> ch) smb d p sq1 [] @ es'"
    | (within) ms ch sq1 os1 where "0 < rem" "ac \<or> crosses t p"
      "queue_fill t stp p sq rem False os = (ms, rem', ch, sq1, os1)" "os1 \<noteq> []" "\<not> 0 < rem'"
      "es = map Trade ms @ depth_event (l2 \<and> ch) smb d p sq1 os1"
      "sq' = (if l2 \<and> ch then sq1 + 1 else sq1)" "lad' = (p, os1) # lad"
proof (cases "\<not> 0 < rem \<or> \<not> ac \<and> \<not> crosses t p")
  case True
  have "([], rem, sq, (p, os) # lad) = (es, rem', sq', lad')"
    using run unfolding ladder_fill.simps(2) if_P [OF True] .
  then show ?thesis using True by (intro stop) auto
next
  case False
  then have go: "0 < rem" "ac \<or> crosses t p" by auto
  obtain ms rem1 ch sq1 os1 where q: "queue_fill t stp p sq rem False os = (ms, rem1, ch, sq1, os1)"
    by (metis prod_cases5)
  note run1 = run [unfolded ladder_fill.simps(2) if_not_P [OF False] q prod.case Let_def]
  show ?thesis
  proof (cases "os1 = []")
    case True
    obtain es' x where k: "ladder_fill t ac stp l2 smb d (if l2 \<and> ch then sq1 + 1 else sq1) rem1 lad = (es', x)"
      by (metis surj_pair)
    have "((map Trade ms @ depth_event (l2 \<and> ch) smb d p sq1 os1) @ es', x) = (es, rem', sq', lad')"
      using run1 unfolding if_P [OF True] k prod.case .
    then have "x = (rem', sq', lad')" "es = map Trade ms @ depth_event (l2 \<and> ch) smb d p sq1 [] @ es'"
      by (auto simp: True)
    then show ?thesis using k by (intro through [OF go q [unfolded True]]) simp_all
  next
    case nonempty: False
    note res = run1 [unfolded if_not_P [OF nonempty]]
    then have eq: "rem1 = rem'" by simp
    show ?thesis
      using res queue_fill_rest [OF q nonempty] by (intro within [OF go q [unfolded eq] nonempty]) simp_all
  qed
qed

section \<open>Steps inside one level\<close>

text \<open>
  What filling may do to the book before the level is published: consume its queue
  and the sequence numbers, nothing else.
\<close>

definition level_step ::
  "laddr \<Rightarrow> orderbook \<Rightarrow> (laddr \<Rightarrow> naddr list) \<Rightarrow> orderbook \<Rightarrow> (laddr \<Rightarrow> naddr list) \<Rightarrow> bool" where
  "level_step la ob G ob' G' \<longleftrightarrow>
     wf_ghost ob' G' \<and> (\<forall>lb. lb \<noteq> la \<longrightarrow> G' lb = G lb) \<and> set (G' la) \<subseteq> set (G la) \<and>
     (\<forall>d. book_of d ob' = book_of d ob) \<and> level_price ob' = level_price ob \<and>
     (\<forall>x. x \<notin> set (G la) \<longrightarrow> order_at ob' x = order_at ob x) \<and>
     (ghost_indexed ob G \<longrightarrow> ghost_indexed ob' G') \<and> obIndex ob' \<subseteq>\<^sub>m obIndex ob \<and>
     obL2 ob' = obL2 ob \<and> obSymbol ob' = obSymbol ob \<and> obConditional ob' = obConditional ob \<and>
     obDeltas ob' = obDeltas ob"

lemma level_step_trans:
  assumes "level_step la a G b H" and "level_step la b H c K"
  shows "level_step la a G c K"
  using assms unfolding level_step_def by (auto intro: map_le_trans)

lemma level_step_refl: "wf_ghost ob G \<Longrightarrow> level_step la ob G ob G"
  by (simp add: level_step_def)

lemma level_step_wf: "level_step la ob G ob' G' \<Longrightarrow> wf_ghost ob' G'"
  by (simp add: level_step_def)

lemma seq_frame [frame_simps]:
  "book_of d (ob\<lparr>obSeq := k\<rparr>) = book_of d ob" "by_price d (ob\<lparr>obSeq := k\<rparr>) = by_price d ob"
  "level_price (ob\<lparr>obSeq := k\<rparr>) la = level_price ob la" "order_at (ob\<lparr>obSeq := k\<rparr>) n = order_at ob n"
  "levels_of (ob\<lparr>obSeq := k\<rparr>) = levels_of ob" "level_at la (ob\<lparr>obSeq := k\<rparr>) = level_at la ob"
  by (simp_all add: book_of_def by_price_def level_price_def order_at_def levels_of_def level_at_def)

lemma level_step_seq:
  assumes "wf_ghost ob G" shows "level_step la ob G (ob\<lparr>obSeq := k\<rparr>) G"
proof -
  have "wf_ghost (ob\<lparr>obSeq := k\<rparr>) G"
    using assms by (simp add: wf_ghost_def ladder_inv_def index_ok_def frame_simps)
  then show ?thesis by (auto simp: level_step_def frame_simps ghost_indexed_def)
qed

lemma level_step_unlink:
  assumes "wf_ghost ob G" "la \<in> set (book_of d ob)" "G la = n # bs"
  shows "level_step la ob G (take_resting n la ob) (G(la := bs))"
    and "order_at (take_resting n la ob) = order_at ob"
    and "lvTotal (obLevels (take_resting n la ob) la) = lvTotal (obLevels ob la) - oVolume (order_at ob n)"
    and "obSeq (take_resting n la ob) = obSeq ob"
proof -
  have eq: "take_resting n la ob = unlink la n ob" by (simp add: take_resting_def unlink_def)
  have G: "G la = [] @ n # bs" using assms(3) by simp
  note u = unlink_contract [OF assms(1,2) G]
  show "order_at (take_resting n la ob) = order_at ob"
    "lvTotal (obLevels (take_resting n la ob) la) = lvTotal (obLevels ob la) - oVolume (order_at ob n)"
    "obSeq (take_resting n la ob) = obSeq ob"
    using u(2,5) by (auto simp: eq frame_simps)
  show "level_step la ob G (take_resting n la ob) (G(la := bs))"
    using u(1,2,3) unlink_indexed [OF assms(1,2) G] assms(3)
    by (auto simp: level_step_def eq frame_simps map_le_def)
qed

lemma level_step_reduce:
  assumes "wf_ghost ob G" "la \<in> set (book_of d ob)" "G la = n # bs"
  obtains ob' where "reduce_front f la ob = Some ob'" "level_step la ob G ob' G"
    and "\<forall>x. order_at ob' x = (if x = n then (order_at ob n)\<lparr>oVolume := oVolume (order_at ob n) - f\<rparr>
      else order_at ob x)"
    and "lvTotal (obLevels ob' la) = lvTotal (obLevels ob la) - f" "obSeq ob' = obSeq ob"
proof -
  let ?ob' = "revolume la n (oVolume (order_at ob n) - f) ob"
  have G: "G la = [] @ n # bs" using assms(3) by simp
  note u = revolume_contract [OF assms(1,2) G, of "oVolume (order_at ob n) - f"]
  have r: "level_rep la (obNodes ob) (obLevels ob la) (n # bs)"
    using wf_ghost_nodes(2) [OF assms(1) levels_of_in [OF assms(2)]] assms(3) by simp
  show ?thesis
  proof
    show "reduce_front f la ob = Some ?ob'"
      using reduceHead_eq [OF r] by (simp add: reduce_front_def level_at_def revolume_def order_at_def)
    show "level_step la ob G ?ob' G"
      using u(1,2,3) revolume_indexed [OF assms(1,2) G] assms(3)
      by (auto simp: level_step_def frame_simps)
  qed (use u(2,4) in \<open>simp_all add: frame_simps\<close>)
qed

end
