(* ===== verification/MatchRefine.thy ===== *)
theory MatchRefine
  imports MatchSpec
begin

text \<open>
  The code's matching loop is the structural one: it returns on every well-formed
  book, with the same trades, remainder, published depth and ladder.
\<close>

section \<open>One level\<close>

lemma fill_level_empty:
  assumes "list_Head (lvOrders (obLevels ob la)) = None"
  shows "fill_level t stp la ms rem ch ob = Some (ms, rem, ch, ob)"
  by (subst fill_level.simps) (simp add: assms)

lemma fill_level_stop: "\<not> 0 < rem \<Longrightarrow> fill_level t stp la ms rem ch ob = Some (ms, rem, ch, ob)"
  by (subst fill_level.simps) (simp add: px_qty_simps)

lemma fill_level_trade:
  assumes "0 < rem" and "list_Head (lvOrders (obLevels ob la)) = Some n"
    and "\<not> (stp \<and> oUserID (order_at ob n) = oUserID t)"
    and r: "r = order_at ob n" and f: "f = MinQty rem (oVolume r)"
  shows "fill_level t stp la ms rem ch ob =
    (let ob1 = ob\<lparr>obSeq := obSeq ob + 1\<rparr>;
         m = (makeMatch t r (level_price ob la) f)\<lparr>mSeq := obSeq ob + 1\<rparr>
     in case (if f = oVolume r then Some (take_resting n la ob1) else reduce_front f la ob1) of
          None \<Rightarrow> None
        | Some ob2 \<Rightarrow> fill_level t stp la (ms @ [m]) (rem - f) True ob2)"
  unfolding r f
  by (subst fill_level.simps)
    (use assms(1-3) in \<open>auto simp: px_qty_simps NextSeq_def Let_def split: option.splits bind_split\<close>)

lemma fill_level_stp:
  assumes "0 < rem" and "list_Head (lvOrders (obLevels ob la)) = Some n"
    and "stp \<and> oUserID (order_at ob n) = oUserID t"
    and "applySTP (oSTP t) rem n la ob = Some (fin, rem1, ob1)"
    and "ch1 = (ch \<or> lvTotal (obLevels ob1 la) \<noteq> lvTotal (obLevels ob la))"
  shows "fill_level t stp la ms rem ch ob =
    (if fin then Some (ms, rem1, ch1, ob1) else fill_level t stp la ms rem1 ch1 ob1)"
  by (subst fill_level.simps) (simp add: assms px_qty_simps Let_def)

text \<open>The statement of the refinement, one level.\<close>

definition fills ::
  "order \<Rightarrow> bool \<Rightarrow> laddr \<Rightarrow> orderbook \<Rightarrow> (laddr \<Rightarrow> naddr list) \<Rightarrow> match list \<Rightarrow> qty \<Rightarrow> bool
   \<Rightarrow> match list \<times> qty \<times> bool \<times> uint64 \<times> order list \<Rightarrow> bool" where
  "fills t stp la ob G matches rem ch res \<longleftrightarrow>
     (case res of (ms, rem', ch', sq', os') \<Rightarrow>
       \<exists>ob' G'. fill_level t stp la matches rem ch ob = Some (matches @ ms, rem', ch', ob') \<and>
         level_step la ob G ob' G' \<and> map (order_at ob') (G' la) = os' \<and> obSeq ob' = sq')"

lemma fills_now:
  assumes "fill_level t stp la matches rem ch ob = Some (matches, rem', ch', ob')"
    and "level_step la ob G ob' G'"
  shows "fills t stp la ob G matches rem ch ([], rem', ch', obSeq ob', map (order_at ob') (G' la))"
  using assms by (auto simp: fills_def)

lemma fills_continue:
  assumes "fill_level t stp la matches rem ch ob = fill_level t stp la (matches @ ms0) rem1 ch1 ob1"
    and "level_step la ob G ob1 G1" and "fills t stp la ob1 G1 (matches @ ms0) rem1 ch1 (ms, x)"
  shows "fills t stp la ob G matches rem ch (ms0 @ ms, x)"
proof -
  obtain rem' ch' sq' os' where x: "x = (rem', ch', sq', os')" by (metis prod_cases4)
  from assms(3) obtain ob' G' where
    "fill_level t stp la (matches @ ms0) rem1 ch1 ob1 = Some ((matches @ ms0) @ ms, rem', ch', ob')"
    "level_step la ob1 G1 ob' G'" "map (order_at ob') (G' la) = os'" "obSeq ob' = sq'"
    unfolding fills_def x by auto
  then show ?thesis
    unfolding fills_def x using assms(1) level_step_trans [OF assms(2)] by auto
qed

lemma MinQty_cases: "MinQty a b = (if b \<le> a then b else a)"
  by (auto simp: MinQty_min min_def)

lemma queue_fill_done: "\<not> 0 < rem \<Longrightarrow> queue_fill t stp p sq rem ch os = ([], rem, ch, sq, os)"
  by (cases os) simp_all

text \<open>The two ways to consume the head: completely, or up to the taker's remainder.\<close>

lemma reduce_head:
  assumes wf: "wf_ghost ob G" and la: "la \<in> set (book_of d ob)" and G: "G la = n # bs"
  obtains ob1 where "reduce_front f la ob = Some ob1" "obSeq ob1 = obSeq ob"
    "lvTotal (obLevels ob1 la) = lvTotal (obLevels ob la) - f" "level_step la ob G ob1 G"
    "map (order_at ob1) (n # bs) =
      (order_at ob n)\<lparr>oVolume := oVolume (order_at ob n) - f\<rparr> # map (order_at ob) bs"
proof -
  have "distinct (n # bs)"
    using level_rep_distinct [OF wf_ghost_nodes(2) [OF wf levels_of_in [OF la]]] G by simp
  then have nb: "n \<notin> set bs" by simp
  obtain ob2 where r: "reduce_front f la ob = Some ob2" "level_step la ob G ob2 G"
    and at: "\<forall>x. order_at ob2 x = (if x = n then (order_at ob n)\<lparr>oVolume := oVolume (order_at ob n) - f\<rparr>
      else order_at ob x)"
    and r2: "lvTotal (obLevels ob2 la) = lvTotal (obLevels ob la) - f" "obSeq ob2 = obSeq ob"
    by (rule level_step_reduce [OF wf la G, where f = f])
  have "map (order_at ob2) bs = map (order_at ob) bs" using at nb by auto
  then have "map (order_at ob2) (n # bs) =
      (order_at ob n)\<lparr>oVolume := oVolume (order_at ob n) - f\<rparr> # map (order_at ob) bs"
    using at by simp
  from that [OF r(1) r2(2,1) r(2) this] show ?thesis .
qed

lemma take_head:
  assumes wf: "wf_ghost ob G" and la: "la \<in> set (book_of d ob)" and G: "G la = n # bs"
    and IH: "\<And>ob1 G1 ms1 rem1 ch1. wf_ghost ob1 G1 \<Longrightarrow> la \<in> set (book_of d ob1) \<Longrightarrow> G1 la = bs \<Longrightarrow>
      fills t stp la ob1 G1 ms1 rem1 ch1
        (queue_fill t stp (level_price ob1 la) (obSeq ob1) rem1 ch1 (map (order_at ob1) bs))"
  obtains ob1 where "take_resting n la ob = ob1" "obSeq ob1 = obSeq ob"
    "lvTotal (obLevels ob1 la) = lvTotal (obLevels ob la) - oVolume (order_at ob n)"
    "level_step la ob G ob1 (G(la := bs))" "map (order_at ob1) bs = map (order_at ob) bs"
    "\<forall>ms1 rem1 ch1. fills t stp la ob1 (G(la := bs)) ms1 rem1 ch1
       (queue_fill t stp (level_price ob la) (obSeq ob) rem1 ch1 (map (order_at ob) bs))"
proof -
  note u = level_step_unlink [OF wf la G]
  let ?ob1 = "take_resting n la ob"
  have b1: "la \<in> set (book_of d ?ob1)" and p1: "level_price ?ob1 = level_price ob"
    using u(1) la by (simp_all add: level_step_def)
  have "fills t stp la ?ob1 (G(la := bs)) ms1 rem1 ch1
      (queue_fill t stp (level_price ob la) (obSeq ob) rem1 ch1 (map (order_at ob) bs))" for ms1 rem1 ch1
    using IH [OF level_step_wf [OF u(1)] b1, of ms1 rem1 ch1] u(2,4) p1 by simp
  then show thesis using that [OF refl u(4,3,1)] u(2) by simp
qed

lemma fills_trade_step:
  assumes wf: "wf_ghost ob G" and la: "la \<in> set (book_of d ob)" and G: "G la = n # bs"
    and IH: "\<And>ob1 G1 ms1 rem1 ch1. wf_ghost ob1 G1 \<Longrightarrow> la \<in> set (book_of d ob1) \<Longrightarrow> G1 la = bs \<Longrightarrow>
      fills t stp la ob1 G1 ms1 rem1 ch1
        (queue_fill t stp (level_price ob1 la) (obSeq ob1) rem1 ch1 (map (order_at ob1) bs))"
    and pos: "0 < rem" and hd: "list_Head (lvOrders (obLevels ob la)) = Some n"
    and other: "\<not> (stp \<and> oUserID (order_at ob n) = oUserID t)"
  shows "fills t stp la ob G matches rem ch
    (queue_fill t stp (level_price ob la) (obSeq ob) rem ch (map (order_at ob) (n # bs)))"
proof -
  let ?r = "order_at ob n"
  let ?ob0 = "ob\<lparr>obSeq := obSeq ob + 1\<rparr>"
  have s0: "level_step la ob G ?ob0 G" by (rule level_step_seq [OF wf])
  have h0: "wf_ghost ?ob0 G" "la \<in> set (book_of d ?ob0)" using s0 la by (simp_all add: level_step_def)
  have f0: "order_at ?ob0 = order_at ob" "level_price ?ob0 la = level_price ob la" "obSeq ?ob0 = obSeq ob + 1"
    by (auto simp: frame_simps)
  note step = fill_level_trade [OF pos hd other refl refl, unfolded Let_def]
  show ?thesis
  proof (cases "oVolume ?r \<le> rem")
    case True
    let ?m = "(makeMatch t ?r (level_price ob la) (oVolume ?r))\<lparr>mSeq := obSeq ob + 1\<rparr>"
    obtain ob1 where raw: "take_resting n la ?ob0 = ob1" "obSeq ob1 = obSeq ?ob0"
      "lvTotal (obLevels ob1 la) = lvTotal (obLevels ?ob0 la) - oVolume (order_at ?ob0 n)"
      "level_step la ?ob0 G ob1 (G(la := bs))" "map (order_at ob1) bs = map (order_at ?ob0) bs"
      "\<forall>ms1 rem1 ch1. fills t stp la ob1 (G(la := bs)) ms1 rem1 ch1
         (queue_fill t stp (level_price ?ob0 la) (obSeq ?ob0) rem1 ch1 (map (order_at ?ob0) bs))"
      by (rule take_head [OF h0 G IH])
    note ob1 = raw(1) and s1 = raw(4) and c = raw(6) [unfolded f0, rule_format]
    obtain ms x where q: "queue_fill t stp (level_price ob la) (obSeq ob + 1) (rem - oVolume ?r) True
        (map (order_at ob) bs) = (ms, x)" by (metis surj_pair)
    have "fill_level t stp la matches rem ch ob =
        fill_level t stp la (matches @ [?m]) (rem - oVolume ?r) True ob1"
      using True by (simp add: step MinQty_cases ob1)
    from fills_continue [OF this level_step_trans [OF s0 s1]] c [of "matches @ [?m]" "rem - oVolume ?r" True]
    have "fills t stp la ob G matches rem ch ([?m] @ ms, x)" unfolding q by blast
    moreover have "queue_fill t stp (level_price ob la) (obSeq ob) rem ch (map (order_at ob) (n # bs))
        = ([?m] @ ms, x)"
      using True other pos q by (simp only: list.map queue_fill.simps) simp
    ultimately show ?thesis by (simp only:)
  next
    case False
    let ?m = "(makeMatch t ?r (level_price ob la) rem)\<lparr>mSeq := obSeq ob + 1\<rparr>"
    obtain ob1 where raw: "reduce_front rem la ?ob0 = Some ob1" "obSeq ob1 = obSeq ?ob0"
      "lvTotal (obLevels ob1 la) = lvTotal (obLevels ?ob0 la) - rem" "level_step la ?ob0 G ob1 G"
      "map (order_at ob1) (n # bs) = (order_at ?ob0 n)\<lparr>oVolume := oVolume (order_at ?ob0 n) - rem\<rparr> #
        map (order_at ?ob0) bs"
      by (rule reduce_head [OF h0 G, where f = rem])
    note ob1 = raw(1,2) [unfolded f0] and s1 = raw(4) and o1 = raw(5) [unfolded f0]
    have ne: "rem \<noteq> oVolume ?r" using False by auto
    have "fill_level t stp la matches rem ch ob = fill_level t stp la (matches @ [?m]) 0 True ob1"
      using False ne by (simp add: step MinQty_cases ob1)
    from fills_continue [OF this level_step_trans [OF s0 s1]]
    have "fills t stp la ob G matches rem ch ([?m] @ [], 0, True, obSeq ob1, map (order_at ob1) (G la))"
      using fills_now [OF fill_level_stop level_step_refl [OF level_step_wf [OF s1]]] by blast
    moreover have "queue_fill t stp (level_price ob la) (obSeq ob) rem ch (map (order_at ob) (n # bs))
        = ([?m] @ [], 0, True, obSeq ob1, map (order_at ob1) (G la))"
      unfolding G o1 ob1(2)
      by (simp only: list.map queue_fill.simps False other pos if_False if_True simp_thms append_Nil2)
    ultimately show ?thesis by (simp only:)
  qed
qed

lemma fills_stp_step:
  assumes wf: "wf_ghost ob G" and la: "la \<in> set (book_of d ob)" and G: "G la = n # bs"
    and IH: "\<And>ob1 G1 ms1 rem1 ch1. wf_ghost ob1 G1 \<Longrightarrow> la \<in> set (book_of d ob1) \<Longrightarrow> G1 la = bs \<Longrightarrow>
      fills t stp la ob1 G1 ms1 rem1 ch1
        (queue_fill t stp (level_price ob1 la) (obSeq ob1) rem1 ch1 (map (order_at ob1) bs))"
    and pos: "0 < rem" and hd: "list_Head (lvOrders (obLevels ob la)) = Some n"
    and own: "stp \<and> oUserID (order_at ob n) = oUserID t"
  shows "fills t stp la ob G matches rem ch
    (queue_fill t stp (level_price ob la) (obSeq ob) rem ch (map (order_at ob) (n # bs)))"
proof -
  let ?r = "order_at ob n"
  note step = fill_level_stp [OF pos hd own _ refl]
  obtain ob1 where ob1: "take_resting n la ob = ob1" "obSeq ob1 = obSeq ob"
      "lvTotal (obLevels ob1 la) = lvTotal (obLevels ob la) - oVolume ?r"
      "level_step la ob G ob1 (G(la := bs))" "map (order_at ob1) bs = map (order_at ob) bs"
    and c: "\<forall>ms1 rem1 ch1. fills t stp la ob1 (G(la := bs)) ms1 rem1 ch1
       (queue_fill t stp (level_price ob la) (obSeq ob) rem1 ch1 (map (order_at ob) bs))"
    by (rule take_head [OF wf la G IH])
  have ch1: "(ch \<or> lvTotal (obLevels ob1 la) \<noteq> lvTotal (obLevels ob la)) = (ch \<or> oVolume ?r \<noteq> 0)"
    using ob1(3) by simp
  have go_on: "fills t stp la ob G matches rem ch
      (queue_fill t stp (level_price ob la) (obSeq ob) rem1 (ch \<or> oVolume ?r \<noteq> 0) (map (order_at ob) bs))"
    if a: "applySTP (oSTP t) rem n la ob = Some (False, rem1, ob1)" for rem1
  proof -
    let ?ch = "ch \<or> oVolume ?r \<noteq> 0"
    obtain ms x where q: "queue_fill t stp (level_price ob la) (obSeq ob) rem1 ?ch (map (order_at ob) bs)
        = (ms, x)" by (metis surj_pair)
    have "fill_level t stp la matches rem ch ob = fill_level t stp la (matches @ []) rem1 ?ch ob1"
      by (simp only: step [OF a] ch1 if_False append_Nil2)
    from fills_continue [OF this ob1(4)] c [rule_format, of "matches @ []" rem1 ?ch]
    have "fills t stp la ob G matches rem ch ([] @ ms, x)" unfolding q by blast
    then show ?thesis unfolding q by (simp only: append_Nil)
  qed
  consider "oSTP t = STPCancelResting" | "oSTP t = STPCancelBoth"
    | "oSTP t = STPDecrement" "oVolume ?r \<le> rem" | "oSTP t = STPDecrement" "\<not> oVolume ?r \<le> rem"
    | "oSTP t \<noteq> STPCancelResting" "oSTP t \<noteq> STPCancelBoth" "oSTP t \<noteq> STPDecrement" by blast
  then show ?thesis
  proof cases
    case 1
    then have "applySTP (oSTP t) rem n la ob = Some (False, rem, ob1)" by (simp add: applySTP_def ob1(1))
    from go_on [OF this] show ?thesis using 1 own pos by simp
  next
    case 2
    then have "applySTP (oSTP t) rem n la ob = Some (True, 0, ob1)"
      by (simp add: applySTP_def ob1(1) ZeroQty_def)
    from step [OF this] have "fill_level t stp la matches rem ch ob =
        Some (matches, 0, ch \<or> oVolume ?r \<noteq> 0, ob1)" by (simp only: ch1 if_True)
    from fills_now [OF this ob1(4)] show ?thesis using 2 own pos ob1(2,5) by simp
  next
    case 3
    then have "applySTP (oSTP t) rem n la ob = Some (False, rem - oVolume ?r, ob1)"
      by (simp add: applySTP_def ob1(1) MinQty_cases Let_def px_qty_simps)
    from go_on [OF this] show ?thesis using 3 own pos by simp
  next
    case 4
    obtain ob2 where ob2: "reduce_front rem la ob = Some ob2" "obSeq ob2 = obSeq ob"
        "lvTotal (obLevels ob2 la) = lvTotal (obLevels ob la) - rem" "level_step la ob G ob2 G"
        "map (order_at ob2) (n # bs) = ?r\<lparr>oVolume := oVolume ?r - rem\<rparr> # map (order_at ob) bs"
      by (rule reduce_head [OF wf la G, where f = rem])
    have ne: "rem \<noteq> oVolume ?r" using 4 by auto
    have a: "applySTP (oSTP t) rem n la ob = Some (False, 0, ob2)"
      using 4 ne by (simp add: applySTP_def ob2(1) MinQty_cases Let_def px_qty_simps)
    have "rem \<noteq> 0" using pos by auto
    then have "fill_level t stp la matches rem ch ob = Some (matches, 0, True, ob2)"
      using step [OF a] fill_level_stop [of 0] ob2(3) by simp
    from fills_now [OF this ob2(4), unfolded G ob2(2,5)] show ?thesis using 4 own pos by simp
  next
    case 5
    then have "applySTP (oSTP t) rem n la ob = Some (True, 0, ob)"
      by (simp add: applySTP_def ZeroQty_def Let_def)
    from fills_now [OF step [OF this, unfolded if_True] level_step_refl [OF wf]]
    show ?thesis using 5 own pos G by simp
  qed
qed

lemma fill_level_refines:
  "wf_ghost ob G \<Longrightarrow> la \<in> set (book_of d ob) \<Longrightarrow> G la = xs \<Longrightarrow>
   fills t stp la ob G matches rem ch
     (queue_fill t stp (level_price ob la) (obSeq ob) rem ch (map (order_at ob) xs))"
proof (induction xs arbitrary: ob G matches rem ch)
  case Nil
  then have "list_Head (lvOrders (obLevels ob la)) = None"
    using level_rep_Head [OF wf_ghost_nodes(2) [OF Nil.prems(1) levels_of_in [OF Nil.prems(2)]]] by simp
  from fills_now [OF fill_level_empty [OF this] level_step_refl [OF Nil.prems(1)]]
  show ?case using Nil.prems(3) by simp
next
  case (Cons n bs)
  note prems = Cons.prems
  have hd: "list_Head (lvOrders (obLevels ob la)) = Some n"
    using level_rep_Head [OF wf_ghost_nodes(2) [OF prems(1) levels_of_in [OF prems(2)]]] prems(3) by simp
  show ?case
  proof (cases "0 < rem")
    case False
    have "fills t stp la ob G matches rem ch ([], rem, ch, obSeq ob, map (order_at ob) (n # bs))"
      unfolding prems(3) [symmetric] by (rule fills_now [OF fill_level_stop [OF False] level_step_refl [OF prems(1)]])
    then show ?thesis unfolding queue_fill_done [OF False] .
  next
    case True
    show ?thesis
      by (cases "stp \<and> oUserID (order_at ob n) = oUserID t")
        (rule fills_stp_step [OF prems Cons.IH True hd] fills_trade_step [OF prems Cons.IH True hd];
          assumption)+
  qed
qed

section \<open>The ladder\<close>

text \<open>What a run of the outer loop leaves behind.\<close>

definition matched ::
  "bool \<Rightarrow> orderbook \<Rightarrow> event list \<Rightarrow> uint64 \<Rightarrow> ladder \<Rightarrow> orderbook \<Rightarrow> bool" where
  "matched d ob es sq lad ob' \<longleftrightarrow>
     book_wf ob' \<and> view d ob' = lad \<and> view (\<not> d) ob' = view (\<not> d) ob \<and>
     (book_indexed ob \<longrightarrow> book_indexed ob') \<and> obIndex ob' \<subseteq>\<^sub>m obIndex ob \<and>
     obSeq ob' = sq \<and> obDeltas ob' = obDeltas ob @ depths es \<and>
     obL2 ob' = obL2 ob \<and> obSymbol ob' = obSymbol ob \<and> obConditional ob' = obConditional ob"

lemma matched_refl: "book_wf ob \<Longrightarrow> matched d ob [] (obSeq ob) (view d ob) ob"
  by (simp add: matched_def)

lemma matched_trans:
  assumes "matched d a es sq lad b" and "matched d b es' sq' lad' c"
  shows "matched d a (es @ es') sq' lad' c"
  using assms unfolding matched_def by (auto intro: map_le_trans)

lemma emitDelta_wf [simp]: "book_wf (emitDelta sd p q ob) = book_wf ob"
    "book_indexed (emitDelta sd p q ob) = book_indexed ob"
  by (simp_all add: book_wf_def book_indexed_def level_nodes_def [abs_def] frame_simps)

lemma matched_published:
  assumes "matched d ob [] sq lad ob2"
  shows "matched d ob (depth_event (obL2 ob \<and> ch) (obSymbol ob) d p sq os)
    (if obL2 ob \<and> ch then sq + 1 else sq) lad
    (if ch then emitDelta (side_of d) p (volumes os) ob2 else ob2)"
proof (cases "obL2 ob \<and> ch")
  case True
  then have "obSeq (emitDelta (side_of d) p (volumes os) ob2) = sq + 1"
    "obDeltas (emitDelta (side_of d) p (volumes os) ob2) =
       obDeltas ob @ depths (depth_event True (obSymbol ob) d p sq os)"
    using assms by (simp_all add: matched_def emitDelta_def NextSeq_def depth_event_def)
  then show ?thesis using True assms by (simp add: matched_def frame_simps)
next
  case False
  then have "(if ch then emitDelta (side_of d) p (volumes os) ob2 else ob2) = ob2"
    using assms by (simp add: matched_def emitDelta_def)
  then show ?thesis unfolding depth_event_def if_not_P [OF False] using assms by (simp only:)
qed

lemma level_step_rungs:
  assumes s: "level_step la ob G ob1 G1" and wf: "wf_ghost ob G" and la: "la \<in> levels_of ob"
    and b: "set b \<subseteq> levels_of ob" "la \<notin> set b"
  shows "map (rung ob1 G1) b = map (rung ob G) b"
proof (rule rungs_cong)
  fix lb assume lb: "lb \<in> set b"
  then have ne: "lb \<noteq> la" and lv: "lb \<in> levels_of ob" using b by auto
  show "level_price ob1 lb = level_price ob lb" "G1 lb = G lb"
    using s ne by (simp_all add: level_step_def)
  fix x assume "x \<in> set (G lb)"
  then have "x \<notin> set (G la)" using wf_node_alloc [OF wf lv, of x] wf_node_alloc [OF wf la, of x] ne by auto
  then show "order_at ob1 x = order_at ob x" using s by (simp add: level_step_def)
qed

text \<open>
  The end of one round of the outer loop: an emptied level goes, a changed one is
  published.
\<close>

lemma round_finish:
  assumes wf: "book_wf ob" and b: "book_of d ob = la # b2" and G: "G = level_nodes ob"
    and s: "level_step la ob G ob1 G1" and os1: "map (order_at ob1) (G1 la) = os1"
    and ob2: "ob2 = (if os1 = [] then drop_level d la b2 ob1 else ob1)"
    and ob3: "ob3 = (if ch then emitDelta (side_of d) (level_price ob la) (volumes os1) ob2 else ob2)"
    and v: "view d ob = (p, os) # lad"
  shows "matched d ob (depth_event (obL2 ob \<and> ch) (obSymbol ob) d p (obSeq ob1) os1)
      (if obL2 ob \<and> ch then obSeq ob1 + 1 else obSeq ob1)
      (if os1 = [] then lad else (p, os1) # lad) ob3"
    and "level_price ob la = p" and "map (order_at ob) (G la) = os"
proof -
  have wg: "wf_ghost ob G" and ne: "\<And>lb. lb \<in> levels_of ob \<Longrightarrow> G lb \<noteq> []"
    using wf by (auto simp: book_wf_def G)
  have la: "la \<in> levels_of ob" using b by (intro levels_of_in [of _ d]) simp
  have vd: "view d ob = rung ob G la # map (rung ob G) b2"
    by (simp add: view_ghost [OF wg] gview_def b)
  show p: "level_price ob la = p" and "map (order_at ob) (G la) = os" using v vd by auto
  have lad: "lad = map (rung ob G) b2" using v vd by simp
  have wg1: "wf_ghost ob1 G1" by (rule level_step_wf [OF s])
  have bk: "book_of d' ob1 = book_of d' ob" for d' using s by (simp add: level_step_def)
  have lv1: "levels_of ob1 = levels_of ob" unfolding levels_of_book bk ..
  have empty: "os1 = [] \<longleftrightarrow> G1 la = []" using os1 by auto
  have wg2: "wf_ghost ob2 G1"
    using drop_level_wf [OF wg1, of d "[]" la b2] wg1 empty b bk [of d] by (auto simp: ob2)
  have lv2: "levels_of ob2 = (if os1 = [] then levels_of ob - {la} else levels_of ob)"
    using levels_of_drop [OF wg1, of d "[]" la b2] b bk [of d] lv1 by (simp add: ob2)
  have dist: "la \<notin> set b2" "la \<notin> set (book_of (\<not> d) ob)"
    using ladder_distinct(1) [OF wf_ghost_ladder [OF wg], of d] wf_disjoint [OF wg, of d] b by auto
  have sub: "set b2 \<subseteq> levels_of ob" "set (book_of (\<not> d) ob) \<subseteq> levels_of ob"
    using b by (auto simp: levels_of_two [of _ d])
  note same = level_step_rungs [OF s wg la]
  have at2: "level_price ob2 = level_price ob1" "order_at ob2 = order_at ob1"
    by (auto simp: ob2 frame_simps)
  have pr1: "level_price ob1 la = p" using s p by (simp add: level_step_def)
  have "view d ob2 = (if os1 = [] then lad else (p, os1) # lad)"
    unfolding view_ghost [OF wg2] gview_def at2 lad
    using same [OF sub(1) dist(1)] os1 pr1 b bk [of d] by (simp add: ob2 frame_simps)
  moreover have "view (\<not> d) ob2 = view (\<not> d) ob"
    unfolding view_ghost [OF wg2] view_ghost [OF wg] gview_def at2
    using same [OF sub(2) dist(2)] bk [of "\<not> d"] by (simp add: ob2 frame_simps)
  moreover have "book_wf ob2"
  proof (rule book_wfI [OF wg2])
    fix lb assume "lb \<in> levels_of ob2"
    then show "G1 lb \<noteq> []"
      using s ne empty lv2 by (cases "lb = la") (auto simp: level_step_def split: if_splits)
  qed
  moreover have "book_indexed ob2" if "book_indexed ob"
  proof -
    have "ghost_indexed ob1 G1" using s that ghost_indexed_iff [OF wg] by (simp add: level_step_def)
    then have "ghost_indexed ob2 G1"
      using drop_level_indexed [OF wg1, of d "[]" la b2] b bk [of d] by (auto simp: ob2)
    then show ?thesis using ghost_indexed_iff [OF wg2] by simp
  qed
  moreover have "obIndex ob2 \<subseteq>\<^sub>m obIndex ob" "obSeq ob2 = obSeq ob1" "obDeltas ob2 = obDeltas ob"
    "obL2 ob2 = obL2 ob" "obSymbol ob2 = obSymbol ob" "obConditional ob2 = obConditional ob"
    using s by (simp_all add: ob2 level_step_def frame_simps)
  ultimately have "matched d ob [] (obSeq ob1) (if os1 = [] then lad else (p, os1) # lad) ob2"
    by (simp add: matched_def)
  from matched_published [OF this]
  show "matched d ob (depth_event (obL2 ob \<and> ch) (obSymbol ob) d p (obSeq ob1) os1)
      (if obL2 ob \<and> ch then obSeq ob1 + 1 else obSeq ob1)
      (if os1 = [] then lad else (p, os1) # lad) ob3"
    unfolding ob3 p .
qed

lemma frontLevel_side: "frontLevel (side_of d) ob = hd_or (book_of d ob) None"
  by (cases d) (simp_all add: frontLevel_def book_of_def)

lemma match_levels_stop:
  "\<not> 0 < rem \<Longrightarrow> match_levels t ac stp sd ms rem ob = Some (ms, rem, ob)"
  "frontLevel sd ob = None \<Longrightarrow> match_levels t ac stp sd ms rem ob = Some (ms, rem, ob)"
  "frontLevel sd ob = Some la \<Longrightarrow> \<not> ac \<Longrightarrow> \<not> crosses t (level_price ob la) \<Longrightarrow>
   match_levels t ac stp sd ms rem ob = Some (ms, rem, ob)"
  by (subst match_levels.simps, simp add: px_qty_simps)+

lemma match_levels_round:
  assumes "0 < rem" and "frontLevel sd ob = Some la" and "ac \<or> crosses t (level_price ob la)"
    and "fill_level t stp la ms rem False ob = Some (ms1, rem1, ch, ob1)"
    and "e = list_IsEmpty (lvOrders (obLevels ob1 la))"
    and "ob2 = (if e then removeFrontLevel sd ob1 else ob1)"
    and "ob3 = (if ch then emitDelta sd (level_price ob1 la)
           (if e then ZeroQty else lvTotal (obLevels ob2 la)) ob2 else ob2)"
  shows "match_levels t ac stp sd ms rem ob = match_levels t ac stp sd ms1 rem1 ob3"
  by (subst match_levels.simps) (use assms in \<open>auto simp: px_qty_simps Let_def\<close>)

lemma match_levels_refines:
  "book_wf ob \<Longrightarrow> view d ob = lad0 \<Longrightarrow>
   ladder_fill t ac stp (obL2 ob) (obSymbol ob) d (obSeq ob) rem lad0 = (es, rem', sq, lad) \<Longrightarrow>
   \<exists>ob'. match_levels t ac stp (side_of d) ms rem ob = Some (ms @ trades es, rem', ob') \<and>
     matched d ob es sq lad ob'"
proof (induction lad0 arbitrary: ob rem ms es)
  case Nil
  then have "frontLevel (side_of d) ob = None" by (simp add: frontLevel_side view_def)
  then show ?case using Nil matched_refl [OF Nil.prems(1), of d] by (auto simp: match_levels_stop(2))
next
  case (Cons e lad0)
  obtain p os where e: "e = (p, os)" by (cases e)
  note wf = Cons.prems(1) and v = Cons.prems(2) [unfolded e]
  note run = Cons.prems(3) [unfolded e]
  obtain la b2 where b: "book_of d ob = la # b2" using v by (cases "book_of d ob") (auto simp: view_def)
  then have front: "frontLevel (side_of d) ob = Some la" by (simp add: frontLevel_side)
  define G where "G = level_nodes ob"
  have wg: "wf_ghost ob G" using wf by (simp add: book_wf_def G_def)
  have la: "la \<in> set (book_of d ob)" using b by simp
  have p: "level_price ob la = p" and os: "map (order_at ob) (G la) = os"
    using v b by (auto simp: view_ghost [OF wg] gview_def)
  show ?case
  proof (cases "\<not> 0 < rem \<or> \<not> ac \<and> \<not> crosses t p")
    case True
    then have "match_levels t ac stp (side_of d) ms rem ob = Some (ms, rem, ob)"
      using match_levels_stop(1) match_levels_stop(3) [OF front] p by blast
    moreover have "(es, rem', sq, lad) = ([], rem, obSeq ob, (p, os) # lad0)"
      using run True by simp
    ultimately show ?thesis using matched_refl [OF wf, of d] v by simp
  next
    case False
    obtain ms1 rem1 ch sq1 os1 where q: "queue_fill t stp p (obSeq ob) rem False os = (ms1, rem1, ch, sq1, os1)"
      by (metis prod_cases5)
    from fill_level_refines [OF wg la refl, of t stp ms rem False, unfolded p os q]
    obtain ob1 G1 where f: "fill_level t stp la ms rem False ob = Some (ms @ ms1, rem1, ch, ob1)"
      and s: "level_step la ob G ob1 G1" and os1: "map (order_at ob1) (G1 la) = os1" and sq1: "obSeq ob1 = sq1"
      unfolding fills_def by auto
    have wg1: "wf_ghost ob1 G1" by (rule level_step_wf [OF s])
    have b1: "book_of d ob1 = la # b2" and p1: "level_price ob1 la = level_price ob la"
      using s b by (simp_all add: level_step_def)
    have r: "level_rep la (obNodes ob1) (obLevels ob1 la) (G1 la)"
      using b1 by (intro wf_ghost_nodes(2) [OF wg1 levels_of_in [of _ d]]) simp
    have em: "list_IsEmpty (lvOrders (obLevels ob1 la)) \<longleftrightarrow> os1 = []"
      using level_rep_IsEmpty [OF r] os1 by auto
    have tot: "lvTotal (obLevels ob1 la) = volumes os1"
      using r os1 by (simp add: level_rep_def orders_of_at)
    define ob2 where "ob2 = (if os1 = [] then drop_level d la b2 ob1 else ob1)"
    define ob3 where "ob3 = (if ch then emitDelta (side_of d) (level_price ob la) (volumes os1) ob2 else ob2)"
    have step: "match_levels t ac stp (side_of d) ms rem ob =
        match_levels t ac stp (side_of d) (ms @ ms1) rem1 ob3"
    proof (rule match_levels_round [OF _ front _ f em [symmetric] refl])
      show "0 < rem" "ac \<or> crosses t (level_price ob la)" using False p by auto
      show "ob3 = (if ch then emitDelta (side_of d) (level_price ob1 la)
         (if os1 = [] then ZeroQty else lvTotal (obLevels (if os1 = [] then removeFrontLevel (side_of d) ob1 else ob1) la))
         (if os1 = [] then removeFrontLevel (side_of d) ob1 else ob1)
         else (if os1 = [] then removeFrontLevel (side_of d) ob1 else ob1))"
        by (simp add: ob3_def ob2_def removeFrontLevel_eq [OF b1] p1 tot ZeroQty_def)
    qed
    note fin = round_finish [OF wf b G_def s os1 ob2_def ob3_def v]
    define sq2 where "sq2 = (if obL2 ob \<and> ch then sq1 + 1 else sq1)"
    define es1 where "es1 = depth_event (obL2 ob \<and> ch) (obSymbol ob) d p sq1 os1"
    have m: "matched d ob (map Trade ms1 @ es1) sq2 (if os1 = [] then lad0 else (p, os1) # lad0) ob3"
      using fin(1) by (simp add: matched_def es1_def sq2_def sq1)
    show ?thesis
    proof (cases "os1 = []")
      case True
      obtain es' where k: "ladder_fill t ac stp (obL2 ob) (obSymbol ob) d sq2 rem1 lad0 = (es', rem', sq, lad)"
        and es: "es = (map Trade ms1 @ es1) @ es'"
        using run False q True by (auto simp: Let_def es1_def sq2_def split: prod.splits)
      have w3: "book_wf ob3" "view d ob3 = lad0" "obL2 ob3 = obL2 ob" "obSymbol ob3 = obSymbol ob" "obSeq ob3 = sq2"
        using m True by (simp_all add: matched_def)
      from Cons.IH [OF w3(1,2), unfolded w3(3-5), OF k, of "ms @ ms1"]
      obtain ob' where "match_levels t ac stp (side_of d) (ms @ ms1) rem1 ob3 = Some ((ms @ ms1) @ trades es', rem', ob')"
        and m': "matched d ob3 es' sq lad ob'" by blast
      moreover have "trades es1 = []" by (simp add: es1_def depth_event_def)
      ultimately show ?thesis using step es matched_trans [OF m m'] by auto
    next
      case nonempty: False
      have "\<not> 0 < rem1" by (rule queue_fill_rest [OF q nonempty])
      then have "match_levels t ac stp (side_of d) ms rem ob = Some (ms @ ms1, rem1, ob3)"
        using step match_levels_stop(1) by simp
      moreover have "(es, rem', sq, lad) = (map Trade ms1 @ es1, rem1, sq2, (p, os1) # lad0)"
        using run [unfolded ladder_fill.simps(2) if_not_P [OF False] q prod.case Let_def if_not_P [OF nonempty]]
        unfolding es1_def sq2_def by (rule sym)
      moreover have "trades es1 = []" by (simp add: es1_def depth_event_def)
      ultimately show ?thesis using m nonempty by simp
    qed
  qed
qed

theorem MatchTaker_refines:
  assumes "book_wf ob" and "oSide t = side_of (\<not> d)"
    and "ladder_fill t ac (oUserID t \<noteq> 0 \<and> oSTP t \<noteq> STPNone) (obL2 ob) (obSymbol ob) d (obSeq ob)
      (oVolume t) (view d ob) = (es, rem, sq, lad)"
  shows "\<exists>ob'. MatchTaker t ac ob = Some (trades es, rem, ob') \<and> matched d ob es sq lad ob'"
proof -
  have "(if oSide t = BUY then SELL else BUY) = side_of d" using assms(2) by (cases d) simp_all
  then show ?thesis
    using match_levels_refines [OF assms(1) refl assms(3), of "[]"] assms(2)
    by (cases d) (auto simp: MatchTaker_def Let_def)
qed

end
