(* ===== verification/Level2.thy ===== *)
theory Level2
  imports BookSpec
begin

text \<open>
  \<^verbatim>\<open>models/event.go\<close>: the Level-2 stream. A consumer that holds a snapshot of the
  aggregate quantity at each price and overwrites it with every delta sees what
  the book holds. \<open>l2_sound\<close> states that for the deltas sent so far; every
  operation that ends by publishing the one level it changed keeps it.
\<close>

type_synonym depth = "side \<Rightarrow> px \<Rightarrow> qty"

definition apply_delta :: "depth \<Rightarrow> book_delta \<Rightarrow> depth" where
  "apply_delta m dl = m(dSide dl := (m (dSide dl))(dPrice dl := dQty dl))"

definition mirror :: "depth \<Rightarrow> book_delta list \<Rightarrow> depth" where
  "mirror base ds = foldl apply_delta base ds"

definition depth_of :: "orderbook \<Rightarrow> depth" where
  "depth_of ob sd p =
     (if sd = BUY then qty_at (view True ob) p
      else if sd = SELL then qty_at (view False ob) p else 0)"

definition l2_sound :: "depth \<Rightarrow> orderbook \<Rightarrow> bool" where
  "l2_sound base ob \<longleftrightarrow> obL2 ob \<and> mirror base (obDeltas ob) = depth_of ob"

lemma depth_of_side [simp]: "depth_of ob (side_of d) p = qty_at (view d ob) p"
  by (cases d) (simp_all add: depth_of_def)

text \<open>One publication brings the mirror up to date with a change at one price.\<close>

definition same_depth_except :: "bool \<Rightarrow> px \<Rightarrow> orderbook \<Rightarrow> orderbook \<Rightarrow> bool" where
  "same_depth_except d p ob ob' \<longleftrightarrow>
     (\<forall>d' q. d' \<noteq> d \<or> q \<noteq> p \<longrightarrow> qty_at (view d' ob') q = qty_at (view d' ob) q)"

lemma depth_of_update:
  assumes "same_depth_except d p ob ob'"
  shows "depth_of ob' = (depth_of ob)(side_of d := (depth_of ob (side_of d))(p := qty_at (view d ob') p))"
proof (intro ext)
  fix sd q
  show "depth_of ob' sd q =
    ((depth_of ob)(side_of d := (depth_of ob (side_of d))(p := qty_at (view d ob') p))) sd q"
    using assms by (cases d) (auto simp: depth_of_def same_depth_except_def)
qed

lemma published_l2:
  assumes "published d p ob ob'" and "same_depth_except d p ob ob'" and "l2_sound base ob"
  shows "l2_sound base ob'"
  using assms depth_of_update [OF assms(2)]
  by (simp add: l2_sound_def published_def Let_def emitDelta_def NextSeq_def mirror_def apply_delta_def)

section \<open>Which prices an operation touches\<close>

lemma qty_at_simps [simp]:
  "qty_at [] q = 0" "qty_at ((p, os) # l) q = (if p = q then volumes os else qty_at l q)"
  by (simp_all add: qty_at_def)

lemma qty_at_insert: "q \<noteq> oPrice ord \<Longrightarrow> qty_at (lad_insert d ord lad) q = qty_at lad q"
  by (induction d ord lad rule: lad_insert.induct) auto

lemma lad_remove_Cons:
  "lad_remove i ((p, os) # l) = (let r = filter (\<lambda>x. oID x \<noteq> i) os in
     if r = [] then lad_remove i l else (p, r) # lad_remove i l)"
  by (simp add: lad_remove_def Let_def)

lemma qty_at_remove:
  "avoids i (filter (\<lambda>e. fst e = q) lad) \<Longrightarrow> qty_at (lad_remove i lad) q = qty_at lad q"
proof (induction lad)
  case (Cons e lad)
  obtain p os where e: "e = (p, os)" by (cases e)
  have av: "avoids i (filter (\<lambda>e. fst e = q) lad)" using Cons.prems by (simp add: avoids_def)
  show ?case
  proof (cases "p = q")
    case True
    then have "os \<noteq> []" "i \<notin> oID ` set os" using Cons.prems e by (simp_all add: avoids_def)
    then have "filter (\<lambda>x. oID x \<noteq> i) os = os" unfolding filter_id_conv by auto
    then show ?thesis using True \<open>os \<noteq> []\<close> e by (simp add: lad_remove_Cons)
  next
    case False
    then show ?thesis using Cons.IH [OF av] e by (simp add: lad_remove_Cons Let_def)
  qed
qed (simp add: lad_remove_def)

lemma qty_at_resize:
  "avoids i (filter (\<lambda>e. fst e = q) lad) \<Longrightarrow> qty_at (lad_resize i v lad) q = qty_at lad q"
proof (induction lad)
  case (Cons e lad)
  obtain p os where e: "e = (p, os)" by (cases e)
  have av: "avoids i (filter (\<lambda>e. fst e = q) lad)" using Cons.prems by (simp add: avoids_def)
  have "map (resize i v) os = os" if "p = q"
    using Cons.prems e that by (intro map_idI) (auto simp: avoids_def resize_def)
  then show ?case using Cons.IH [OF av] e by simp
qed simp

text \<open>An indexed order's ID occurs only at its own price and side.\<close>

lemma id_elsewhere:
  assumes wf: "book_wf ob" and ix: "book_indexed ob" and l: "LookupOrder i ob = Some x"
    and "oSide x = side_of d" and "d' \<noteq> d \<or> q \<noteq> oPrice x"
  shows "avoids i (filter (\<lambda>e. fst e = q) (view d' ob))"
  unfolding avoids_def
proof
  fix e assume e: "e \<in> set (filter (\<lambda>e. fst e = q) (view d' ob))"
  then have row: "(q, snd e) \<in> set (view d' ob)" by auto
  have "oID y \<noteq> i" if y: "y \<in> set (snd e)" for y
  proof
    assume "oID y = i"
    moreover have "y \<in> set (resting ob)" unfolding resting_view using row y by blast
    ultimately have "y = x" using resting_LookupOrder [OF wf ix] l by fastforce
    then show False
      using view_order [OF book_wf_ghost [OF wf] row y] assms(4,5) by auto
  qed
  then show "snd e \<noteq> [] \<and> i \<notin> oID ` set (snd e)" using view_nonempty [OF wf row] by auto
qed

lemma Add_l2:
  assumes "book_wf ob" and "oSide ord = side_of d" and "l2_sound base ob"
  shows "l2_sound base (snd (Add ord ob))"
proof -
  from assms(1,2) obtain n ob' where a: "Add ord ob = (Some n, ob')"
    "view d ob' = lad_insert d ord (view d ob)" "view (\<not> d) ob' = view (\<not> d) ob"
    "published d (oPrice ord) ob ob'" by (rule Add_refines)
  have "qty_at (view d' ob') q = qty_at (view d' ob) q" if "d' \<noteq> d \<or> q \<noteq> oPrice ord" for d' q
    using a(2,3) that qty_at_insert by (cases "d' = d") auto
  then show ?thesis using published_l2 [OF a(4)] assms(3) a(1) by (simp add: same_depth_except_def)
qed

lemma Cancel_l2:
  assumes wf: "book_wf ob" and ix: "book_indexed ob" and "l2_sound base ob"
  shows "l2_sound base (snd (Cancel i ob))"
proof (cases "LookupOrder i ob")
  case None
  then show ?thesis
    using assms(3) by (auto simp: LookupOrder_def Cancel_missing split: option.splits)
next
  case (Some x)
  from wf ix Some show ?thesis
  proof (cases rule: Cancel_refines)
    case (1 d ob')
    have "qty_at (view d' ob') q = qty_at (view d' ob) q" if "d' \<noteq> d \<or> q \<noteq> oPrice x" for d' q
      unfolding 1(4) by (rule qty_at_remove) (rule id_elsewhere [OF wf ix Some 1(5) that])
    then show ?thesis using published_l2 [OF 1(6)] assms(3) 1(1) by (simp add: same_depth_except_def)
  qed
qed

lemma ReduceVolume_l2:
  assumes wf: "book_wf ob" and ix: "book_indexed ob" and "l2_sound base ob"
  shows "l2_sound base (snd (ReduceVolume i v ob))"
proof (cases "LookupOrder i ob")
  case None
  then show ?thesis
    using assms(3) by (auto simp: LookupOrder_def ReduceVolume_def Cancel_missing split: option.splits)
next
  case (Some x)
  then have n: "\<exists>n. obIndex ob i = Some n \<and> x = order_at ob n"
    by (auto simp: LookupOrder_def split: option.splits)
  consider "v = 0" | "v \<noteq> 0" "\<not> v < oVolume x" | "v \<noteq> 0" "v < oVolume x" by blast
  then show ?thesis
  proof cases
    case 1
    then show ?thesis using Cancel_l2 [OF assms] by (simp add: ReduceVolume_def px_qty_simps)
  next
    case 2
    then show ?thesis using n assms(3) by (auto simp: ReduceVolume_def px_qty_simps)
  next
    case 3
    with wf ix Some show ?thesis
    proof (cases rule: ReduceVolume_refines)
      case (1 d ob')
      have "qty_at (view d' ob') q = qty_at (view d' ob) q" if "d' \<noteq> d \<or> q \<noteq> oPrice x" for d' q
        unfolding 1(4) by (rule qty_at_resize) (rule id_elsewhere [OF wf ix Some 1(5) that])
      then show ?thesis using published_l2 [OF 1(6)] assms(3) 1(1) by (simp add: same_depth_except_def)
    qed
  qed
qed

end
