(* ===== verification/MatchFacts.thy ===== *)
theory MatchFacts
  imports MatchSpec Level2
begin

text \<open>
  The laws of matching, proved by induction on the structural definitions:
  priority, conservation of volume, prices, sequence numbers, self-trade
  prevention, completeness and the depth stream.
\<close>

section \<open>Vocabulary\<close>

definition resting_id :: "order \<Rightarrow> match \<Rightarrow> order_id" where
  "resting_id t m = (if oSide t = BUY then mSellId m else mBuyId m)"

definition taker_id :: "order \<Rightarrow> match \<Rightarrow> order_id" where
  "taker_id t m = (if oSide t = BUY then mBuyId m else mSellId m)"

definition fill_key :: "order \<Rightarrow> match \<Rightarrow> px \<times> order_id \<times> qty" where
  "fill_key t m = (mPrice m, resting_id t m, mVolume m)"

definition flat :: "ladder \<Rightarrow> (px \<times> order) list" where
  "flat lad = concat (map (\<lambda>(p, os). map (Pair p) os) lad)"

definition lad_positive :: "ladder \<Rightarrow> bool" where
  "lad_positive lad \<longleftrightarrow> (\<forall>(p, os) \<in> set lad. \<forall>x \<in> set os. 0 < oVolume x)"

definition traded :: "match list \<Rightarrow> int" where
  "traded ms = (\<Sum>m\<leftarrow>ms. qty_val (mVolume m))"

lemma flat_simps [simp]:
  "flat [] = []" "flat ((p, os) # lad) = map (Pair p) os @ flat lad"
  by (simp_all add: flat_def)

lemma lad_positive_simps [simp]:
  "lad_positive []" "lad_positive ((p, os) # lad) \<longleftrightarrow> (\<forall>x \<in> set os. 0 < oVolume x) \<and> lad_positive lad"
  by (simp_all add: lad_positive_def)

lemma traded_simps [simp]:
  "traded [] = 0" "traded (m # ms) = qty_val (mVolume m) + traded ms" "traded (ms @ ms') = traded ms + traded ms'"
  by (simp_all add: traded_def)

lemma makeMatch_sel [simp]:
  "mPrice (makeMatch t r p v) = p" "mVolume (makeMatch t r p v) = v" "mSeq (makeMatch t r p v) = 0"
  "resting_id t (makeMatch t r p v) = oID r" "taker_id t (makeMatch t r p v) = oID t"
  "resting_id t (m\<lparr>mSeq := k\<rparr>) = resting_id t m" "taker_id t (m\<lparr>mSeq := k\<rparr>) = taker_id t m"
  by (simp_all add: makeMatch_def resting_id_def taker_id_def)

text \<open>
  Price-time priority: the fills exhaust a prefix of the orders in book order, in
  that order, and may end with one partial fill of the next order.
\<close>

definition priority ::
  "(px \<times> order_id \<times> qty) list \<Rightarrow> (px \<times> order) list \<Rightarrow> (px \<times> order) list \<Rightarrow> bool" where
  "priority ks fl fl' \<longleftrightarrow>
     (\<exists>full rest. fl = full @ rest \<and>
        (ks = map (\<lambda>(p, x). (p, oID x, oVolume x)) full \<and> fl' = rest \<or>
         (\<exists>p x v us. rest = (p, x) # us \<and> 0 < v \<and> v < oVolume x \<and>
            ks = map (\<lambda>(p, x). (p, oID x, oVolume x)) full @ [(p, oID x, v)] \<and>
            fl' = (p, x\<lparr>oVolume := oVolume x - v\<rparr>) # us)))"

lemma priority_refl: "priority [] fl fl"
  unfolding priority_def by (rule exI [of _ "[]"]) simp

lemma priority_full:
  assumes "priority ks fl fl'" shows "priority ((p, oID x, oVolume x) # ks) ((p, x) # fl) fl'"
proof -
  from assms obtain full rest where f: "fl = full @ rest"
    "ks = map (\<lambda>(p, x). (p, oID x, oVolume x)) full \<and> fl' = rest \<or>
     (\<exists>p x v us. rest = (p, x) # us \<and> 0 < v \<and> v < oVolume x \<and>
        ks = map (\<lambda>(p, x). (p, oID x, oVolume x)) full @ [(p, oID x, v)] \<and>
        fl' = (p, x\<lparr>oVolume := oVolume x - v\<rparr>) # us)"
    unfolding priority_def by blast
  show ?thesis
    unfolding priority_def
    by (rule exI [of _ "(p, x) # full"], rule exI [of _ rest]) (use f in auto)
qed

lemma priority_partial:
  "0 < v \<Longrightarrow> v < oVolume x \<Longrightarrow>
   priority [(p, oID x, v)] ((p, x) # us) ((p, x\<lparr>oVolume := oVolume x - v\<rparr>) # us)"
  unfolding priority_def by (rule exI [of _ "[]"]) simp

lemma priority_frame:
  assumes "priority ks fl fl'" shows "priority ks (fl @ zs) (fl' @ zs)"
proof -
  from assms obtain full rest where "fl = full @ rest"
    "ks = map (\<lambda>(p, x). (p, oID x, oVolume x)) full \<and> fl' = rest \<or>
     (\<exists>p x v us. rest = (p, x) # us \<and> 0 < v \<and> v < oVolume x \<and>
        ks = map (\<lambda>(p, x). (p, oID x, oVolume x)) full @ [(p, oID x, v)] \<and>
        fl' = (p, x\<lparr>oVolume := oVolume x - v\<rparr>) # us)"
    unfolding priority_def by blast
  then show ?thesis
    unfolding priority_def by (intro exI [of _ full] exI [of _ "rest @ zs"]) auto
qed

lemma priority_append:
  assumes "priority ks fl []" and "priority ks' gl gl'"
  shows "priority (ks @ ks') (fl @ gl) gl'"
proof -
  from assms(1) have "ks = map (\<lambda>(p, x). (p, oID x, oVolume x)) fl" by (auto simp: priority_def)
  moreover have "priority (map (\<lambda>(p, x). (p, oID x, oVolume x)) fl @ ks') (fl @ gl) gl'"
    using assms(2) priority_full by (induction fl) auto
  ultimately show ?thesis by simp
qed

section \<open>Priority\<close>

lemma queue_fill_priority:
  "queue_fill t False p sq rem ch os = (ms, rem', ch', sq', os') \<Longrightarrow>
   priority (map (fill_key t) ms) (map (Pair p) os) (map (Pair p) os')"
proof (induction t "False" p sq rem ch os arbitrary: ms rule: queue_fill.induct)
  case (1 t p sq rem ch)
  then show ?case by (simp add: priority_refl)
next
  case (2 t p sq rem ch r rs)
  consider "\<not> 0 < rem" | "0 < rem" "oVolume r \<le> rem" | "0 < rem" "\<not> oVolume r \<le> rem" by blast
  then show ?case
  proof cases
    case 1
    then show ?thesis using 2(4) by (auto simp: priority_refl)
  next
    case c: 2
    then obtain ms0 where "queue_fill t False p (sq + 1) (rem - oVolume r) True rs = (ms0, rem', ch', sq', os')"
      "ms = (makeMatch t r p (oVolume r))\<lparr>mSeq := sq + 1\<rparr> # ms0"
      using 2(4) by (auto split: prod.splits)
    then show ?thesis
      using 2(3) c priority_full [of _ _ _ p r] by (simp add: fill_key_def)
  next
    case 3
    then have "ms = [(makeMatch t r p rem)\<lparr>mSeq := sq + 1\<rparr>]" "os' = r\<lparr>oVolume := oVolume r - rem\<rparr> # rs"
      using 2(4) by auto
    then show ?thesis using 3 priority_partial [of rem r p] by (simp add: fill_key_def)
  qed
qed

lemma ladder_fill_priority:
  "ladder_fill t ac False l2 smb d sq rem lad = (es, rem', sq', lad') \<Longrightarrow>
   priority (map (fill_key t) (trades es)) (flat lad) (flat lad')"
proof (induction lad arbitrary: sq rem es)
  case Nil
  then show ?case by (simp add: priority_refl)
next
  case (Cons e lad)
  obtain p os where e: "e = (p, os)" by (cases e)
  from Cons.prems [unfolded e] show ?case
  proof (cases rule: ladder_fill_step)
    case stop
    then show ?thesis by (simp add: e priority_refl)
  next
    case (through ms rem1 ch sq1 es')
    from priority_append [OF queue_fill_priority [OF through(3), unfolded list.map] Cons.IH [OF through(4)]]
    show ?thesis by (simp add: e through(5))
  next
    case (within ms ch sq1 os1)
    from priority_frame [OF queue_fill_priority [OF within(3)]] show ?thesis
      by (simp add: e within(6,8))
  qed
qed

section \<open>Volumes, prices and identities\<close>

lemma queue_fill_volumes:
  "queue_fill t stp p sq rem ch os = (ms, rem', ch', sq', os') \<Longrightarrow> \<forall>x \<in> set os. 0 < oVolume x \<Longrightarrow> 0 \<le> rem \<Longrightarrow>
   traded ms + qty_val rem' \<le> qty_val rem \<and> (\<not> stp \<longrightarrow> traded ms + qty_val rem' = qty_val rem) \<and>
   0 \<le> rem' \<and> (\<forall>x \<in> set os'. 0 < oVolume x)"
proof (induction t stp p sq rem ch os arbitrary: ms rule: queue_fill.induct)
  case (1 t stp p sq rem ch)
  then show ?case by simp
next
  case (2 t stp p sq rem ch r rs)
  note run = 2(4) and IH = 2(1-3) and prems = 2(5,6)
  have r: "0 < oVolume r" "\<forall>x \<in> set rs. 0 < oVolume x" using prems by simp_all
  have diff: "qty_val (rem - oVolume r) = qty_val rem - qty_val (oVolume r) \<and> 0 \<le> rem - oVolume r"
    if "oVolume r \<le> rem"
    using qty_val_diff_le [of "oVolume r" rem] r(1) that by (simp add: less_qty_def less_eq_qty_def)
  have part: "0 < oVolume r - rem" if "0 < rem" "\<not> oVolume r \<le> rem"
    using qty_diff_pos that by (simp add: not_le)
  have rpos: "0 < qty_val (oVolume r)" using r(1) by (simp add: qty_pos_iff)
  show ?case
  proof (cases "0 < rem \<and> \<not> (stp \<and> oUserID r = oUserID t)")
    case True
    show ?thesis
    proof (cases "oVolume r \<le> rem")
      case le: True
      then obtain ms0 where k: "queue_fill t stp p (sq + 1) (rem - oVolume r) True rs = (ms0, rem', ch', sq', os')"
        and ms: "ms = (makeMatch t r p (oVolume r))\<lparr>mSeq := sq + 1\<rparr> # ms0"
        using run True by (auto split: prod.splits)
      show ?thesis using IH(3) [OF _ _ le k r(2)] True diff [OF le] ms by auto
    next
      case False
      then show ?thesis using run True part r by auto
    qed
  next
    case no_trade: False
    show ?thesis
    proof (cases "0 < rem")
      case False
      then show ?thesis using run prems by auto
    next
      case True
      then have own: "stp" "oUserID r = oUserID t" using no_trade by auto
      show ?thesis
      proof (cases "oSTP t = STPCancelResting \<or> oSTP t = STPDecrement \<and> oVolume r \<le> rem")
        case False
        then show ?thesis using run True own part r prems
          by (auto split: if_splits simp: less_eq_qty_def)
      next
        case cont: True
        then show ?thesis
          using run True own r IH(1) [of ms] IH(2) [of ms] diff rpos prems by (auto simp: less_eq_qty_def)
      qed
    qed
  qed
qed

lemma ladder_fill_volumes:
  "ladder_fill t ac stp l2 smb d sq rem lad = (es, rem', sq', lad') \<Longrightarrow> lad_positive lad \<Longrightarrow> 0 \<le> rem \<Longrightarrow>
   traded (trades es) + qty_val rem' \<le> qty_val rem \<and>
   (\<not> stp \<longrightarrow> traded (trades es) + qty_val rem' = qty_val rem) \<and> 0 \<le> rem' \<and> lad_positive lad'"
proof (induction lad arbitrary: sq rem es)
  case (Cons e lad)
  obtain p os where e: "e = (p, os)" by (cases e)
  have pos: "\<forall>x \<in> set os. 0 < oVolume x" "lad_positive lad" using Cons.prems(2) e by simp_all
  from Cons.prems(1) [unfolded e] show ?case
  proof (cases rule: ladder_fill_step)
    case stop
    then show ?thesis using Cons.prems e by simp
  next
    case (through ms rem1 ch sq1 es')
    note q = queue_fill_volumes [OF through(3) pos(1) Cons.prems(3)]
    then show ?thesis using Cons.IH [OF through(4) pos(2)] through(5) by auto
  next
    case (within ms ch sq1 os1)
    show ?thesis using queue_fill_volumes [OF within(3) pos(1) Cons.prems(3)] pos
      unfolding within(6,8) by simp
  qed
qed simp

text \<open>Where a trade comes from: an order of the queue, never the taker's own.\<close>

definition trade_with :: "order \<Rightarrow> bool \<Rightarrow> px \<Rightarrow> order list \<Rightarrow> match \<Rightarrow> bool" where
  "trade_with t stp p os m \<longleftrightarrow>
     mPrice m = p \<and> taker_id t m = oID t \<and>
     (\<exists>x \<in> set os. resting_id t m = oID x \<and> mVolume m \<le> oVolume x \<and> (0 < oVolume x \<longrightarrow> 0 < mVolume m) \<and>
        \<not> (stp \<and> oUserID x = oUserID t))"

lemma trade_with_Cons: "trade_with t stp p os m \<Longrightarrow> trade_with t stp p (r # os) m"
  by (auto simp: trade_with_def)

lemma queue_fill_trades:
  "queue_fill t stp p sq rem ch os = (ms, rem', ch', sq', os') \<Longrightarrow> m \<in> set ms \<Longrightarrow> trade_with t stp p os m"
proof (induction t stp p sq rem ch os arbitrary: ms rule: queue_fill.induct)
  case (1 t stp p sq rem ch)
  then show ?case by simp
next
  case (2 t stp p sq rem ch r rs)
  note run = 2(4) and IH = 2(1-3)
  show ?case
  proof (cases "0 < rem \<and> \<not> (stp \<and> oUserID r = oUserID t)")
    case True
    show ?thesis
    proof (cases "oVolume r \<le> rem")
      case le: True
      then obtain ms0 where k: "queue_fill t stp p (sq + 1) (rem - oVolume r) True rs = (ms0, rem', ch', sq', os')"
        and ms: "ms = (makeMatch t r p (oVolume r))\<lparr>mSeq := sq + 1\<rparr> # ms0"
        using run True by (auto split: prod.splits)
      show ?thesis
      proof (cases "m \<in> set ms0")
        case True
        then show ?thesis using IH(3) [OF _ _ le k] \<open>0 < rem \<and> _\<close> trade_with_Cons by blast
      next
        case False
        then have "m = (makeMatch t r p (oVolume r))\<lparr>mSeq := sq + 1\<rparr>" using ms 2(5) by simp
        then show ?thesis using True by (auto simp: trade_with_def)
      qed
    next
      case False
      then have "m = (makeMatch t r p rem)\<lparr>mSeq := sq + 1\<rparr>" using run True 2(5) by auto
      then show ?thesis using True False by (auto simp: trade_with_def)
    qed
  next
    case False
    then have "trade_with t stp p rs m"
      using run IH(1,2) 2(5) by (auto split: if_splits)
    then show ?thesis by (rule trade_with_Cons)
  qed
qed

lemma ladder_fill_trades:
  "ladder_fill t ac stp l2 smb d sq rem lad = (es, rem', sq', lad') \<Longrightarrow> m \<in> set (trades es) \<Longrightarrow>
   \<exists>(p, os) \<in> set lad. (ac \<or> crosses t p) \<and> trade_with t stp p os m"
proof (induction lad arbitrary: sq rem es)
  case (Cons e lad)
  obtain p os where e: "e = (p, os)" by (cases e)
  from Cons.prems(1) [unfolded e] show ?case
  proof (cases rule: ladder_fill_step)
    case stop
    then show ?thesis using Cons.prems(2) by simp
  next
    case (through ms rem1 ch sq1 es')
    then show ?thesis
      using Cons.prems(2) Cons.IH [OF through(4)] queue_fill_trades [OF through(3)] e by fastforce
  next
    case (within ms ch sq1 os1)
    then show ?thesis using Cons.prems(2) queue_fill_trades [OF within(3)] e by auto
  qed
qed simp

section \<open>Sequence numbers\<close>

definition seq_run :: "uint64 \<Rightarrow> nat \<Rightarrow> uint64 list" where
  "seq_run sq n = map (\<lambda>i. sq + 1 + of_nat i) [0..<n]"

lemma seq_run_simps [simp]:
  "seq_run sq 0 = []" "seq_run sq (Suc n) = (sq + 1) # seq_run (sq + 1) n"
proof -
  have "map (\<lambda>i. sq + 1 + of_nat i) [0..<Suc n] = (sq + 1) # map (\<lambda>i. sq + 1 + of_nat (Suc i)) [0..<n]"
    by (subst upt_conv_Cons) (simp_all add: map_Suc_upt [symmetric] o_def del: upt_Suc)
  then show "seq_run sq (Suc n) = (sq + 1) # seq_run (sq + 1) n"
    by (simp add: seq_run_def add.assoc del: upt_Suc)
qed (simp add: seq_run_def)

lemma seq_run_append: "seq_run sq (m + n) = seq_run sq m @ seq_run (sq + of_nat m) n"
proof (induction m arbitrary: sq)
  case (Suc m)
  have "sq + 1 + of_nat m = sq + of_nat (Suc m)" by simp
  then show ?case using Suc.IH [of "sq + 1"] by (simp only: add_Suc seq_run_simps append_Cons)
qed simp

lemma queue_fill_seq:
  "queue_fill t stp p sq rem ch os = (ms, rem', ch', sq', os') \<Longrightarrow>
   map mSeq ms = seq_run sq (length ms) \<and> sq' = sq + of_nat (length ms)"
  by (induction t stp p sq rem ch os arbitrary: ms rule: queue_fill.induct)
    (auto split: if_splits prod.splits simp: add.assoc)

lemma map_event_seq [simp]: "map event_seq (map Trade ms) = map mSeq ms"
  by simp

lemma ladder_fill_seq:
  "ladder_fill t ac stp l2 smb d sq rem lad = (es, rem', sq', lad') \<Longrightarrow>
   map event_seq es = seq_run sq (length es) \<and> sq' = sq + of_nat (length es)"
proof (induction lad arbitrary: sq rem es)
  case (Cons e lad)
  obtain p os where e: "e = (p, os)" by (cases e)
  have level: "map event_seq (map Trade ms @ depth_event emit smb d p sq1 os1) =
      seq_run sq (length (map Trade ms @ depth_event emit smb d p sq1 os1)) \<and>
      (if emit then sq1 + 1 else sq1) = sq + of_nat (length (map Trade ms @ depth_event emit smb d p sq1 os1))"
    if "queue_fill t stp p sq rem False os = (ms, rem1, ch, sq1, os1)" for ms rem1 ch sq1 os1 emit
    using queue_fill_seq [OF that] seq_run_append [of sq "length ms" 1]
    by (auto simp: depth_event_def o_def add.commute add.left_commute)
  from Cons.prems [unfolded e] show ?case
  proof (cases rule: ladder_fill_step)
    case (through ms rem1 ch sq1 es')
    let ?es1 = "map Trade ms @ depth_event (l2 \<and> ch) smb d p sq1 []"
    note lv = level [OF through(3), of "l2 \<and> ch"]
    from Cons.IH [OF through(4)] lv
    have "map event_seq es' = seq_run (sq + of_nat (length ?es1)) (length es')"
      "sq' = sq + of_nat (length ?es1) + of_nat (length es')" by (simp_all only:)
    moreover have "es = ?es1 @ es'" using through(5) by simp
    ultimately show ?thesis using lv seq_run_append [of sq "length ?es1" "length es'"]
      by (simp only: map_append length_append of_nat_add add.assoc)
  next
    case (within ms ch sq1 os1)
    show ?thesis using level [OF within(3), of "l2 \<and> ch"] unfolding within(6,7) .
  qed simp
qed simp

section \<open>Completeness\<close>

text \<open>Whoever leaves with a remainder has emptied the crossing part of the ladder.\<close>

lemma ladder_fill_complete:
  "ladder_fill t ac stp l2 smb d sq rem lad = (es, rem', sq', lad') \<Longrightarrow> 0 < rem' \<Longrightarrow>
   case lad' of [] \<Rightarrow> True | (p, os) # _ \<Rightarrow> \<not> ac \<and> \<not> crosses t p"
proof (induction lad arbitrary: sq rem es)
  case (Cons e lad)
  obtain p os where e: "e = (p, os)" by (cases e)
  from Cons.prems(1) [unfolded e] show ?case
    using Cons.prems(2) Cons.IH by (cases rule: ladder_fill_step) auto
qed simp

text \<open>What is left of the ladder is its tail, its front level perhaps shortened.\<close>

lemma ladder_fill_prices:
  "ladder_fill t ac stp l2 smb d sq rem lad = (es, rem', sq', lad') \<Longrightarrow>
   \<exists>n. map fst lad' = drop n (map fst lad)"
proof (induction lad arbitrary: sq rem es)
  case (Cons e lad)
  obtain p os where e: "e = (p, os)" by (cases e)
  from Cons.prems [unfolded e] show ?case
  proof (cases rule: ladder_fill_step)
    case stop
    then show ?thesis by (intro exI [of _ 0]) (simp add: e)
  next
    case (through ms rem1 ch sq1 es')
    then obtain n where "map fst lad' = drop n (map fst lad)" using Cons.IH by blast
    then show ?thesis by (intro exI [of _ "Suc n"]) simp
  next
    case (within ms ch sq1 os1)
    then show ?thesis by (intro exI [of _ 0]) (simp add: e)
  qed
qed simp

section \<open>Self-trade prevention out of the picture\<close>

lemma queue_fill_no_own:
  "\<not> stp \<or> (\<forall>x \<in> set os. oUserID x \<noteq> oUserID t) \<Longrightarrow>
   queue_fill t stp p sq rem ch os = queue_fill t False p sq rem ch os"
  by (induction os arbitrary: sq rem ch) auto

lemma ladder_fill_no_own:
  "\<not> stp \<or> (\<forall>(p, os) \<in> set lad. \<forall>x \<in> set os. oUserID x \<noteq> oUserID t) \<Longrightarrow>
   ladder_fill t ac stp l2 smb d sq rem lad = ladder_fill t ac False l2 smb d sq rem lad"
proof (induction lad arbitrary: sq rem)
  case (Cons e lad)
  obtain p os where e: "e = (p, os)" by (cases e)
  have "queue_fill t stp p sq rem False os = queue_fill t False p sq rem False os"
    using Cons.prems e by (intro queue_fill_no_own) auto
  moreover have "ladder_fill t ac stp l2 smb d sq rem lad = ladder_fill t ac False l2 smb d sq rem lad" for sq rem
    using Cons.prems by (intro Cons.IH) auto
  ultimately show ?case by (simp only: e ladder_fill.simps)
qed simp

section \<open>The depth stream\<close>

lemma queue_fill_changed:
  "queue_fill t stp p sq rem ch os = (ms, rem', ch', sq', os') \<Longrightarrow> \<not> ch' \<Longrightarrow> \<not> ch \<and> volumes os' = volumes os"
proof (induction t stp p sq rem ch os arbitrary: ms rule: queue_fill.induct)
  case (1 t stp p sq rem ch)
  then show ?case by simp
next
  case (2 t stp p sq rem ch r rs)
  note run = 2(4) and IH = 2(1-3) and quiet = 2(5)
  show ?case
  proof (cases "0 < rem \<and> \<not> (stp \<and> oUserID r = oUserID t)")
    case True
    show ?thesis
    proof (cases "oVolume r \<le> rem")
      case le: True
      then obtain ms0 where "queue_fill t stp p (sq + 1) (rem - oVolume r) True rs = (ms0, rem', ch', sq', os')"
        using run True by (auto split: prod.splits)
      then show ?thesis using IH(3) [OF _ _ le] True quiet by blast
    next
      case False
      then show ?thesis using run True quiet by auto
    qed
  next
    case no_trade: False
    show ?thesis
    proof (cases "0 < rem \<and> (oSTP t = STPCancelResting \<or> oSTP t = STPDecrement \<and> oVolume r \<le> rem)")
      case True
      then have pos: "\<not> \<not> 0 < rem" and own: "stp \<and> oUserID r = oUserID t" using no_trade by auto
      have k: "\<not> (ch \<or> oVolume r \<noteq> 0) \<and> volumes os' = volumes rs"
      proof (cases "oSTP t = STPCancelResting")
        case cr: True
        have "queue_fill t stp p sq rem (ch \<or> oVolume r \<noteq> 0) rs = (ms, rem', ch', sq', os')"
          using run pos own cr by simp
        from IH(1) [OF pos own cr this quiet] show ?thesis .
      next
        case cr: False
        then have dc: "oSTP t = STPDecrement" "oVolume r \<le> rem" using True by auto
        then have cb: "oSTP t \<noteq> STPCancelBoth" by simp
        have "queue_fill t stp p sq (rem - oVolume r) (ch \<or> oVolume r \<noteq> 0) rs = (ms, rem', ch', sq', os')"
          using run pos own dc by simp
        from IH(2) [OF pos own cr cb dc this quiet] show ?thesis .
      qed
      then have "oVolume r = 0" by blast
      then show ?thesis using k by simp
    next
      case stopped: False
      show ?thesis
      proof (cases "0 < rem")
        case False
        then show ?thesis using run quiet by simp
      next
        case True
        then have own: "stp \<and> oUserID r = oUserID t" and
          mode: "oSTP t \<noteq> STPCancelResting" "\<not> (oSTP t = STPDecrement \<and> oVolume r \<le> rem)"
          using no_trade stopped by blast+
        consider "oSTP t = STPCancelBoth" | "oSTP t = STPDecrement"
          | "oSTP t \<noteq> STPCancelBoth" "oSTP t \<noteq> STPDecrement" by blast
        then show ?thesis
        proof cases
          case 1
          then have "ch' = (ch \<or> oVolume r \<noteq> 0)" "os' = rs" using run True own by simp_all
          then show ?thesis using quiet by simp
        next
          case 2
          then have "ch'" using run True own mode by simp
          then show ?thesis using quiet by simp
        next
          case 3
          then have "ch' = ch" "os' = r # rs" using run True own mode by simp_all
          then show ?thesis using quiet by simp
        qed
      qed
    qed
  qed
qed

lemma mirror_append: "mirror m (ds @ ds') = mirror (mirror m ds) ds'"
  by (simp add: mirror_def)

lemma qty_at_notin: "q \<notin> fst ` set lad \<Longrightarrow> qty_at lad q = 0"
  by (auto simp: qty_at_def map_of_eq_None_iff [THEN iffD2] split: option.splits dest: map_of_SomeD)

lemma ladder_fill_depth:
  "ladder_fill t ac stp True smb d sq rem lad = (es, rem', sq', lad') \<Longrightarrow> distinct (map fst lad) \<Longrightarrow>
   (\<And>q. q \<in> fst ` set lad \<Longrightarrow> m (side_of d) q = qty_at lad q) \<Longrightarrow>
   mirror m (depths es) =
     m(side_of d := (\<lambda>q. if q \<in> fst ` set lad then qty_at lad' q else m (side_of d) q))"
proof (induction lad arbitrary: sq rem es m)
  case Nil
  then show ?case by (simp add: mirror_def)
next
  case (Cons e lad)
  obtain p os where e: "e = (p, os)" by (cases e)
  have dist: "p \<notin> fst ` set lad" "distinct (map fst lad)" using Cons.prems(2) e by auto
  have m: "m (side_of d) p = volumes os" using Cons.prems(3) [of p] e by simp
  have m': "m (side_of d) q = qty_at lad q" if "q \<in> fst ` set lad" for q
    using Cons.prems(3) [of q] that dist(1) e by auto
  have one: "mirror m (depths (map Trade ms @ depth_event ch smb d p sq1 os1)) =
      m(side_of d := (m (side_of d))(p := volumes os1))"
    if "queue_fill t stp p sq rem False os = (ms, rem1, ch, sq1, os1)" for ms rem1 ch sq1 os1
  proof (cases ch)
    case False
    then have "(m (side_of d))(p := volumes os1) = m (side_of d)"
      using queue_fill_changed [OF that] m by (metis fun_upd_triv)
    then show ?thesis using False by (simp add: depth_event_def mirror_def)
  qed (simp add: depth_event_def mirror_def apply_delta_def)
  from Cons.prems(1) [unfolded e] show ?case
  proof (cases rule: ladder_fill_step)
    case stop
    have "m (side_of d) q = qty_at ((p, os) # lad) q" if "q \<in> fst ` set (e # lad)" for q
      using Cons.prems(3) [OF that] by (simp only: e)
    then have "m(side_of d := (\<lambda>q. if q \<in> fst ` set (e # lad) then qty_at ((p, os) # lad) q
        else m (side_of d) q)) = m"
      by (intro fun_upd_idem) auto
    then show ?thesis using stop by (simp only: mirror_def depths.simps foldl.simps)
  next
    case (through ms rem1 ch sq1 es')
    let ?m1 = "m(side_of d := (m (side_of d))(p := 0))"
    have m1: "mirror m (depths (map Trade ms @ depth_event ch smb d p sq1 [])) = ?m1"
      using one [OF through(3)] by simp
    have "?m1 (side_of d) q = qty_at lad q" if "q \<in> fst ` set lad" for q
      using m' [OF that] that dist(1) by auto
    from Cons.IH [OF through(4) [simplified] dist(2), of ?m1, OF this]
    have m2: "mirror ?m1 (depths es') =
        ?m1(side_of d := (\<lambda>q. if q \<in> fst ` set lad then qty_at lad' q else ?m1 (side_of d) q))" .
    obtain n where "map fst lad' = drop n (map fst lad)" using ladder_fill_prices [OF through(4)] by blast
    then have "fst ` set lad' \<subseteq> fst ` set lad" by (metis list.set_map set_drop_subset)
    then have p0: "qty_at lad' p = 0" using dist(1) by (intro qty_at_notin) auto
    have "mirror m (depths es) = mirror ?m1 (depths es')"
      using m1 unfolding through(5) append_assoc [symmetric] depths_append mirror_append by simp
    also have "\<dots> = m(side_of d := (\<lambda>q. if q \<in> fst ` set (e # lad) then qty_at lad' q else m (side_of d) q))"
      unfolding m2 using p0 dist(1) by (auto simp: e fun_eq_iff)
    finally show ?thesis .
  next
    case (within ms ch sq1 os1)
    have "mirror m (depths es) = m(side_of d := (m (side_of d))(p := volumes os1))"
      using one [OF within(3)] unfolding within(6) by simp
    also have "\<dots> = m(side_of d := (\<lambda>q. if q \<in> fst ` set (e # lad) then qty_at lad' q else m (side_of d) q))"
      unfolding within(8) using m' by (auto simp: e fun_eq_iff)
    finally show ?thesis .
  qed
qed

end
