(* ===== verification/EngineSpec.thy ===== *)
theory EngineSpec
  imports Engine MatchRefine MatchFacts
begin

text \<open>
  What the engine's pre-checks compute, and how each invariant of the book passes
  through the book operations the engine calls.
\<close>

section \<open>Matching, seen from outside\<close>

text \<open>The self-trade switch as \<^verbatim>\<open>MatchTaker\<close> computes it.\<close>

definition stp_on :: "order \<Rightarrow> bool" where
  "stp_on t \<longleftrightarrow> oUserID t \<noteq> 0 \<and> oSTP t \<noteq> STPNone"

lemma MatchTaker_run:
  assumes "book_wf ob" and "oSide t = side_of (\<not> d)"
  obtains es rem sq lad ob' where
    "ladder_fill t ac (stp_on t) (obL2 ob) (obSymbol ob) d (obSeq ob) (oVolume t) (view d ob) = (es, rem, sq, lad)"
    "MatchTaker t ac ob = Some (trades es, rem, ob')" "matched d ob es sq lad ob'"
proof -
  obtain es rem sq lad where
    "ladder_fill t ac (stp_on t) (obL2 ob) (obSymbol ob) d (obSeq ob) (oVolume t) (view d ob) = (es, rem, sq, lad)"
    by (metis prod_cases4)
  then show ?thesis
    using MatchTaker_refines [OF assms, of ac es rem sq lad] that unfolding stp_on_def by blast
qed

lemma MatchTaker_other: "oSide t \<noteq> BUY \<Longrightarrow> oSide t \<noteq> SELL \<Longrightarrow> MatchTaker t ac ob = Some ([], oVolume t, ob)"
  by (simp add: MatchTaker_def)

lemma side_cases:
  obtains (side) d where "sd = side_of (\<not> d)" | (other) "sd \<noteq> BUY" "sd \<noteq> SELL"
  using side_of_eq by (metis (full_types))

lemma crosses_side:
  "oSide t = side_of (\<not> d) \<Longrightarrow> crosses t p \<longleftrightarrow> \<not> better d (oPrice t) p"
  by (cases d) (auto simp: crosses_def better_def px_qty_simps)

lemma matchedD:
  assumes "matched d ob es sq lad ob'"
  shows "book_wf ob'" "view d ob' = lad" "view (\<not> d) ob' = view (\<not> d) ob"
    "book_indexed ob \<Longrightarrow> book_indexed ob'" "obIndex ob' \<subseteq>\<^sub>m obIndex ob" "obSeq ob' = sq"
    "obDeltas ob' = obDeltas ob @ depths es" "obL2 ob' = obL2 ob" "obSymbol ob' = obSymbol ob"
    "obConditional ob' = obConditional ob"
  using assms by (simp_all add: matched_def)

section \<open>Cancelling and shrinking without unique IDs\<close>

lemma Cancel_wf:
  assumes wf: "book_wf ob"
  shows "book_wf (snd (Cancel i ob))"
    and "set (map fst (view d' (snd (Cancel i ob)))) \<subseteq> set (map fst (view d' ob))"
    and "obConditional (snd (Cancel i ob)) = obConditional ob"
proof -
  define G where "G = level_nodes ob"
  have wg: "wf_ghost ob G" and ne: "\<And>la. la \<in> levels_of ob \<Longrightarrow> G la \<noteq> []"
    using wf by (auto simp: book_wf_def G_def)
  have "book_wf (snd (Cancel i ob)) \<and> set (map fst (view d' (snd (Cancel i ob)))) \<subseteq> set (map fst (view d' ob))
    \<and> obConditional (snd (Cancel i ob)) = obConditional ob"
  proof (cases "obIndex ob i")
    case None
    then show ?thesis using wf by (simp add: Cancel_missing)
  next
    case (Some n)
    from wg Some show ?thesis
    proof (cases rule: Cancel_cases)
      case (1 d la as bs b1 b2 ob1)
      let ?ob2 = "unlink la n ob"
      note u = unlink_contract [OF wg 1(2,3)]
      have lv1: "levels_of ob1 = (if as @ bs = [] then levels_of ob - {la} else levels_of ob)"
        using levels_of_drop [OF u(1), of d b1 la b2] 1(1) by (simp add: 1(5) frame_simps)
      have "book_wf ob1"
        using 1(6) lv1 ne by (intro book_wfI [of _ "G(la := as @ bs)"]) (auto split: if_splits)
      moreover have "set (book_of d' ob1) \<subseteq> set (book_of d' ob)" and "level_price ob1 = level_price ob"
        and "obConditional ob1 = obConditional ob"
        using 1(1) u(3) by (auto simp: 1(5) frame_simps)
      ultimately show ?thesis
        unfolding 1(7) view_prices by (auto simp: frame_simps level_price_fun)
    qed
  qed
  then show "book_wf (snd (Cancel i ob))"
    "set (map fst (view d' (snd (Cancel i ob)))) \<subseteq> set (map fst (view d' ob))"
    "obConditional (snd (Cancel i ob)) = obConditional ob" by blast+
qed

lemma ReduceVolume_wf:
  assumes wf: "book_wf ob"
  shows "book_wf (snd (ReduceVolume i v ob))"
    and "set (map fst (view d' (snd (ReduceVolume i v ob)))) \<subseteq> set (map fst (view d' ob))"
    and "obConditional (snd (ReduceVolume i v ob)) = obConditional ob"
proof -
  define G where "G = level_nodes ob"
  have wg: "wf_ghost ob G" and ne: "\<And>la. la \<in> levels_of ob \<Longrightarrow> G la \<noteq> []"
    using wf by (auto simp: book_wf_def G_def)
  have "book_wf (snd (ReduceVolume i v ob)) \<and>
    set (map fst (view d' (snd (ReduceVolume i v ob)))) \<subseteq> set (map fst (view d' ob)) \<and>
    obConditional (snd (ReduceVolume i v ob)) = obConditional ob"
  proof (cases "v = 0")
    case True
    then show ?thesis using Cancel_wf [OF wf] by (simp add: ReduceVolume_def px_qty_simps)
  next
    case v: False
    show ?thesis
    proof (cases "\<exists>n. obIndex ob i = Some n \<and> v < oVolume (order_at ob n)")
      case False
      then show ?thesis using wf v by (auto simp: ReduceVolume_def px_qty_simps split: option.splits)
    next
      case True
      then obtain n where n: "obIndex ob i = Some n" "v < oVolume (order_at ob n)" by blast
      from wg n(1) v n(2) show ?thesis
      proof (cases rule: ReduceVolume_cases)
        case (1 d la as bs b1 b2)
        note u = revolume_contract [OF wg 1(2,3), of v]
        have "book_wf (revolume la n v ob)" using 1(5) ne by (intro book_wfI [of _ G]) simp_all
        moreover have "level_price (revolume la n v ob) = level_price ob" using u(3) by auto
        ultimately show ?thesis
          unfolding 1(6) view_prices by (simp add: frame_simps level_price_fun)
      qed
    qed
  qed
  then show "book_wf (snd (ReduceVolume i v ob))"
    "set (map fst (view d' (snd (ReduceVolume i v ob)))) \<subseteq> set (map fst (view d' ob))"
    "obConditional (snd (ReduceVolume i v ob)) = obConditional ob" by blast+
qed

lemma Add_wf: "book_wf ob \<Longrightarrow> book_wf (snd (Add ord ob))"
proof (cases "oSide ord" rule: side_cases)
  case (side d)
  assume "book_wf ob"
  then show ?thesis using side by (rule Add_refines) simp
qed (simp add: Add_other_side)

section \<open>Uncrossed books\<close>

text \<open>Every bid is below every ask.\<close>

definition uncrossed :: "orderbook \<Rightarrow> bool" where
  "uncrossed ob \<longleftrightarrow>
     (\<forall>b \<in> set (map fst (view True ob)). \<forall>a \<in> set (map fst (view False ob)). b < a)"

lemma uncrossed_side:
  "uncrossed ob \<longleftrightarrow> (\<forall>p \<in> set (map fst (view d ob)). \<forall>q \<in> set (map fst (view (\<not> d) ob)). better d q p)"
  by (cases d) (auto simp: uncrossed_def better_def)

lemma uncrossed_subset:
  assumes "uncrossed ob" and "\<And>d. set (map fst (view d ob')) \<subseteq> set (map fst (view d ob))"
  shows "uncrossed ob'"
  using assms unfolding uncrossed_def by blast

lemma prices_insert: "set (map fst (lad_insert d ord lad)) = insert (oPrice ord) (set (map fst lad))"
  by (induction d ord lad rule: lad_insert.induct) auto

lemma matched_prices:
  assumes "ladder_fill t ac stp l2 smb d sq rem (view d ob) = (es, rem', sq', lad)" and "matched d ob es sq' lad ob'"
  shows "set (map fst (view d' ob')) \<subseteq> set (map fst (view d' ob))"
proof (cases "d' = d")
  case True
  obtain n where "map fst lad = drop n (map fst (view d ob))" using ladder_fill_prices [OF assms(1)] by blast
  then show ?thesis unfolding True matchedD(2) [OF assms(2)] by (simp only: set_drop_subset)
next
  case False
  then have "d' = (\<not> d)" by auto
  then show ?thesis using matchedD(3) [OF assms(2)] by simp
qed

lemma MatchTaker_uncrossed:
  assumes wf: "book_wf ob" and "uncrossed ob" and run: "MatchTaker t ac ob = Some (ms, rem, ob')"
  shows "book_wf ob' \<and> uncrossed ob'"
proof (cases "oSide t" rule: side_cases)
  case other
  then show ?thesis using assms by (simp add: MatchTaker_other)
next
  case (side d)
  from wf side obtain es rem1 sq lad ob1 where
    "ladder_fill t ac (stp_on t) (obL2 ob) (obSymbol ob) d (obSeq ob) (oVolume t) (view d ob) = (es, rem1, sq, lad)"
    "MatchTaker t ac ob = Some (trades es, rem1, ob1)" and m: "matched d ob es sq lad ob1"
    by (rule MatchTaker_run [where ac = ac])
  then show ?thesis
    using uncrossed_subset [OF assms(2)] matched_prices matchedD(1) [OF m] run by fastforce
qed

text \<open>A remainder rests without crossing: the ladder it faces was emptied down to its price.\<close>

lemma rest_uncrossed:
  assumes wf: "book_wf ob" and un: "uncrossed ob"
    and run: "MatchTaker t False ob = Some (ms, rem, ob')" and pos: "0 < rem"
  shows "uncrossed (snd (Add (t\<lparr>oVolume := rem\<rparr>) ob'))"
proof (cases "oSide t" rule: side_cases)
  case other
  then show ?thesis using un run by (simp add: MatchTaker_other Add_other_side)
next
  case (side d)
  from wf side obtain es rem1 sq lad ob1 where
    fill: "ladder_fill t False (stp_on t) (obL2 ob) (obSymbol ob) d (obSeq ob) (oVolume t) (view d ob) = (es, rem1, sq, lad)"
    and mt: "MatchTaker t False ob = Some (trades es, rem1, ob1)" and m: "matched d ob es sq lad ob1"
    by (rule MatchTaker_run [where ac = False])
  have eq: "ob1 = ob'" "rem1 = rem" using run mt by simp_all
  have wf': "book_wf ob'" and v: "view d ob' = lad" using matchedD(1,2) [OF m] eq by simp_all
  have un': "uncrossed ob'" using MatchTaker_uncrossed [OF wf un run] by simp
  let ?o = "t\<lparr>oVolume := rem\<rparr>"
  have "oSide ?o = side_of (\<not> d)" using side by simp
  with wf' obtain n ob2 where a: "Add ?o ob' = (Some n, ob2)"
    "view (\<not> d) ob2 = lad_insert (\<not> d) ?o (view (\<not> d) ob')" "view (\<not> \<not> d) ob2 = view (\<not> \<not> d) ob'"
    by (rule Add_refines)
  have best: "better d (oPrice t) p" if p: "p \<in> set (map fst (view d ob'))" for p
  proof -
    obtain p0 os lad0 where lad: "lad = (p0, os) # lad0" using p v by (cases lad) auto
    have "\<not> crosses t p0" using ladder_fill_complete [OF fill] pos eq lad by simp
    then have b0: "better d (oPrice t) p0" using crosses_side [OF side] by simp
    have "sorted_wrt (better d) (map fst (view d ob'))" by (rule view_sorted [OF book_wf_ghost [OF wf']])
    then have "p = p0 \<or> better d p0 p" using p v lad by auto
    then show ?thesis using b0 ladder.trans by blast
  qed
  show ?thesis
    unfolding uncrossed_side [of _ d] a(1) snd_conv a(2) a(3) [unfolded not_not] prices_insert
    using best un' [unfolded uncrossed_side [of _ d]] by auto
qed

section \<open>The fill-or-kill pre-check\<close>

fun queue_need :: "qty \<Rightarrow> order list \<Rightarrow> bool \<times> qty" where
  "queue_need need [] = (False, need)"
| "queue_need need (x # xs) =
     (if \<not> 0 < need - oVolume x then (True, need - oVolume x) else queue_need (need - oVolume x) xs)"

fun can_fill :: "order \<Rightarrow> qty \<Rightarrow> ladder \<Rightarrow> bool" where
  "can_fill t need [] = False"
| "can_fill t need ((p, os) # lad) =
     (if \<not> crosses t p then False
      else case queue_need need os of (met, need1) \<Rightarrow> met \<or> can_fill t need1 lad)"

lemma scan_nodes_chain:
  "chain (nsNode s) p xs None \<Longrightarrow> scan_nodes s (hd_or xs None) need = Some (queue_need need (orders_of s xs))"
proof (induction xs arbitrary: p need)
  case Nil
  then show ?case by (subst scan_nodes.simps) simp
next
  case (Cons x xs)
  then have "nNext (nsNode s x) = hd_or xs None" "chain (nsNode s) (Some x) xs None" by simp_all
  then show ?case using Cons.IH by (subst scan_nodes.simps) (simp add: Let_def px_qty_simps)
qed

lemma scan_levels_refines:
  assumes wf: "wf_ghost ob G" and cr: "\<And>p. cp p = crosses t p"
  shows "set b \<subseteq> levels_of ob \<Longrightarrow> scan_levels ob cp need b = Some (can_fill t need (map (rung ob G) b))"
proof (induction b arbitrary: need)
  case (Cons la b)
  have r: "level_rep la (obNodes ob) (obLevels ob la) (G la)"
    using Cons.prems by (intro wf_ghost_nodes(2) [OF wf]) simp
  have "scan_nodes (obNodes ob) (list_Head (lvOrders (obLevels ob la))) need =
      Some (queue_need need (map (order_at ob) (G la)))"
    using r level_rep_Head [OF r] scan_nodes_chain [of "obNodes ob" None "G la" need]
    by (simp add: level_rep_def list_rep_def orders_of_at)
  then show ?case using Cons by (simp add: cr split: prod.splits)
qed simp

lemma canFullyFill_refines:
  assumes "book_wf ob" and "oSide t = side_of (\<not> d)"
  shows "canFullyFill ob t = Some (can_fill t (oVolume t) (view d ob))"
proof -
  have wg: "wf_ghost ob (level_nodes ob)" by (rule book_wf_ghost [OF assms(1)])
  have sub: "set (book_of d ob) \<subseteq> levels_of ob" by (auto dest: levels_of_in)
  show ?thesis
  proof (cases d)
    case True
    then show ?thesis
      using assms(2) sub scan_levels_refines [OF wg, of "\<lambda>p. px_Lte (oPrice t) p" t "obBuy ob" "oVolume t"]
      by (simp add: canFullyFill_def view_ghost [OF wg] gview_def crosses_def book_of_def)
  next
    case False
    then show ?thesis
      using assms(2) sub scan_levels_refines [OF wg, of "\<lambda>p. px_Gte (oPrice t) p" t "obSell ob" "oVolume t"]
      by (simp add: canFullyFill_def view_ghost [OF wg] gview_def crosses_def book_of_def)
  qed
qed

lemma canFullyFill_total:
  assumes "book_wf ob" shows "canFullyFill ob t \<noteq> None"
proof (cases "oSide t" rule: side_cases)
  case (side d)
  then show ?thesis using canFullyFill_refines [OF assms side] by (simp only: option.distinct not_False_eq_True)
qed (simp add: canFullyFill_def)

text \<open>The queue meets the need exactly when filling it uses the taker up.\<close>

lemma queue_need_fill:
  "queue_fill t False p sq need ch os = (ms, rem', ch', sq', os') \<Longrightarrow> queue_need need os = (met, need1) \<Longrightarrow>
   0 < need \<Longrightarrow> \<forall>x \<in> set os. 0 < oVolume x \<Longrightarrow>
   (if met then \<not> 0 < rem' else rem' = need1 \<and> 0 < need1 \<and> os' = [])"
proof (induction os arbitrary: sq need ch ms)
  case (Cons x xs)
  have x: "0 < oVolume x" and pos: "\<forall>x \<in> set xs. 0 < oVolume x" using Cons.prems(4) by simp_all
  note need = Cons.prems(3)
  show ?case
  proof (cases "oVolume x < need")
    case True
    then have d: "0 < need - oVolume x" using x by (intro qty_diff_pos)
    obtain ms0 where "queue_fill t False p (sq + 1) (need - oVolume x) True xs = (ms0, rem', ch', sq', os')"
      using Cons.prems(1) True less_imp_le [OF True] need by (auto split: prod.splits)
    from Cons.IH [OF this _ d pos] show ?thesis using Cons.prems(2) d by simp
  next
    case False
    have nd: "\<not> 0 < need - oVolume x"
    proof (cases "oVolume x = need")
      case False
      then have "0 < oVolume x - need" using \<open>\<not> oVolume x < need\<close> need by (intro qty_diff_pos) auto
      moreover have "qty_val (need - oVolume x) = qty_val need - qty_val (oVolume x)"
        using need x qty_val_bounds [of need] qty_val_bounds [of "oVolume x"]
        by (intro qty_val_diff) (simp_all add: qty_pos_iff)
      moreover have "qty_val need \<le> qty_val (oVolume x)" using \<open>\<not> oVolume x < need\<close> by (simp add: less_qty_def)
      ultimately show ?thesis by (simp add: qty_pos_iff)
    qed simp
    have "\<not> 0 < rem'"
    proof (cases "oVolume x = need")
      case True
      then show ?thesis using Cons.prems(1) need by (auto simp: queue_fill_done split: prod.splits)
    next
      case ne: False
      then have "\<not> oVolume x \<le> need" using False by auto
      then show ?thesis using Cons.prems(1) need by auto
    qed
    then show ?thesis using Cons.prems(2) nd by auto
  qed
qed simp

lemma can_fill_fills:
  "ladder_fill t False False l2 smb d sq need lad = (es, rem', sq', lad') \<Longrightarrow> can_fill t need lad \<Longrightarrow>
   0 < need \<Longrightarrow> lad_positive lad \<Longrightarrow> \<not> 0 < rem'"
proof (induction lad arbitrary: sq need es)
  case (Cons e lad)
  obtain p os where e: "e = (p, os)" by (cases e)
  have pos: "\<forall>x \<in> set os. 0 < oVolume x" "lad_positive lad" using Cons.prems(4) e by simp_all
  obtain met need1 where q: "queue_need need os = (met, need1)" by (cases "queue_need need os")
  have c: "crosses t p" "met \<or> can_fill t need1 lad" using Cons.prems(2) q by (auto simp: e split: if_splits)
  from Cons.prems(1) [unfolded e] show ?case
  proof (cases rule: ladder_fill_step)
    case stop
    then show ?thesis using c(1) Cons.prems(3) by simp
  next
    case (through ms rem1 ch sq1 es')
    note k = queue_need_fill [OF through(3) q Cons.prems(3) pos(1)]
    show ?thesis
    proof (cases met)
      case True
      then have "\<not> 0 < rem1" using k by simp
      then have "rem' = rem1" using through(4) by (cases lad) auto
      then show ?thesis using \<open>\<not> 0 < rem1\<close> by simp
    next
      case False
      then show ?thesis using k c(2) Cons.IH [OF through(4) _ _ pos(2)] by simp
    qed
  next
    case (within ms ch sq1 os1)
    then show ?thesis by simp
  qed
qed simp

end
