(* ===== verification/EngineInv.thy ===== *)
theory EngineInv
  imports EngineSpec
begin

text \<open>
  The interface between the book and the engine. A predicate that the book
  operations keep (\<open>book_invariant\<close>) is kept by every engine operation, and every
  engine operation returns; one that does not ask for fresh order IDs
  (\<open>unconditional_invariant\<close>) is also kept by the promotion of conditional orders.
  Interpreted for well-formedness, for uncrossed books, for indexed positive books
  and for the depth stream.
\<close>

locale book_invariant =
  fixes I :: "orderbook \<Rightarrow> bool" and fresh :: "order_id \<Rightarrow> orderbook \<Rightarrow> bool"
    and amount :: "qty \<Rightarrow> bool"
  assumes wf: "I ob \<Longrightarrow> book_wf ob"
    and match_keeps: "I ob \<Longrightarrow> MatchTaker t ac ob = Some (ms, rem, ob') \<Longrightarrow> I ob'"
    and rest_keeps: "I ob \<Longrightarrow> fresh (oID t) ob \<Longrightarrow> MatchTaker t False ob = Some (ms, rem, ob') \<Longrightarrow>
      0 < rem \<Longrightarrow> I (snd (Add (t\<lparr>oVolume := rem\<rparr>) ob'))"
    and enqueue_keeps: "I ob \<Longrightarrow> I (AddConditionalOrder t ob)"
    and cancel_keeps: "I ob \<Longrightarrow> I (snd (Cancel i ob))"
    and reduce_keeps: "I ob \<Longrightarrow> amount v \<Longrightarrow> I (snd (ReduceVolume i v ob))"
    and cancel_frees: "I ob \<Longrightarrow> LookupOrder i ob = Some x \<Longrightarrow> fresh (oID x) (snd (Cancel i ob))"
begin

lemma match_returns: "I ob \<Longrightarrow> \<exists>ms rem ob'. MatchTaker t ac ob = Some (ms, rem, ob') \<and> I ob'"
proof -
  assume I: "I ob"
  have "\<exists>ms rem ob'. MatchTaker t ac ob = Some (ms, rem, ob')"
  proof (cases "oSide t" rule: side_cases)
    case (side d)
    show ?thesis by (rule MatchTaker_run [OF wf [OF I] side, of ac]) blast
  qed (simp add: MatchTaker_other)
  then show ?thesis using match_keeps [OF I] by blast
qed

lemma limit_keeps:
  assumes I: "I ob" and f: "fresh (oID t) ob"
  shows "\<exists>r ob'. handleLimitOrder ob t = Some (r, ob') \<and> I ob'"
proof -
  obtain b where b: "canFullyFill ob t = Some b" using canFullyFill_total [OF wf [OF I]] by blast
  obtain ms rem ob1 where m: "MatchTaker t False ob = Some (ms, rem, ob1)" "I ob1"
    using match_returns [OF I] by blast
  have "I (snd (Add (t\<lparr>oVolume := rem\<rparr>) ob1))" if "0 < rem" using rest_keeps [OF I f m(1) that] .
  then show ?thesis using I m b by (auto simp: handleLimitOrder_def px_qty_simps)
qed

lemma market_keeps: "I ob \<Longrightarrow> \<exists>r ob'. handleMarketOrder ob t = Some (r, ob') \<and> I ob'"
  using match_returns [of ob t True] by (auto simp: handleMarketOrder_def)

lemma new_order_keeps:
  assumes "I ob" and "fresh (oID t) ob"
  shows "\<exists>r ob'. MatchAndAddNewOrder ob t = Some (r, ob') \<and> I ob'"
  using limit_keeps [of ob "Normalize t"] market_keeps [of ob "Normalize t"] enqueue_keeps assms
  by (simp add: MatchAndAddNewOrder_def handleStopLimitOrder_def Let_def)

lemma cancel_order_keeps: "I ob \<Longrightarrow> I (snd (CancelOrder ob i))"
  by (simp add: CancelOrder_def cancel_keeps)

lemma modify_keeps:
  assumes I: "I ob" and v: "amount v"
  shows "\<exists>r ob'. ModifyOrder ob i p v = Some (r, ob') \<and> I ob'"
proof (cases "LookupOrder i ob")
  case None
  then show ?thesis using I by (simp add: ModifyOrder_def)
next
  case (Some x)
  obtain e ob1 where c: "Cancel i ob = (e, ob1)" by fastforce
  obtain e' ob2 where r: "ReduceVolume i v ob = (e', ob2)" by fastforce
  have I1: "I ob1" "fresh (oID x) ob1"
    using cancel_keeps [OF I, of i] cancel_frees [OF I Some] c by simp_all
  have I2: "I ob2" using reduce_keeps [OF I v, of i] r by simp
  have "\<exists>r ob'. MatchAndAddNewOrder ob1 (x\<lparr>oPrice := p, oVolume := v\<rparr>) = Some (r, ob') \<and> I ob'"
    using I1 by (intro new_order_keeps) simp_all
  then show ?thesis
    using I1 I2 Some c r by (auto simp: ModifyOrder_def Let_def split: option.splits)
qed

end

locale unconditional_invariant = book_invariant +
  assumes always_fresh: "fresh i ob"
begin

lemma promote_one_keeps: "I ob \<Longrightarrow> \<exists>ms ob'. promote_order t lm ob = Some (ms, ob') \<and> I ob'"
proof (induction lm arbitrary: ob)
  case (Cons m lm)
  obtain r ob1 where "handleLimitOrder ob t = Some (r, ob1)" "I ob1"
    using limit_keeps [OF Cons.prems always_fresh] by blast
  then show ?case using Cons.IH [of ob1] Cons.IH [OF Cons.prems] by auto
qed simp

lemma promote_keeps: "I ob \<Longrightarrow> \<exists>ms ob'. promote_orders ts lm ob = Some (ms, ob') \<and> I ob'"
proof (induction ts arbitrary: ob)
  case (Cons t ts)
  obtain ms1 ob1 where "promote_order t lm ob = Some (ms1, ob1)" "I ob1"
    using promote_one_keeps [OF Cons.prems] by blast
  then show ?case using Cons.IH [of ob1] by auto
qed simp

lemma conditional_keeps: "I ob \<Longrightarrow> \<exists>ms ob'. HandleConditionalOrders ob lm = Some (ms, ob') \<and> I ob'"
  unfolding HandleConditionalOrders_def by (rule promote_keeps)

end

section \<open>Well-formed books\<close>

lemma conditional_frame [frame_simps]:
  "book_of d (ob\<lparr>obConditional := c\<rparr>) = book_of d ob" "by_price d (ob\<lparr>obConditional := c\<rparr>) = by_price d ob"
  "level_price (ob\<lparr>obConditional := c\<rparr>) la = level_price ob la"
  "order_at (ob\<lparr>obConditional := c\<rparr>) n = order_at ob n" "levels_of (ob\<lparr>obConditional := c\<rparr>) = levels_of ob"
  "level_nodes (ob\<lparr>obConditional := c\<rparr>) = level_nodes ob"
  "level_orders (ob\<lparr>obConditional := c\<rparr>) = level_orders ob"
  by (auto simp: book_of_def by_price_def level_price_def order_at_def levels_of_def level_nodes_def
      level_orders_def)

lemma AddConditionalOrder_keeps [simp]:
  "book_wf (AddConditionalOrder t ob) = book_wf ob" "view d (AddConditionalOrder t ob) = view d ob"
  "book_indexed (AddConditionalOrder t ob) = book_indexed ob"
  "book_positive (AddConditionalOrder t ob) = book_positive ob"
  "l2_sound base (AddConditionalOrder t ob) = l2_sound base ob"
  "LookupOrder i (AddConditionalOrder t ob) = LookupOrder i ob"
  by (simp_all add: AddConditionalOrder_def book_wf_def wf_ghost_def ladder_inv_def index_ok_def view_def
      book_indexed_def book_positive_def l2_sound_def depth_of_def fun_eq_iff LookupOrder_def frame_simps
      cong: option.case_cong)

lemma MatchTaker_wf:
  assumes "book_wf ob" and "MatchTaker t ac ob = Some (ms, rem, ob')"
  shows "book_wf ob'"
proof (cases "oSide t" rule: side_cases)
  case other
  then show ?thesis using assms by (simp add: MatchTaker_other)
next
  case (side d)
  show ?thesis
    by (rule MatchTaker_run [OF assms(1) side, of ac]) (use assms(2) matchedD(1) in auto)
qed

interpretation wf: unconditional_invariant book_wf "\<lambda>_ _. True" "\<lambda>_. True"
  by unfold_locales (auto simp: MatchTaker_wf Add_wf Cancel_wf(1) ReduceVolume_wf(1))

interpretation uncrossed: unconditional_invariant "\<lambda>ob. book_wf ob \<and> uncrossed ob" "\<lambda>_ _. True" "\<lambda>_. True"
proof unfold_locales
  fix ob t ms rem ob'
  assume I: "book_wf ob \<and> uncrossed ob" and run: "MatchTaker t False ob = Some (ms, rem, ob')" and "0 < rem"
  then show "book_wf (snd (Add (t\<lparr>oVolume := rem\<rparr>) ob')) \<and> uncrossed (snd (Add (t\<lparr>oVolume := rem\<rparr>) ob'))"
    using Add_wf [OF MatchTaker_wf [OF _ run]] rest_uncrossed [OF _ _ run] by blast
next
  fix ob t ac ms rem ob'
  assume "book_wf ob \<and> uncrossed ob" and run: "MatchTaker t ac ob = Some (ms, rem, ob')"
  then show "book_wf ob' \<and> uncrossed ob'" using MatchTaker_uncrossed [OF _ _ run] by blast
next
  fix ob i
  assume "book_wf ob \<and> uncrossed ob"
  then show "book_wf (snd (Cancel i ob)) \<and> uncrossed (snd (Cancel i ob))"
    using Cancel_wf(1,2) uncrossed_subset by blast
next
  fix ob v i
  assume "book_wf ob \<and> uncrossed ob"
  then show "book_wf (snd (ReduceVolume i v ob)) \<and> uncrossed (snd (ReduceVolume i v ob))"
    using ReduceVolume_wf(1,2) uncrossed_subset by blast
qed (simp_all add: uncrossed_def)

section \<open>Indexed, positive books\<close>

definition book_ok :: "orderbook \<Rightarrow> bool" where
  "book_ok ob \<longleftrightarrow> book_wf ob \<and> book_indexed ob \<and> book_positive ob"

lemma book_positive_view: "book_positive ob \<longleftrightarrow> (\<forall>d. lad_positive (view d ob))"
  by (auto simp: book_positive_def lad_positive_def view_def levels_of_book)

lemma positive_sideI:
  "lad_positive (view d ob) \<Longrightarrow> lad_positive (view (\<not> d) ob) \<Longrightarrow> book_positive ob"
  by (cases d) (simp_all add: book_positive_view all_bool_eq)

lemma lad_positive_insert: "lad_positive lad \<Longrightarrow> 0 < oVolume ord \<Longrightarrow> lad_positive (lad_insert d ord lad)"
  by (induction d ord lad rule: lad_insert.induct) auto

lemma lad_positive_remove: "lad_positive lad \<Longrightarrow> lad_positive (lad_remove i lad)"
  by (auto simp: lad_positive_def lad_remove_def)

lemma lad_positive_resize: "lad_positive lad \<Longrightarrow> 0 < v \<Longrightarrow> lad_positive (lad_resize i v lad)"
  by (induction lad) (auto simp: resize_def case_prod_beta lad_positive_def)

lemma LookupOrder_None: "LookupOrder i ob = None \<longleftrightarrow> obIndex ob i = None"
  by (simp add: LookupOrder_def split: option.splits)

lemma MatchTaker_index:
  assumes "book_wf ob" and "MatchTaker t ac ob = Some (ms, rem, ob')"
  shows "book_indexed ob \<Longrightarrow> book_indexed ob'" and "obIndex ob' \<subseteq>\<^sub>m obIndex ob"
    and "book_positive ob \<Longrightarrow> book_positive ob'"
proof -
  have "(book_indexed ob \<longrightarrow> book_indexed ob') \<and> obIndex ob' \<subseteq>\<^sub>m obIndex ob \<and>
    (book_positive ob \<longrightarrow> book_positive ob')"
  proof (cases "oSide t" rule: side_cases)
    case other
    then show ?thesis using assms by (simp add: MatchTaker_other)
  next
    case (side d)
    from assms(1) side obtain es rem1 sq lad ob1 where
      f: "ladder_fill t ac (stp_on t) (obL2 ob) (obSymbol ob) d (obSeq ob) (oVolume t) (view d ob) = (es, rem1, sq, lad)"
      and r: "MatchTaker t ac ob = Some (trades es, rem1, ob1)" and m: "matched d ob es sq lad ob1"
      by (rule MatchTaker_run [where ac = ac])
    have eq: "ob1 = ob'" using r assms(2) by simp
    have "book_positive ob'" if pos: "book_positive ob"
    proof -
      have "lad_positive lad"
      proof (cases "0 \<le> oVolume t")
        case True
        then show ?thesis using ladder_fill_volumes [OF f] pos by (simp add: book_positive_view)
      next
        case False
        then have "lad = view d ob" using f by (cases "view d ob") (auto split: if_splits)
        then show ?thesis using pos by (simp add: book_positive_view)
      qed
      then show ?thesis
        using pos matchedD(2,3) [OF m] eq by (intro positive_sideI [of d]) (simp_all add: book_positive_view)
    qed
    then show ?thesis using matchedD(4,5) [OF m] eq by blast
  qed
  then show "book_indexed ob \<Longrightarrow> book_indexed ob'" "obIndex ob' \<subseteq>\<^sub>m obIndex ob"
    "book_positive ob \<Longrightarrow> book_positive ob'" by blast+
qed

lemma Add_ok:
  assumes "book_ok ob" and "LookupOrder (oID ord) ob = None" and "0 < oVolume ord"
  shows "book_ok (snd (Add ord ob))"
proof (cases "oSide ord" rule: side_cases)
  case other
  then show ?thesis using assms(1) by (simp add: Add_other_side)
next
  case (side d)
  have wf: "book_wf ob" and ix: "book_indexed ob" and pos: "lad_positive (view d' ob)" for d'
    using assms(1) by (auto simp: book_ok_def book_positive_view)
  show ?thesis
  proof (rule Add_refines [OF wf side])
    fix n ob'
    assume a: "Add ord ob = (Some n, ob')" "book_wf ob'"
      "view (\<not> d) ob' = lad_insert (\<not> d) ord (view (\<not> d) ob)" "view (\<not> \<not> d) ob' = view (\<not> \<not> d) ob"
      "book_indexed ob \<Longrightarrow> obIndex ob (oID ord) = None \<Longrightarrow> book_indexed ob'"
    have "book_indexed ob'" using a(5) ix assms(2) by (simp add: LookupOrder_None)
    moreover have "book_positive ob'"
      using a(3,4) pos lad_positive_insert [OF pos assms(3)] by (intro positive_sideI [of d]) simp_all
    ultimately show ?thesis using a(1,2) by (simp add: book_ok_def)
  qed
qed

lemma Cancel_ok:
  assumes "book_ok ob" shows "book_ok (snd (Cancel i ob))"
proof (cases "LookupOrder i ob")
  case None
  then show ?thesis using assms by (simp add: LookupOrder_None Cancel_missing)
next
  case (Some x)
  have wf: "book_wf ob" and ix: "book_indexed ob" and pos: "lad_positive (view d ob)" for d
    using assms by (auto simp: book_ok_def book_positive_view)
  from wf ix Some show ?thesis
    by (rule Cancel_refines) (auto simp: book_ok_def book_positive_view pos lad_positive_remove)
qed

lemma Cancel_indexed:
  assumes "book_wf ob" "book_indexed ob" shows "book_indexed (snd (Cancel i ob))"
proof (cases "LookupOrder i ob")
  case None
  then show ?thesis using assms by (simp add: LookupOrder_None Cancel_missing)
next
  case (Some x)
  show ?thesis by (rule Cancel_refines [OF assms Some]) simp
qed

lemma Cancel_frees:
  assumes "book_wf ob" "book_indexed ob" and x: "LookupOrder i ob = Some x"
  shows "LookupOrder (oID x) (snd (Cancel i ob)) = None"
  using Cancel_refines [OF assms] LookupOrder_resting(2) [OF book_wf_ghost [OF assms(1)] x]
  by (metis LookupOrder_None fun_upd_same snd_conv)

lemma ReduceVolume_unless:
  assumes "LookupOrder i ob = None \<or> (\<exists>x. LookupOrder i ob = Some x \<and> \<not> v < oVolume x)" and "v \<noteq> 0"
  shows "snd (ReduceVolume i v ob) = ob"
  using assms by (auto simp: LookupOrder_def ReduceVolume_def px_qty_simps split: option.splits)

lemma ReduceVolume_ok:
  assumes ok: "book_wf ob" "book_indexed ob"
  shows "book_indexed (snd (ReduceVolume i v ob))"
    and "book_positive ob \<Longrightarrow> 0 \<le> v \<Longrightarrow> book_positive (snd (ReduceVolume i v ob))"
proof -
  consider "v = 0" | "v \<noteq> 0" "LookupOrder i ob = None \<or> (\<exists>x. LookupOrder i ob = Some x \<and> \<not> v < oVolume x)"
    | x where "v \<noteq> 0" "LookupOrder i ob = Some x" "v < oVolume x"
    by (metis not_None_eq)
  then have "book_indexed (snd (ReduceVolume i v ob)) \<and>
    (book_positive ob \<longrightarrow> 0 \<le> v \<longrightarrow> book_positive (snd (ReduceVolume i v ob)))"
  proof cases
    case 1
    then have "ReduceVolume i v ob = Cancel i ob" by (simp add: ReduceVolume_def px_qty_simps)
    then show ?thesis using Cancel_indexed [OF ok] Cancel_ok [of ob i] ok by (simp add: book_ok_def)
  next
    case 2
    then show ?thesis using ok ReduceVolume_unless by simp
  next
    case 3
    show ?thesis
      by (rule ReduceVolume_refines [OF ok 3(2,1,3)])
        (use 3(1) lad_positive_resize in \<open>auto simp: book_positive_view\<close>)
  qed
  then show "book_indexed (snd (ReduceVolume i v ob))"
    "book_positive ob \<Longrightarrow> 0 \<le> v \<Longrightarrow> book_positive (snd (ReduceVolume i v ob))" by blast+
qed

lemma rest_fresh:
  assumes "book_wf ob" "LookupOrder (oID t) ob = None" "MatchTaker t ac ob = Some (ms, rem, ob')"
  shows "LookupOrder (oID t) ob' = None"
  using MatchTaker_index(2) [OF assms(1,3)] assms(2)
  by (metis LookupOrder_None domIff map_le_implies_dom_le subsetD)

interpretation ok: book_invariant book_ok "\<lambda>i ob. LookupOrder i ob = None" "\<lambda>v. (0::qty) \<le> v"
proof unfold_locales
  fix ob t ac ms rem ob'
  assume "book_ok ob" and run: "MatchTaker t ac ob = Some (ms, rem, ob')"
  then show "book_ok ob'"
    using MatchTaker_wf [OF _ run] MatchTaker_index(1,3) [OF _ run] by (simp add: book_ok_def)
next
  fix ob t ms rem ob'
  assume ok: "book_ok ob" and f: "LookupOrder (oID t) ob = None"
    and run: "MatchTaker t False ob = Some (ms, rem, ob')" and pos: "0 < rem"
  have wf: "book_wf ob" using ok by (simp add: book_ok_def)
  have "book_ok ob'" using ok MatchTaker_wf [OF _ run] MatchTaker_index(1,3) [OF _ run] by (simp add: book_ok_def)
  then show "book_ok (snd (Add (t\<lparr>oVolume := rem\<rparr>) ob'))"
    using rest_fresh [OF wf f run] pos by (intro Add_ok) simp_all
next
  fix ob v i
  assume "book_ok ob" and "(0::qty) \<le> v"
  then show "book_ok (snd (ReduceVolume i v ob))"
    using ReduceVolume_wf(1) ReduceVolume_ok by (simp add: book_ok_def)
next
  fix ob i x
  assume "book_ok ob" and "LookupOrder i ob = Some x"
  then show "LookupOrder (oID x) (snd (Cancel i ob)) = None" using Cancel_frees by (simp add: book_ok_def)
qed (simp_all add: Cancel_ok, simp_all add: book_ok_def)

section \<open>The depth stream\<close>

lemma MatchTaker_l2:
  assumes wf: "book_wf ob" and l2: "l2_sound base ob" and run: "MatchTaker t ac ob = Some (ms, rem, ob')"
  shows "l2_sound base ob'"
proof (cases "oSide t" rule: side_cases)
  case other
  then show ?thesis using l2 run by (simp add: MatchTaker_other)
next
  case (side d)
  from wf side obtain es rem1 sq lad ob1 where
    f: "ladder_fill t ac (stp_on t) (obL2 ob) (obSymbol ob) d (obSeq ob) (oVolume t) (view d ob) = (es, rem1, sq, lad)"
    and r: "MatchTaker t ac ob = Some (trades es, rem1, ob1)" and m: "matched d ob es sq lad ob1"
    by (rule MatchTaker_run [where ac = ac])
  have eq: "ob1 = ob'" using r run by simp
  have on: "obL2 ob" and base: "mirror base (obDeltas ob) = depth_of ob" using l2 by (simp_all add: l2_sound_def)
  have dist: "distinct (map fst (view d ob))"
    by (rule ladder.sorted_distinct) (rule view_sorted [OF book_wf_ghost [OF wf]])
  have "mirror base (obDeltas ob') = mirror (depth_of ob) (depths es)"
    using matchedD(7) [OF m] eq base by (simp add: mirror_append)
  also have "\<dots> = (depth_of ob)(side_of d :=
      (\<lambda>q. if q \<in> fst ` set (view d ob) then qty_at lad q else depth_of ob (side_of d) q))"
    using f on by (intro ladder_fill_depth [OF _ dist]) simp_all
  also have "\<dots> = depth_of ob'"
  proof (intro ext)
    fix sd q
    have "qty_at lad q = qty_at (view d ob) q" if "q \<notin> fst ` set (view d ob)"
    proof -
      obtain n where "map fst lad = drop n (map fst (view d ob))" using ladder_fill_prices [OF f] by blast
      then have "fst ` set lad \<subseteq> fst ` set (view d ob)" by (metis list.set_map set_drop_subset)
      then show ?thesis using that qty_at_notin by (metis subsetD)
    qed
    then show "((depth_of ob)(side_of d := (\<lambda>q. if q \<in> fst ` set (view d ob) then qty_at lad q
        else depth_of ob (side_of d) q))) sd q = depth_of ob' sd q"
      using matchedD(2,3) [OF m] eq by (cases d) (auto simp: depth_of_def)
  qed
  finally show ?thesis using on matchedD(8) [OF m] eq by (simp add: l2_sound_def)
qed

lemma Add_l2_any: "book_wf ob \<Longrightarrow> l2_sound base ob \<Longrightarrow> l2_sound base (snd (Add ord ob))"
  by (cases "oSide ord" rule: side_cases) (auto simp: Add_other_side intro: Add_l2)

interpretation depth: book_invariant "\<lambda>ob. book_wf ob \<and> book_indexed ob \<and> l2_sound base ob"
  "\<lambda>i ob. LookupOrder i ob = None" "\<lambda>_. True" for base
proof unfold_locales
  fix ob t ac ms rem ob'
  assume "book_wf ob \<and> book_indexed ob \<and> l2_sound base ob" and run: "MatchTaker t ac ob = Some (ms, rem, ob')"
  then show "book_wf ob' \<and> book_indexed ob' \<and> l2_sound base ob'"
    using MatchTaker_wf [OF _ run] MatchTaker_index(1) [OF _ run] MatchTaker_l2 [OF _ _ run] by simp
next
  fix ob t ms rem ob'
  assume I: "book_wf ob \<and> book_indexed ob \<and> l2_sound base ob" and f: "LookupOrder (oID t) ob = None"
    and run: "MatchTaker t False ob = Some (ms, rem, ob')"
  have wf': "book_wf ob'" "book_indexed ob'" "l2_sound base ob'"
    using I MatchTaker_wf [OF _ run] MatchTaker_index(1) [OF _ run] MatchTaker_l2 [OF _ _ run] by simp_all
  let ?o = "t\<lparr>oVolume := rem\<rparr>"
  have fr: "obIndex ob' (oID ?o) = None" using rest_fresh [OF _ f run] I by (simp add: LookupOrder_None)
  have "book_indexed (snd (Add ?o ob'))"
  proof (cases "oSide ?o" rule: side_cases)
    case (side d)
    show ?thesis by (rule Add_refines [OF wf'(1) side]) (use fr wf' in simp)
  qed (use wf' in \<open>simp add: Add_other_side\<close>)
  then show "book_wf (snd (Add ?o ob')) \<and> book_indexed (snd (Add ?o ob')) \<and> l2_sound base (snd (Add ?o ob'))"
    using Add_wf [OF wf'(1)] Add_l2_any [OF wf'(1,3)] by blast
next
  fix ob i
  assume "book_wf ob \<and> book_indexed ob \<and> l2_sound base ob"
  then show "book_wf (snd (Cancel i ob)) \<and> book_indexed (snd (Cancel i ob)) \<and> l2_sound base (snd (Cancel i ob))"
    using Cancel_wf(1) Cancel_indexed Cancel_l2 by blast
next
  fix ob v i
  assume "book_wf ob \<and> book_indexed ob \<and> l2_sound base ob"
  then show "book_wf (snd (ReduceVolume i v ob)) \<and> book_indexed (snd (ReduceVolume i v ob)) \<and>
      l2_sound base (snd (ReduceVolume i v ob))"
    using ReduceVolume_wf(1) ReduceVolume_ok(1) ReduceVolume_l2 by blast
next
  fix ob i x
  assume "book_wf ob \<and> book_indexed ob \<and> l2_sound base ob" and "LookupOrder i ob = Some x"
  then show "LookupOrder (oID x) (snd (Cancel i ob)) = None" using Cancel_frees by blast
qed simp_all

text \<open>Installing an L2 sink changes nothing but the flag.\<close>

lemma SetL2Sink_sound:
  "obDeltas ob = [] \<Longrightarrow> l2_sound (depth_of ob) (SetL2Sink True ob)"
  "view d (SetL2Sink b ob) = view d ob" "LookupOrder i (SetL2Sink b ob) = LookupOrder i ob"
  "book_wf (SetL2Sink b ob) = book_wf ob" "book_indexed (SetL2Sink b ob) = book_indexed ob"
  "book_positive (SetL2Sink b ob) = book_positive ob"
proof -
  have fr: "book_of d (SetL2Sink b ob) = book_of d ob" "by_price d (SetL2Sink b ob) = by_price d ob"
    "level_price (SetL2Sink b ob) la = level_price ob la" "order_at (SetL2Sink b ob) n = order_at ob n"
    "levels_of (SetL2Sink b ob) = levels_of ob" "level_nodes (SetL2Sink b ob) = level_nodes ob"
    "level_orders (SetL2Sink b ob) = level_orders ob" for b d la n
    by (auto simp: SetL2Sink_def book_of_def by_price_def level_price_def order_at_def levels_of_def level_nodes_def
        level_orders_def)
  show v: "view d (SetL2Sink b ob) = view d ob" for b d by (simp add: view_def fr)
  show "obDeltas ob = [] \<Longrightarrow> l2_sound (depth_of ob) (SetL2Sink True ob)"
  proof -
    assume "obDeltas ob = []"
    then have "obL2 (SetL2Sink True ob)" "obDeltas (SetL2Sink True ob) = []" by (simp_all add: SetL2Sink_def)
    moreover have "depth_of (SetL2Sink True ob) = depth_of ob" by (simp add: depth_of_def v fun_eq_iff)
    ultimately show ?thesis by (simp add: l2_sound_def mirror_def)
  qed
  show "LookupOrder i (SetL2Sink b ob) = LookupOrder i ob"
    unfolding LookupOrder_def fr by (simp add: SetL2Sink_def)
  show "book_wf (SetL2Sink b ob) = book_wf ob" "book_indexed (SetL2Sink b ob) = book_indexed ob"
    "book_positive (SetL2Sink b ob) = book_positive ob"
    by (simp_all add: book_wf_def wf_ghost_def ladder_inv_def index_ok_def book_indexed_def book_positive_def fr)
      (simp_all add: SetL2Sink_def)
qed

end
