(* ===== verification/Samples.thy ===== *)
theory Samples
  imports EngineInv
begin

text \<open>
  Books built by adding orders one by one, from the empty book: the general lemma
  that such a book is in order, and one small book on which the witnesses of the
  properties are evaluated.
\<close>

section \<open>Books from lists of orders\<close>

definition AddAll :: "order list \<Rightarrow> orderbook \<Rightarrow> orderbook" where
  "AddAll ords ob = foldl (\<lambda>ob x. snd (Add x ob)) ob ords"

lemma AddAll_simps [simp]:
  "AddAll [] ob = ob" "AddAll (x # xs) ob = AddAll xs (snd (Add x ob))"
  "AddAll (xs @ ys) ob = AddAll ys (AddAll xs ob)"
  by (simp_all add: AddAll_def)

lemma NewOrderbook_ghost: "wf_ghost (NewOrderbook sy) G"
  by (auto simp: wf_ghost_def ladder_inv_def ladder_ok_def index_ok_def NewOrderbook_def
      book_of_def by_price_def)

lemma NewOrderbook_view [simp]: "view d (NewOrderbook sy) = []"
  by (simp add: view_def book_of_def NewOrderbook_def)

lemma NewOrderbook_ok: "book_ok (NewOrderbook sy)"
proof -
  have "levels_of (NewOrderbook sy) = {}" by (simp add: levels_of_def NewOrderbook_def)
  then show ?thesis
    by (auto simp: book_ok_def book_indexed_def book_positive_def
        intro!: book_wfI [OF NewOrderbook_ghost [of sy "\<lambda>_. []"]])
qed

lemma NewOrderbook_empty [simp]:
  "LookupOrder i (NewOrderbook sy) = None" "obL2 (NewOrderbook sy) = False" "obSeq (NewOrderbook sy) = 0"
  "obConditional (NewOrderbook sy) = []" "obSymbol (NewOrderbook sy) = sy" "obIndex (NewOrderbook sy) = (\<lambda>_. None)"
  "obDeltas (NewOrderbook sy) = []"
  by (simp_all add: LookupOrder_def NewOrderbook_def)

lemma NewOrderbook_uncrossed: "uncrossed (NewOrderbook sy)"
  by (simp add: uncrossed_def)

lemma Add_index_other:
  assumes "book_wf ob" and "i \<noteq> oID x"
  shows "obIndex (snd (Add x ob)) i = obIndex ob i"
proof (cases "oSide x" rule: side_cases)
  case (side d)
  show ?thesis by (rule Add_refines [OF assms(1) side]) (use assms(2) in simp)
qed (simp add: Add_other_side)

lemma AddAll_ok:
  "book_ok ob \<Longrightarrow> distinct (map oID xs) \<Longrightarrow> \<forall>x \<in> set xs. obIndex ob (oID x) = None \<and> 0 < oVolume x \<Longrightarrow>
   book_ok (AddAll xs ob)"
proof (induction xs arbitrary: ob)
  case (Cons x xs)
  have ok: "book_ok (snd (Add x ob))"
    using Cons.prems by (intro Add_ok) (simp_all add: LookupOrder_None)
  have "obIndex (snd (Add x ob)) (oID y) = None" if "y \<in> set xs" for y
  proof -
    have "oID x \<notin> oID ` set xs" using Cons.prems(2) by simp
    then have "oID y \<noteq> oID x" using that by (metis imageI)
    then show ?thesis
      using Add_index_other [of ob "oID y" x] Cons.prems(1,3) that by (simp add: book_ok_def)
  qed
  then show ?case using Cons.IH [OF ok] Cons.prems by simp
qed simp

section \<open>The sample book\<close>

definition sample_order :: "order_id \<Rightarrow> int64 \<Rightarrow> side \<Rightarrow> int64 \<Rightarrow> int64 \<Rightarrow> order" where
  "sample_order i user sd price volume =
     \<lparr>oID = i, oSymbol = ''BTC'', oUserID = user, oSide = sd, oType = LIMIT, oTIF = GTC,
      oSTP = STPNone, oPrice = Px price, oTrigger = 0, oVolume = Qty volume\<rparr>"

definition sample_book :: orderbook where
  "sample_book = AddAll
     [sample_order 1 7 BUY 100 5, sample_order 2 8 BUY 100 3, sample_order 3 7 BUY 99 4,
      sample_order 4 9 SELL 103 6, sample_order 5 8 SELL 102 2, sample_order 6 9 SELL 102 5]
     (NewOrderbook ''BTC'')"

lemma sample_book_ok: "book_ok sample_book"
  unfolding sample_book_def
  by (rule AddAll_ok [OF NewOrderbook_ok]) (simp_all add: sample_order_def less_qty_def qty_val_def zero_qty_def)

lemma sample_book_wf: "book_wf sample_book" "book_indexed sample_book" "book_positive sample_book"
  using sample_book_ok by (simp_all add: book_ok_def)

lemma sample_book_view:
  "view True sample_book =
     [(Px 100, [sample_order 1 7 BUY 100 5, sample_order 2 8 BUY 100 3]),
      (Px 99, [sample_order 3 7 BUY 99 4])]"
  "view False sample_book =
     [(Px 102, [sample_order 5 8 SELL 102 2, sample_order 6 9 SELL 102 5]),
      (Px 103, [sample_order 4 9 SELL 103 6])]"
  by code_simp+

lemma sample_book_uncrossed: "uncrossed sample_book"
  by (simp add: uncrossed_def sample_book_view less_px_def px_val_def)

text \<open>Runs of the matching loop on the sample book, evaluated through its refinement.\<close>

lemma sample_book_fields: "obL2 sample_book = False" "obSymbol sample_book = ''BTC''" "obSeq sample_book = 0"
  by code_simp+

lemma sample_match:
  assumes "oSide t = side_of (\<not> d)"
    and "ladder_fill t ac (stp_on t) False ''BTC'' d 0 (oVolume t) (view d sample_book) = (es, rem, sq, lad)"
  shows "\<exists>ob'. MatchTaker t ac sample_book = Some (trades es, rem, ob') \<and> matched d sample_book es sq lad ob'"
  using MatchTaker_refines [OF sample_book_wf(1) assms(1), of ac es rem sq lad] assms(2)
  by (simp add: sample_book_fields stp_on_def)

lemma sample_sell_ladder:
  "ladder_fill (sample_order 9 1 SELL 99 6) False False False ''BTC'' True 0 (Qty 6) (view True sample_book) =
    ([Trade \<lparr>mSeq = 1, mBuyId = 1, mSellId = 9, mMatchId = 0, mPrice = Px 100, mVolume = Qty 5\<rparr>,
      Trade \<lparr>mSeq = 2, mBuyId = 2, mSellId = 9, mMatchId = 0, mPrice = Px 100, mVolume = Qty 1\<rparr>], 0, 2,
     [(Px 100, [sample_order 2 8 BUY 100 2]), (Px 99, [sample_order 3 7 BUY 99 4])])"
  unfolding sample_book_view by code_simp

lemma sample_sell:
  "\<exists>ob'. MatchTaker (sample_order 9 1 SELL 99 6) False sample_book =
     Some ([\<lparr>mSeq = 1, mBuyId = 1, mSellId = 9, mMatchId = 0, mPrice = Px 100, mVolume = Qty 5\<rparr>,
            \<lparr>mSeq = 2, mBuyId = 2, mSellId = 9, mMatchId = 0, mPrice = Px 100, mVolume = Qty 1\<rparr>], 0, ob') \<and>
     view True ob' = [(Px 100, [sample_order 2 8 BUY 100 2]), (Px 99, [sample_order 3 7 BUY 99 4])]"
proof -
  let ?t = "sample_order 9 1 SELL 99 6"
  have "oSide ?t = side_of (\<not> True)" "stp_on ?t = False" "oVolume ?t = Qty 6"
    by (simp_all add: sample_order_def stp_on_def)
  with sample_match [of ?t True False] sample_sell_ladder show ?thesis
    by (fastforce simp: matched_def)
qed

lemma sample_rest_ladder:
  "ladder_fill (sample_order 9 1 SELL 100 20) False False False ''BTC'' True 0 (Qty 20) (view True sample_book) =
    ([Trade \<lparr>mSeq = 1, mBuyId = 1, mSellId = 9, mMatchId = 0, mPrice = Px 100, mVolume = Qty 5\<rparr>,
      Trade \<lparr>mSeq = 2, mBuyId = 2, mSellId = 9, mMatchId = 0, mPrice = Px 100, mVolume = Qty 3\<rparr>], Qty 12, 2,
     [(Px 99, [sample_order 3 7 BUY 99 4])])"
  unfolding sample_book_view by code_simp

lemma sample_rest:
  "\<exists>ob'. MatchTaker (sample_order 9 1 SELL 100 20) False sample_book =
     Some ([\<lparr>mSeq = 1, mBuyId = 1, mSellId = 9, mMatchId = 0, mPrice = Px 100, mVolume = Qty 5\<rparr>,
            \<lparr>mSeq = 2, mBuyId = 2, mSellId = 9, mMatchId = 0, mPrice = Px 100, mVolume = Qty 3\<rparr>], Qty 12, ob') \<and>
     view True ob' = [(Px 99, [sample_order 3 7 BUY 99 4])]"
proof -
  let ?t = "sample_order 9 1 SELL 100 20"
  have "oSide ?t = side_of (\<not> True)" "stp_on ?t = False" "oVolume ?t = Qty 20"
    by (simp_all add: sample_order_def stp_on_def)
  with sample_match [of ?t True False] sample_rest_ladder show ?thesis
    by (fastforce simp: matched_def)
qed

end
