(* ===== verification/BookProps.thy ===== *)
theory BookProps
  imports Samples
begin

text \<open>
  The properties of the book operations \<^verbatim>\<open>Add\<close>, \<^verbatim>\<open>Cancel\<close>, \<^verbatim>\<open>ReduceVolume\<close> and
  \<^verbatim>\<open>LookupOrder\<close>: each is the corresponding function on sorted ladders.
\<close>

lemma in_lad_insert: "\<exists>e \<in> set (lad_insert d ord lad). ord \<in> set (snd e)"
  by (induction d ord lad rule: lad_insert.induct) auto

lemma Add_lookup:
  assumes "book_wf ob'" "book_indexed ob'" "view d ob' = lad_insert d ord lad"
  shows "LookupOrder (oID ord) ob' = Some ord"
proof -
  have "ord \<in> set (resting ob')"
    unfolding resting_view using in_lad_insert [of d ord lad] assms(3) by (metis prod.collapse)
  then show ?thesis by (rule resting_LookupOrder [OF assms(1,2)])
qed

text \<open>
  C18. \<^verbatim>\<open>Add\<close> puts the order at the tail of the queue at its price, opening the level at
  its sorted place when there is none; the other side is untouched and the book
  stays well formed (sorted ladders, exact price maps, linked queues, cached
  totals). When the ID is not resting yet, the order index stays exact and finds
  the new order.
\<close>

theorem Add_correct:
  assumes "book_wf ob" and "oSide ord = side_of d"
  shows "\<exists>n ob'. Add ord ob = (Some n, ob') \<and> book_wf ob' \<and>
    view d ob' = lad_insert d ord (view d ob) \<and> view (\<not> d) ob' = view (\<not> d) ob \<and>
    (book_indexed ob \<and> LookupOrder (oID ord) ob = None \<longrightarrow>
       book_indexed ob' \<and> LookupOrder (oID ord) ob' = Some ord)"
proof (rule Add_refines [OF assms])
  fix n ob'
  assume a: "Add ord ob = (Some n, ob')" "book_wf ob'" "view d ob' = lad_insert d ord (view d ob)"
    "view (\<not> d) ob' = view (\<not> d) ob" "book_indexed ob \<Longrightarrow> obIndex ob (oID ord) = None \<Longrightarrow> book_indexed ob'"
  then show ?thesis using Add_lookup [OF a(2) _ a(3)] by (auto simp: LookupOrder_None)
qed

theorem Add_correct_witness:
  "\<exists>n ob'. Add (sample_order 9 1 BUY 100 2) sample_book = (Some n, ob') \<and> book_wf ob' \<and>
    view True ob' =
      [(Px 100, [sample_order 1 7 BUY 100 5, sample_order 2 8 BUY 100 3, sample_order 9 1 BUY 100 2]),
       (Px 99, [sample_order 3 7 BUY 99 4])]"
  using Add_correct [OF sample_book_wf(1), of "sample_order 9 1 BUY 100 2" True]
  by (auto simp: sample_book_view sample_order_def)

lemma in_lad_remove:
  "(\<exists>e \<in> set (lad_remove i lad). y \<in> set (snd e)) \<longleftrightarrow> (\<exists>e \<in> set lad. y \<in> set (snd e)) \<and> oID y \<noteq> i"
proof (induction lad)
  case (Cons e lad)
  obtain p os where e: "e = (p, os)" by (cases e)
  show ?case
  proof (cases "filter (\<lambda>x. oID x \<noteq> i) os = []")
    case True
    then have "oID y = i" if "y \<in> set os" using that by (auto simp: filter_empty_conv)
    then show ?thesis using Cons True by (auto simp: e lad_remove_Cons)
  next
    case False
    then show ?thesis using Cons by (auto simp: e lad_remove_Cons Let_def)
  qed
qed (simp add: lad_remove_def)

lemma resting_remove:
  assumes "\<And>d. view d ob' = lad_remove i (view d ob)"
  shows "y \<in> set (resting ob') \<longleftrightarrow> y \<in> set (resting ob) \<and> oID y \<noteq> i"
proof -
  have r: "z \<in> set (resting b) \<longleftrightarrow> (\<exists>d. \<exists>e \<in> set (view d b). z \<in> set (snd e))" for z b
    unfolding resting_view by (metis prod.collapse snd_conv)
  show ?thesis unfolding r assms in_lad_remove by blast
qed

text \<open>
  C19. \<^verbatim>\<open>Cancel\<close> of a resting order removes exactly that order, and its level when it
  was the last one there; all other orders keep their place and stay findable, and
  the book stays well formed and indexed. For an unknown ID it reports the error
  and changes nothing.
\<close>

theorem Cancel_correct:
  assumes wf: "book_wf ob" and ix: "book_indexed ob"
  shows "case LookupOrder i ob of
      None \<Rightarrow> Cancel i ob = (Some ErrCancelOrderFailed, ob)
    | Some x \<Rightarrow> (\<exists>ob'. Cancel i ob = (None, ob') \<and> book_wf ob' \<and> book_indexed ob' \<and>
        (\<forall>d. view d ob' = lad_remove i (view d ob)) \<and>
        (\<forall>j. LookupOrder j ob' = (if j = i then None else LookupOrder j ob)))"
proof (cases "LookupOrder i ob")
  case None
  then have "obIndex ob i = None" by (simp only: LookupOrder_None)
  then show ?thesis using None by (simp add: Cancel_missing)
next
  case (Some x)
  show ?thesis
  proof (rule Cancel_refines [OF wf ix Some])
    fix d ob'
    assume c: "Cancel i ob = (None, ob')" "book_wf ob'" "book_indexed ob'"
      "\<And>d'. view d' ob' = lad_remove i (view d' ob)" "obIndex ob' = (obIndex ob)(i := None)"
    have "LookupOrder j ob' = LookupOrder j ob" if "j \<noteq> i" for j
    proof (cases "LookupOrder j ob")
      case None
      then show ?thesis using c(5) by (auto simp: LookupOrder_def split: option.splits)
    next
      case (Some y)
      then have "y \<in> set (resting ob)" "oID y = j" using LookupOrder_resting [OF book_wf_ghost [OF wf]] by simp_all
      then have "y \<in> set (resting ob')" using that resting_remove [OF c(4)] by simp
      then show ?thesis using resting_LookupOrder [OF c(2,3)] \<open>oID y = j\<close> Some by metis
    qed
    moreover have "LookupOrder i ob' = None" using c(5) by (simp add: LookupOrder_None)
    ultimately show ?thesis using c(1-4) Some by auto
  qed
qed

theorem Cancel_correct_witness:
  "\<exists>ob'. Cancel 3 sample_book = (None, ob') \<and> book_wf ob' \<and>
    view True ob' = [(Px 100, [sample_order 1 7 BUY 100 5, sample_order 2 8 BUY 100 3])]"
proof -
  have "LookupOrder 3 sample_book = Some (sample_order 3 7 BUY 99 4)" by code_simp
  then show ?thesis
    using Cancel_correct [OF sample_book_wf(1,2), of 3]
    by (auto simp: sample_book_view lad_remove_def sample_order_def)
qed

text \<open>
  C20. \<^verbatim>\<open>ReduceVolume\<close> to a smaller non-zero volume changes that order's volume in place,
  so it keeps its position in the queue; to zero it is \<^verbatim>\<open>Cancel\<close>; an unknown ID and a
  volume that is not smaller are errors that change nothing.
\<close>

theorem ReduceVolume_correct:
  assumes wf: "book_wf ob" and ix: "book_indexed ob"
  shows "if v = 0 then ReduceVolume i v ob = Cancel i ob
    else case LookupOrder i ob of
      None \<Rightarrow> ReduceVolume i v ob = (Some ErrCancelOrderFailed, ob)
    | Some x \<Rightarrow>
        if v < oVolume x then (\<exists>ob'. ReduceVolume i v ob = (None, ob') \<and> book_wf ob' \<and> book_indexed ob' \<and>
          (\<forall>d. view d ob' = lad_resize i v (view d ob)))
        else ReduceVolume i v ob = (Some ErrModifyIncrease, ob)"
proof (cases "v = 0")
  case True
  then show ?thesis by (simp add: ReduceVolume_def px_qty_simps)
next
  case v: False
  show ?thesis
  proof (cases "LookupOrder i ob")
    case None
    then have "obIndex ob i = None" by (simp only: LookupOrder_None)
    then show ?thesis using v None by (simp add: ReduceVolume_def px_qty_simps)
  next
    case (Some x)
    show ?thesis
    proof (cases "v < oVolume x")
      case True
      show ?thesis by (rule ReduceVolume_refines [OF wf ix Some v True]) (use v Some True in auto)
    next
      case False
      then show ?thesis using v Some
        by (auto simp: ReduceVolume_def LookupOrder_def px_qty_simps split: option.splits)
    qed
  qed
qed

theorem ReduceVolume_correct_witness:
  "\<exists>ob'. ReduceVolume 1 (Qty 2) sample_book = (None, ob') \<and> book_wf ob' \<and>
    view True ob' =
      [(Px 100, [sample_order 1 7 BUY 100 2, sample_order 2 8 BUY 100 3]), (Px 99, [sample_order 3 7 BUY 99 4])]"
proof -
  have "LookupOrder 1 sample_book = Some (sample_order 1 7 BUY 100 5)" by code_simp
  then show ?thesis
    using ReduceVolume_correct [OF sample_book_wf(1,2), of "Qty 2" 1]
    by (auto simp: sample_book_view lad_resize_def resize_def sample_order_def zero_qty_def less_qty_def qty_val_def)
qed

end
