(* ===== verification/MatchProps.thy ===== *)
theory MatchProps
  imports Samples
begin

text \<open>
  The properties of \<^verbatim>\<open>MatchTaker\<close>. In each, the taker comes from one side and \<open>d\<close>
  selects the ladder it meets.
\<close>

lemma MatchTaker_ladder:
  assumes "book_wf ob" and "oSide t = side_of (\<not> d)" and "MatchTaker t ac ob = Some (ms, rem, ob')"
  obtains es sq where
    "ladder_fill t ac (stp_on t) (obL2 ob) (obSymbol ob) d (obSeq ob) (oVolume t) (view d ob) =
       (es, rem, sq, view d ob')"
    "ms = trades es" "matched d ob es sq (view d ob') ob'"
proof (rule MatchTaker_run [OF assms(1,2), of ac])
  fix es rem1 sq lad ob1
  assume a: "ladder_fill t ac (stp_on t) (obL2 ob) (obSymbol ob) d (obSeq ob) (oVolume t) (view d ob) =
      (es, rem1, sq, lad)" "MatchTaker t ac ob = Some (trades es, rem1, ob1)" "matched d ob es sq lad ob1"
  have "lad = view d ob1" using matchedD(2) [OF a(3)] by simp
  then show thesis using a assms(3) that by simp
qed

text \<open>
  C23. The matching loop returns on every well-formed book, whatever the taker, and
  leaves a well-formed book; the unique-ID index and the positivity of resting
  volumes survive, the taker's own side of the book is untouched, and no order ID
  becomes known that was not.
\<close>

theorem MatchTaker_total:
  assumes "book_wf ob"
  shows "\<exists>ms rem ob'. MatchTaker t ac ob = Some (ms, rem, ob') \<and> book_wf ob' \<and>
    (book_indexed ob \<longrightarrow> book_indexed ob') \<and> (book_positive ob \<longrightarrow> book_positive ob') \<and>
    (\<forall>d. oSide t = side_of d \<longrightarrow> view d ob' = view d ob) \<and>
    (\<forall>i. LookupOrder i ob = None \<longrightarrow> LookupOrder i ob' = None)"
proof -
  obtain ms rem ob' where r: "MatchTaker t ac ob = Some (ms, rem, ob')" and wf: "book_wf ob'"
    using wf.match_returns [OF assms] by blast
  have "view d ob' = view d ob" if s: "oSide t = side_of d" for d
  proof (rule MatchTaker_ladder [OF assms _ r, of "\<not> d"])
    show "oSide t = side_of (\<not> \<not> d)" using s by simp
    fix es sq assume "matched (\<not> d) ob es sq (view (\<not> d) ob') ob'"
    from matchedD(3) [OF this] show "view d ob' = view d ob" by simp
  qed
  moreover have "LookupOrder i ob' = None" if "LookupOrder i ob = None" for i
    using MatchTaker_index(2) [OF assms r] that
    by (metis LookupOrder_None domIff map_le_implies_dom_le subsetD)
  ultimately show ?thesis using r wf MatchTaker_index(1,3) [OF assms r] by blast
qed

theorem MatchTaker_total_witness:
  "\<exists>ms rem ob'. MatchTaker (sample_order 9 1 SELL 99 6) False sample_book = Some (ms, rem, ob') \<and>
     view False ob' = view False sample_book"
  using MatchTaker_total [OF sample_book_wf(1), of "sample_order 9 1 SELL 99 6" False]
  by (auto simp: sample_order_def)

definition no_self :: "order \<Rightarrow> bool \<Rightarrow> orderbook \<Rightarrow> bool" where
  "no_self t d ob \<longleftrightarrow>
     \<not> stp_on t \<or> (\<forall>(p, os) \<in> set (view d ob). \<forall>x \<in> set os. oUserID x \<noteq> oUserID t)"

lemma no_self_fill:
  "no_self t d ob \<Longrightarrow> ladder_fill t ac (stp_on t) l2 smb d sq rem (view d ob) =
     ladder_fill t ac False l2 smb d sq rem (view d ob)"
  unfolding no_self_def by (rule ladder_fill_no_own)



definition resting_volume :: "bool \<Rightarrow> orderbook \<Rightarrow> int" where
  "resting_volume d ob = (\<Sum>(p, x)\<leftarrow>flat (view d ob). qty_val (oVolume x))"

lemma priority_volume:
  assumes "priority ks fl fl'" and "\<forall>(p, x) \<in> set fl. 0 < oVolume x"
  shows "(\<Sum>(p, x)\<leftarrow>fl. qty_val (oVolume x)) = (\<Sum>(p, i, v)\<leftarrow>ks. qty_val v) + (\<Sum>(p, x)\<leftarrow>fl'. qty_val (oVolume x))"
proof -
  have whole: "(\<Sum>(p, i, v)\<leftarrow>map (\<lambda>(p, x). (p, oID x, oVolume x)) full. qty_val v) =
      (\<Sum>(p, x)\<leftarrow>full. qty_val (oVolume x))" for full :: "(px \<times> order) list"
    by (induction full) auto
  from assms(1) obtain full rest where fl: "fl = full @ rest"
    "ks = map (\<lambda>(p, x). (p, oID x, oVolume x)) full \<and> fl' = rest \<or>
     (\<exists>p x v us. rest = (p, x) # us \<and> 0 < v \<and> v < oVolume x \<and>
        ks = map (\<lambda>(p, x). (p, oID x, oVolume x)) full @ [(p, oID x, v)] \<and>
        fl' = (p, x\<lparr>oVolume := oVolume x - v\<rparr>) # us)"
    unfolding priority_def by blast
  then show ?thesis
  proof (elim disjE exE conjE)
    assume "ks = map (\<lambda>(p, x). (p, oID x, oVolume x)) full" "fl' = rest"
    then show ?thesis using fl(1) whole by simp
  next
    fix p x v us
    assume a: "rest = (p, x) # us" "0 < v" "v < oVolume x"
      "ks = map (\<lambda>(p, x). (p, oID x, oVolume x)) full @ [(p, oID x, v)]"
      "fl' = (p, x\<lparr>oVolume := oVolume x - v\<rparr>) # us"
    have "qty_val (oVolume x - v) = qty_val (oVolume x) - qty_val v"
      using a(2,3) by (intro qty_val_diff_le) (simp_all add: qty_pos_iff less_imp_le)
    then show ?thesis using fl(1) a(1,4,5) whole by simp
  qed
qed

lemma traded_keys: "traded ms = (\<Sum>(p, i, v)\<leftarrow>map (fill_key t) ms. qty_val v)"
  by (induction ms) (simp_all add: fill_key_def)



text \<open>
  C8. Every trade is legitimate: it names an order that was resting on the opposite
  side and the taker, at the resting order's price, which is acceptable to the
  taker, for a positive volume of at most what was resting; and when self-trade
  prevention is on, the resting order belongs to another user.
\<close>

theorem MatchTaker_trades:
  assumes "book_wf ob" and "book_indexed ob" and "book_positive ob" and "oSide t = side_of (\<not> d)"
    and "MatchTaker t ac ob = Some (ms, rem, ob')" and "m \<in> set ms"
  shows "\<exists>x. LookupOrder (resting_id t m) ob = Some x \<and> oSide x = side_of d \<and> mPrice m = oPrice x \<and>
    (ac \<or> crosses t (oPrice x)) \<and> taker_id t m = oID t \<and> 0 < mVolume m \<and> mVolume m \<le> oVolume x \<and>
    (stp_on t \<longrightarrow> oUserID x \<noteq> oUserID t)"
proof (rule MatchTaker_ladder [OF assms(1,4,5)])
  fix es sq
  assume f: "ladder_fill t ac (stp_on t) (obL2 ob) (obSymbol ob) d (obSeq ob) (oVolume t) (view d ob) =
     (es, rem, sq, view d ob')" and ms: "ms = trades es"
  from ladder_fill_trades [OF f] assms(6) ms obtain p os x where
    row: "(p, os) \<in> set (view d ob)" and cr: "ac \<or> crosses t p" and x: "x \<in> set os"
    and m: "mPrice m = p" "taker_id t m = oID t" "resting_id t m = oID x" "mVolume m \<le> oVolume x"
      "0 < oVolume x \<longrightarrow> 0 < mVolume m" "\<not> (stp_on t \<and> oUserID x = oUserID t)"
    unfolding trade_with_def by blast
  have "x \<in> set (resting ob)" unfolding resting_view using row x by blast
  then have "LookupOrder (oID x) ob = Some x" by (rule resting_LookupOrder [OF assms(1,2)])
  moreover have "0 < oVolume x"
    using assms(3) row x unfolding book_positive_view lad_positive_def by blast
  ultimately show ?thesis
    using m cr view_order [OF book_wf_ghost [OF assms(1)] row x] by auto
qed

theorem MatchTaker_trades_witness:
  "\<exists>m x. mVolume m = Qty 1 \<and> LookupOrder (resting_id (sample_order 9 1 SELL 99 6) m) sample_book = Some x \<and>
     mPrice m = oPrice x \<and> crosses (sample_order 9 1 SELL 99 6) (oPrice x) \<and> 0 < mVolume m"
proof -
  let ?t = "sample_order 9 1 SELL 99 6"
  let ?m = "\<lparr>mSeq = 2, mBuyId = 2, mSellId = 9, mMatchId = 0, mPrice = Px 100, mVolume = Qty 1\<rparr>"
  have s: "oSide ?t = side_of (\<not> True)" by (simp add: sample_order_def)
  obtain ob' where "MatchTaker ?t False sample_book =
     Some ([\<lparr>mSeq = 1, mBuyId = 1, mSellId = 9, mMatchId = 0, mPrice = Px 100, mVolume = Qty 5\<rparr>, ?m], 0, ob')"
    using sample_sell by blast
  from MatchTaker_trades [OF sample_book_wf s this, of ?m]
  have "\<exists>x. LookupOrder (resting_id ?t ?m) sample_book = Some x \<and> mPrice ?m = oPrice x \<and>
    crosses ?t (oPrice x) \<and> 0 < mVolume ?m" by auto
  then show ?thesis by (intro exI [of _ ?m]) simp
qed

text \<open>
  Completeness: a limit taker that comes back with a remainder has met every
  order it could trade with; no price it accepts is left on the opposite side.
\<close>

theorem MatchTaker_complete:
  assumes "book_wf ob" and "oSide t = side_of (\<not> d)" and "MatchTaker t False ob = Some (ms, rem, ob')"
    and "0 < rem" and "(p, os) \<in> set (view d ob')"
  shows "\<not> crosses t p"
proof (rule MatchTaker_ladder [OF assms(1-3)])
  fix es sq
  assume f: "ladder_fill t False (stp_on t) (obL2 ob) (obSymbol ob) d (obSeq ob) (oVolume t) (view d ob) =
     (es, rem, sq, view d ob')" and m: "matched d ob es sq (view d ob') ob'"
  obtain p0 os0 lad where lad: "view d ob' = (p0, os0) # lad" using assms(5) by (cases "view d ob'") auto
  then have "\<not> crosses t p0" using ladder_fill_complete [OF f assms(4)] by simp
  moreover have "p = p0 \<or> better d p0 p"
    using view_sorted [OF book_wf_ghost [OF matchedD(1) [OF m]], of d] assms(5) lad by auto
  ultimately show ?thesis using crosses_side [OF assms(2)] ladder.trans by blast
qed

theorem MatchTaker_complete_witness: "\<not> crosses (sample_order 9 1 SELL 100 20) (Px 99)"
proof -
  let ?t = "sample_order 9 1 SELL 100 20"
  have s: "oSide ?t = side_of (\<not> True)" by (simp add: sample_order_def)
  have pos: "0 < Qty 12" by (simp add: less_qty_def qty_val_def zero_qty_def)
  obtain ms ob' where run: "MatchTaker ?t False sample_book = Some (ms, Qty 12, ob')"
    and v: "view True ob' = [(Px 99, [sample_order 3 7 BUY 99 4])]" using sample_rest by blast
  show ?thesis by (rule MatchTaker_complete [OF sample_book_wf(1) s run pos]) (simp add: v)
qed

text \<open>
  C22. Sequence numbers: the trades returned and the depth updates published by one
  run of the matching loop interleave into a single stream that carries the numbers
  following the book's counter without gap or repetition, and the counter ends at
  the last of them.
\<close>

theorem MatchTaker_sequence:
  assumes "book_wf ob" and "oSide t = side_of (\<not> d)" and "MatchTaker t ac ob = Some (ms, rem, ob')"
  shows "\<exists>es. trades es = ms \<and> obDeltas ob' = obDeltas ob @ depths es \<and>
    map event_seq es = map (\<lambda>i. Seq ob + 1 + of_nat i) [0..<length es] \<and>
    Seq ob' = Seq ob + of_nat (length es)"
proof (rule MatchTaker_ladder [OF assms])
  fix es sq
  assume f: "ladder_fill t ac (stp_on t) (obL2 ob) (obSymbol ob) d (obSeq ob) (oVolume t) (view d ob) =
     (es, rem, sq, view d ob')" and ms: "ms = trades es" and m: "matched d ob es sq (view d ob') ob'"
  show ?thesis
    using ladder_fill_seq [OF f] matchedD(6,7) [OF m] ms by (auto simp: Seq_def seq_run_def)
qed

theorem MatchTaker_sequence_witness:
  "\<exists>es ob'. length (trades es) = 2 \<and> map event_seq es = map (\<lambda>i. Seq sample_book + 1 + of_nat i) [0..<length es] \<and>
     Seq ob' = Seq sample_book + of_nat (length es)"
proof -
  let ?t = "sample_order 9 1 SELL 99 6"
  have s: "oSide ?t = side_of (\<not> True)" by (simp add: sample_order_def)
  obtain ms ob' where run: "MatchTaker ?t False sample_book = Some (ms, 0, ob')" and "length ms = 2"
    using sample_sell by fastforce
  from MatchTaker_sequence [OF sample_book_wf(1) s run] this(2) show ?thesis by blast
qed

end
