(* ===== verification/Reference.thy ===== *)
theory Reference
  imports EngineInv
begin

text \<open>
  A reference engine: the contract of \<^verbatim>\<open>matchEngine.go\<close> over plain lists. A
  reference book is the two ladders with the queues at each price, the queue of
  conditional orders, the sequence counter and the published deltas; it has no
  nodes, addresses, caches, price maps or order index, and its operations are
  structural recursions. \<open>ref_of\<close> reads the reference book off the code's one.
\<close>

record refbook =
  rLadder :: "bool \<Rightarrow> ladder"
  rConditional :: "order list"
  rSeq :: uint64
  rSymbol :: string
  rL2 :: bool
  rDeltas :: "book_delta list"

definition ref_of :: "orderbook \<Rightarrow> refbook" where
  "ref_of ob = \<lparr>rLadder = (\<lambda>d. view d ob), rConditional = obConditional ob, rSeq = obSeq ob,
     rSymbol = obSymbol ob, rL2 = obL2 ob, rDeltas = obDeltas ob\<rparr>"

lemma ref_of_sel [simp]:
  "rLadder (ref_of ob) d = view d ob" "rConditional (ref_of ob) = obConditional ob" "rSeq (ref_of ob) = obSeq ob"
  "rSymbol (ref_of ob) = obSymbol ob" "rL2 (ref_of ob) = obL2 ob" "rDeltas (ref_of ob) = obDeltas ob"
  by (simp_all add: ref_of_def)

lemma ref_of_eqI:
  assumes "\<And>d. view d ob = rLadder rb d" "obConditional ob = rConditional rb" "obSeq ob = rSeq rb"
    "obSymbol ob = rSymbol rb" "obL2 ob = rL2 rb" "obDeltas ob = rDeltas rb"
  shows "ref_of ob = rb"
  using assms by (cases rb) (simp add: ref_of_def fun_eq_iff)

section \<open>Operations of the reference engine\<close>

definition ref_publish :: "bool \<Rightarrow> px \<Rightarrow> refbook \<Rightarrow> refbook" where
  "ref_publish d p rb =
     (if rL2 rb
      then rb\<lparr>rSeq := rSeq rb + 1,
              rDeltas := rDeltas rb @ [\<lparr>dSeq = rSeq rb + 1, dSymbol = rSymbol rb, dSide = side_of d,
                                         dPrice = p, dQty = qty_at (rLadder rb d) p\<rparr>]\<rparr>
      else rb)"

definition ref_side :: "side \<Rightarrow> bool option" where
  "ref_side sd = (if sd = BUY then Some True else if sd = SELL then Some False else None)"

definition ref_lookup :: "order_id \<Rightarrow> refbook \<Rightarrow> order option" where
  "ref_lookup i rb = find (\<lambda>x. oID x = i) (concat (map snd (rLadder rb True)) @ concat (map snd (rLadder rb False)))"

definition ref_add :: "order \<Rightarrow> refbook \<Rightarrow> refbook" where
  "ref_add x rb =
     (case ref_side (oSide x) of
        None \<Rightarrow> rb
      | Some d \<Rightarrow> ref_publish d (oPrice x)
          (rb\<lparr>rLadder := (rLadder rb)(d := lad_insert d x (rLadder rb d))\<rparr>))"

definition ref_cancel :: "order_id \<Rightarrow> refbook \<Rightarrow> book_error option \<times> refbook" where
  "ref_cancel i rb =
     (case ref_lookup i rb of
        None \<Rightarrow> (Some ErrCancelOrderFailed, rb)
      | Some x \<Rightarrow> (None, ref_publish (oSide x = BUY) (oPrice x)
                           (rb\<lparr>rLadder := (\<lambda>d. lad_remove i (rLadder rb d))\<rparr>)))"

definition ref_match :: "order \<Rightarrow> bool \<Rightarrow> refbook \<Rightarrow> match list \<times> qty \<times> refbook" where
  "ref_match t ac rb =
     (case ref_side (oSide t) of
        None \<Rightarrow> ([], oVolume t, rb)
      | Some d \<Rightarrow>
          (case ladder_fill t ac (stp_on t) (rL2 rb) (rSymbol rb) (\<not> d) (rSeq rb) (oVolume t)
                  (rLadder rb (\<not> d)) of
             (es, rem, sq, lad) \<Rightarrow>
               (trades es, rem,
                rb\<lparr>rLadder := (rLadder rb)(\<not> d := lad), rSeq := sq, rDeltas := rDeltas rb @ depths es\<rparr>)))"

definition ref_crossed :: "order \<Rightarrow> refbook \<Rightarrow> bool" where
  "ref_crossed t rb =
     (case ref_side (oSide t) of
        None \<Rightarrow> False
      | Some d \<Rightarrow> (case rLadder rb (\<not> d) of [] \<Rightarrow> False | (p, os) # _ \<Rightarrow> crosses t p))"

definition ref_fillable :: "order \<Rightarrow> refbook \<Rightarrow> bool" where
  "ref_fillable t rb =
     (case ref_side (oSide t) of None \<Rightarrow> False | Some d \<Rightarrow> can_fill t (oVolume t) (rLadder rb (\<not> d)))"

definition ref_limit :: "order \<Rightarrow> refbook \<Rightarrow> result \<times> refbook" where
  "ref_limit t rb =
     (if oTIF t = PostOnly \<and> ref_crossed t rb then (rejected RejectPostOnlyCrossed, rb)
      else if oTIF t = FOK \<and> \<not> ref_fillable t rb then (rejected RejectFOKUnfillable, rb)
      else case ref_match t False rb of (ms, rem, rb1) \<Rightarrow>
        (accepted ms,
         if oTIF t = IOC \<or> oTIF t = FOK \<or> \<not> 0 < rem then rb1 else ref_add (t\<lparr>oVolume := rem\<rparr>) rb1))"

definition ref_market :: "order \<Rightarrow> refbook \<Rightarrow> result \<times> refbook" where
  "ref_market t rb = (case ref_match t True rb of (ms, rem, rb1) \<Rightarrow> (accepted ms, rb1))"

definition ref_submit :: "order \<Rightarrow> refbook \<Rightarrow> result \<times> refbook" where
  "ref_submit t0 rb =
     (let t = Normalize t0 in
      if oType t = LIMIT then ref_limit t rb
      else if oType t = MARKET then ref_market t rb
      else if oType t = STOP_LIMIT then
        (if IsTriggered t ZeroPx then ref_limit t rb
         else (accepted [], rb\<lparr>rConditional := rConditional rb @ [t]\<rparr>))
      else (rejected (RejectUnsupportedType @ '': '' @ oType t), rb))"

definition ref_modify :: "order_id \<Rightarrow> px \<Rightarrow> qty \<Rightarrow> refbook \<Rightarrow> result \<times> refbook" where
  "ref_modify i p v rb =
     (case ref_lookup i rb of
        None \<Rightarrow> (rejected RejectModifyNotFound, rb)
      | Some x \<Rightarrow>
          if v = 0 then (accepted [], snd (ref_cancel i rb))
          else if p = oPrice x \<and> v < oVolume x then
            (accepted [], ref_publish (oSide x = BUY) (oPrice x)
               (rb\<lparr>rLadder := (\<lambda>d. lad_resize i v (rLadder rb d))\<rparr>))
          else ref_submit (x\<lparr>oPrice := p, oVolume := v\<rparr>) (snd (ref_cancel i rb)))"

section \<open>Each operation refines its reference\<close>

lemma ref_side_of [simp]: "ref_side (side_of d) = Some d"
  by (cases d) (simp_all add: ref_side_def)

lemma ref_side_other: "sd \<noteq> BUY \<Longrightarrow> sd \<noteq> SELL \<Longrightarrow> ref_side sd = None"
  by (simp add: ref_side_def)

lemma side_of_BUY [simp]: "side_of d = BUY \<longleftrightarrow> d"
  by (cases d) simp_all

lemma ref_publish_frame [simp]:
  "rLadder (ref_publish d p rb) = rLadder rb" "rConditional (ref_publish d p rb) = rConditional rb"
  "rSymbol (ref_publish d p rb) = rSymbol rb" "rL2 (ref_publish d p rb) = rL2 rb"
  by (simp_all add: ref_publish_def)

lemma ref_of_published:
  assumes "published d p ob ob'" and "\<And>d'. view d' ob' = L d'"
  shows "ref_of ob' = ref_publish d p ((ref_of ob)\<lparr>rLadder := L\<rparr>)"
  using assms
  by (intro ref_of_eqI) (simp_all add: published_def Let_def emitDelta_def NextSeq_def ref_publish_def)

lemma Add_ref: assumes "book_wf ob" shows "ref_of (snd (Add x ob)) = ref_add x (ref_of ob)"
proof (cases "oSide x" rule: side_cases)
  case other
  then show ?thesis by (simp add: Add_other_side ref_add_def ref_side_other)
next
  case (side d)
  from assms side obtain n ob' where a: "Add x ob = (Some n, ob')"
    "view (\<not> d) ob' = lad_insert (\<not> d) x (view (\<not> d) ob)" "view (\<not> \<not> d) ob' = view (\<not> \<not> d) ob"
    and p: "published (\<not> d) (oPrice x) ob ob'"
    by (rule Add_refines)
  have "view d' ob' = ((rLadder (ref_of ob))(\<not> d := lad_insert (\<not> d) x (rLadder (ref_of ob) (\<not> d)))) d'" for d'
    using a(2,3) by (cases d; cases d') simp_all
  from ref_of_published [OF p this] show ?thesis
    using side by (simp add: a(1) ref_add_def fun_upd_def)
qed

lemma ref_lookup_ref_of:
  assumes wf: "book_wf ob" and ix: "book_indexed ob"
  shows "ref_lookup i (ref_of ob) = LookupOrder i ob"
proof -
  have r: "ref_lookup i (ref_of ob) = find (\<lambda>x. oID x = i) (resting ob)"
    by (simp add: ref_lookup_def resting_def)
  show ?thesis
  proof (cases "find (\<lambda>x. oID x = i) (resting ob)")
    case None
    then have none: "\<forall>x \<in> set (resting ob). oID x \<noteq> i" by (simp add: find_None_iff)
    have "LookupOrder i ob = None"
    proof (cases "LookupOrder i ob")
      case (Some x)
      from LookupOrder_resting [OF book_wf_ghost [OF wf] this] none show ?thesis by blast
    qed
    then show ?thesis using None r by simp
  next
    case (Some x)
    then have "x \<in> set (resting ob)" "oID x = i" by (auto simp: find_Some_iff)
    then show ?thesis using resting_LookupOrder [OF wf ix] Some r by metis
  qed
qed

lemma Cancel_ref:
  assumes wf: "book_wf ob" and ix: "book_indexed ob"
  shows "ref_cancel i (ref_of ob) = (fst (Cancel i ob), ref_of (snd (Cancel i ob)))"
proof (cases "LookupOrder i ob")
  case None
  then have "obIndex ob i = None" by (simp add: LookupOrder_def split: option.splits)
  then show ?thesis using None by (simp add: ref_cancel_def ref_lookup_ref_of [OF assms] Cancel_missing)
next
  case (Some x)
  show ?thesis
  proof (rule Cancel_refines [OF wf ix Some])
    fix d ob'
    assume c: "Cancel i ob = (None, ob')" "\<And>d'. view d' ob' = lad_remove i (view d' ob)" "oSide x = side_of d"
      and p: "published d (oPrice x) ob ob'"
    from ref_of_published [OF p, of "\<lambda>d. lad_remove i (rLadder (ref_of ob) d)"] c show ?thesis
      by (simp add: ref_cancel_def ref_lookup_ref_of [OF assms] Some)
  qed
qed

lemma ReduceVolume_ref:
  assumes wf: "book_wf ob" and ix: "book_indexed ob" and x: "LookupOrder i ob = Some x"
    and v: "v \<noteq> 0" "v < oVolume x"
  shows "fst (ReduceVolume i v ob) = None \<and>
    ref_of (snd (ReduceVolume i v ob)) =
      ref_publish (oSide x = BUY) (oPrice x) ((ref_of ob)\<lparr>rLadder := (\<lambda>d. lad_resize i v (view d ob))\<rparr>)"
proof (rule ReduceVolume_refines [OF assms])
  fix d ob'
  assume c: "ReduceVolume i v ob = (None, ob')" "\<And>d'. view d' ob' = lad_resize i v (view d' ob)" "oSide x = side_of d"
    and p: "published d (oPrice x) ob ob'"
  from ref_of_published [OF p, of "\<lambda>d. lad_resize i v (view d ob)"] c show ?thesis by simp
qed

lemma MatchTaker_ref:
  assumes wf: "book_wf ob"
  shows "\<exists>ob'. MatchTaker t ac ob = Some (fst (ref_match t ac (ref_of ob)), fst (snd (ref_match t ac (ref_of ob))), ob') \<and>
    ref_of ob' = snd (snd (ref_match t ac (ref_of ob))) \<and> book_wf ob' \<and> (book_indexed ob \<longrightarrow> book_indexed ob') \<and>
    obIndex ob' \<subseteq>\<^sub>m obIndex ob"
proof (cases "oSide t" rule: side_cases)
  case other
  then show ?thesis using wf by (simp add: MatchTaker_other ref_match_def ref_side_other)
next
  case (side d)
  from wf side obtain es rem sq lad ob' where
    f: "ladder_fill t ac (stp_on t) (obL2 ob) (obSymbol ob) d (obSeq ob) (oVolume t) (view d ob) = (es, rem, sq, lad)"
    and r: "MatchTaker t ac ob = Some (trades es, rem, ob')" and m: "matched d ob es sq lad ob'"
    by (rule MatchTaker_run [where ac = ac])
  let ?rb = "(ref_of ob)\<lparr>rLadder := (rLadder (ref_of ob))(d := lad), rSeq := sq, rDeltas := obDeltas ob @ depths es\<rparr>"
  have ref: "ref_match t ac (ref_of ob) = (trades es, rem, ?rb)"
    using f side by (simp add: ref_match_def)
  have "ref_of ob' = ?rb"
  proof (rule ref_of_eqI)
    fix d' show "view d' ob' = rLadder ?rb d'"
      using matchedD(2,3) [OF m] by (cases d; cases d') simp_all
  qed (use matchedD(6-10) [OF m] in simp_all)
  then show ?thesis using r matchedD(1,4,5) [OF m] unfolding ref by auto
qed

section \<open>The engine refines its reference\<close>

text \<open>
  \<open>runs_as ob ref\<close> relates the value of an engine operation on \<open>ob\<close> to the value of
  its reference: the operation returns, with the reference's result, in a book
  whose reference book is the reference's.
\<close>

definition runs_as :: "('a \<times> orderbook) option \<Rightarrow> 'a \<times> refbook \<Rightarrow> bool" where
  "runs_as out ref \<longleftrightarrow> (\<exists>ob'. out = Some (fst ref, ob') \<and> ref_of ob' = snd ref \<and> book_wf ob')"

lemma runs_asI: "out = Some (r, ob') \<Longrightarrow> ref_of ob' = rb \<Longrightarrow> book_wf ob' \<Longrightarrow> runs_as out (r, rb)"
  by (simp add: runs_as_def)

lemma runs_asE:
  assumes "runs_as out ref"
  obtains ob' where "out = Some (fst ref, ob')" "ref_of ob' = snd ref" "book_wf ob'"
  using assms by (auto simp: runs_as_def)

lemma runs_as_Some: "runs_as (Some (r, ob)) (r', rb) \<longleftrightarrow> r = r' \<and> ref_of ob = rb \<and> book_wf ob"
  by (auto simp: runs_as_def)

lemma side_options: "ref_side sd = None \<or> (\<exists>d. sd = side_of d)"
  by (metis side_of_eq ref_side_other)

lemma wouldCross_ref: "wouldCross ob t = ref_crossed t (ref_of ob)"
proof (cases "oSide t" rule: side_cases)
  case other
  then show ?thesis by (simp add: wouldCross_def ref_crossed_def ref_side_other)
next
  case (side d)
  then show ?thesis
    by (cases d) (auto simp: wouldCross_def ref_crossed_def ref_side_def crosses_def view_def book_of_def split: list.splits)
qed

lemma canFullyFill_ref: "book_wf ob \<Longrightarrow> canFullyFill ob t = Some (ref_fillable t (ref_of ob))"
proof (cases "oSide t" rule: side_cases)
  case other
  then show ?thesis by (simp add: canFullyFill_def ref_fillable_def ref_side_other)
next
  case (side d)
  assume "book_wf ob"
  from canFullyFill_refines [OF this side] show ?thesis using side by (simp add: ref_fillable_def)
qed

lemma handleLimitOrder_ref:
  assumes wf: "book_wf ob"
  shows "runs_as (handleLimitOrder ob t) (ref_limit t (ref_of ob))"
proof -
  obtain ms rem rb where m: "ref_match t False (ref_of ob) = (ms, rem, rb)" by (metis prod_cases3)
  obtain ob1 where r: "MatchTaker t False ob = Some (ms, rem, ob1)" "ref_of ob1 = rb" "book_wf ob1"
    using MatchTaker_ref [OF wf, of t False] unfolding m by auto
  have a: "ref_of (snd (Add (t\<lparr>oVolume := rem\<rparr>) ob1)) = ref_add (t\<lparr>oVolume := rem\<rparr>) rb"
    "book_wf (snd (Add (t\<lparr>oVolume := rem\<rparr>) ob1))"
    using Add_ref [OF r(3)] Add_wf [OF r(3)] r(2) by auto
  show ?thesis
    using wf r a by (simp add: handleLimitOrder_def ref_limit_def wouldCross_ref canFullyFill_ref [OF wf]
        m runs_as_Some px_qty_simps)
qed

lemma handleMarketOrder_ref:
  assumes wf: "book_wf ob"
  shows "runs_as (handleMarketOrder ob t) (ref_market t (ref_of ob))"
proof -
  obtain ms rem rb where m: "ref_match t True (ref_of ob) = (ms, rem, rb)" by (metis prod_cases3)
  obtain ob1 where r: "MatchTaker t True ob = Some (ms, rem, ob1)" "ref_of ob1 = rb" "book_wf ob1"
    using MatchTaker_ref [OF wf, of t True] unfolding m by auto
  then show ?thesis by (simp add: handleMarketOrder_def ref_market_def m runs_as_Some)
qed

lemma AddConditionalOrder_ref:
  "ref_of (AddConditionalOrder t ob) = (ref_of ob)\<lparr>rConditional := obConditional ob @ [t]\<rparr>"
proof (rule ref_of_eqI)
  fix d show "view d (AddConditionalOrder t ob) = rLadder ((ref_of ob)\<lparr>rConditional := obConditional ob @ [t]\<rparr>) d"
    by simp
qed (simp_all add: AddConditionalOrder_def)

lemma MatchAndAddNewOrder_ref:
  assumes wf: "book_wf ob"
  shows "runs_as (MatchAndAddNewOrder ob t) (ref_submit t (ref_of ob))"
  using handleLimitOrder_ref [OF wf] handleMarketOrder_ref [OF wf] wf
  by (simp add: MatchAndAddNewOrder_def handleStopLimitOrder_def ref_submit_def Let_def runs_as_Some
      AddConditionalOrder_ref)

lemma ModifyOrder_ref:
  assumes wf: "book_wf ob" and ix: "book_indexed ob"
  shows "runs_as (ModifyOrder ob i p v) (ref_modify i p v (ref_of ob))"
proof (cases "LookupOrder i ob")
  case None
  then show ?thesis using wf by (simp add: ModifyOrder_def ref_modify_def ref_lookup_ref_of [OF assms] runs_as_Some)
next
  case (Some x)
  obtain e ob1 where c: "Cancel i ob = (e, ob1)" by fastforce
  obtain e' ob2 where r: "ReduceVolume i v ob = (e', ob2)" by fastforce
  have rc: "ref_cancel i (ref_of ob) = (e, ref_of ob1)" using Cancel_ref [OF assms, of i] c by simp
  have e: "e = None" using rc by (auto simp: ref_cancel_def ref_lookup_ref_of [OF assms] Some)
  have wf1: "book_wf ob1" and wf2: "book_wf ob2"
    using Cancel_wf(1) [OF wf, of i] ReduceVolume_wf(1) [OF wf, of i v] c r by simp_all
  consider "v = 0" | "v \<noteq> 0" "p = oPrice x" "v < oVolume x" | "v \<noteq> 0" "\<not> (p = oPrice x \<and> v < oVolume x)"
    by blast
  then show ?thesis
  proof cases
    case 1
    then show ?thesis
      using wf1 by (simp add: ModifyOrder_def ref_modify_def ref_lookup_ref_of [OF assms] Some c rc runs_as_Some px_qty_simps)
  next
    case 2
    from ReduceVolume_ref [OF assms Some 2(1,3)] 2 wf2 r show ?thesis
      by (simp add: ModifyOrder_def ref_modify_def ref_lookup_ref_of [OF assms] Some runs_as_Some px_qty_simps)
  next
    case 3
    from MatchAndAddNewOrder_ref [OF wf1, of "x\<lparr>oPrice := p, oVolume := v\<rparr>"] 3 show ?thesis
      by (auto simp: ModifyOrder_def ref_modify_def ref_lookup_ref_of [OF assms] Some c e rc px_qty_simps Let_def)
  qed
qed

section \<open>Conditional orders\<close>

fun ref_promote :: "order \<Rightarrow> match list \<Rightarrow> refbook \<Rightarrow> match list \<times> refbook" where
  "ref_promote t [] rb = ([], rb)"
| "ref_promote t (m # lms) rb =
     (if IsTriggered t (mPrice m)
      then (case ref_limit t rb of (r, rb1) \<Rightarrow>
              (case ref_promote t lms rb1 of (ms, rb2) \<Rightarrow> (rMatches r @ ms, rb2)))
      else ref_promote t lms rb)"

fun ref_promote_all :: "order list \<Rightarrow> match list \<Rightarrow> refbook \<Rightarrow> match list \<times> refbook" where
  "ref_promote_all [] lms rb = ([], rb)"
| "ref_promote_all (t # ts) lms rb =
     (case ref_promote t lms rb of (ms1, rb1) \<Rightarrow>
        (case ref_promote_all ts lms rb1 of (ms2, rb2) \<Rightarrow> (ms1 @ ms2, rb2)))"

definition ref_conditional :: "match list \<Rightarrow> refbook \<Rightarrow> match list \<times> refbook" where
  "ref_conditional lms rb = ref_promote_all (rConditional rb) lms rb"

lemma promote_order_ref: "book_wf ob \<Longrightarrow> runs_as (promote_order t lms ob) (ref_promote t lms (ref_of ob))"
proof (induction lms arbitrary: ob)
  case (Cons m lms)
  obtain r rb where l: "ref_limit t (ref_of ob) = (r, rb)" by fastforce
  obtain ob1 where o1: "handleLimitOrder ob t = Some (r, ob1)" "ref_of ob1 = rb" "book_wf ob1"
    by (rule runs_asE [OF handleLimitOrder_ref [OF Cons.prems, of t, unfolded l]]) simp
  obtain ms rb2 where p: "ref_promote t lms rb = (ms, rb2)" by fastforce
  obtain ob2 where o2: "promote_order t lms ob1 = Some (ms, ob2)" "ref_of ob2 = rb2" "book_wf ob2"
    by (rule runs_asE [OF Cons.IH [OF o1(3), unfolded o1(2) p]]) simp
  show ?case using Cons.IH [OF Cons.prems] o1 o2 l p by (simp add: runs_as_Some)
qed (simp add: runs_as_Some)

lemma promote_orders_ref: "book_wf ob \<Longrightarrow> runs_as (promote_orders ts lms ob) (ref_promote_all ts lms (ref_of ob))"
proof (induction ts arbitrary: ob)
  case (Cons t ts)
  obtain ms1 rb1 where p: "ref_promote t lms (ref_of ob) = (ms1, rb1)" by fastforce
  obtain ob1 where o1: "promote_order t lms ob = Some (ms1, ob1)" "ref_of ob1 = rb1" "book_wf ob1"
    by (rule runs_asE [OF promote_order_ref [OF Cons.prems, of t lms, unfolded p]]) simp
  obtain ms2 rb2 where q: "ref_promote_all ts lms rb1 = (ms2, rb2)" by fastforce
  obtain ob2 where o2: "promote_orders ts lms ob1 = Some (ms2, ob2)" "ref_of ob2 = rb2" "book_wf ob2"
    by (rule runs_asE [OF Cons.IH [OF o1(3), unfolded o1(2) q]]) simp
  show ?case using o1 o2 p q by (simp add: runs_as_Some)
qed (simp add: runs_as_Some)

lemma HandleConditionalOrders_ref:
  "book_wf ob \<Longrightarrow> runs_as (HandleConditionalOrders ob lms) (ref_conditional lms (ref_of ob))"
  using promote_orders_ref by (simp add: HandleConditionalOrders_def ref_conditional_def)

end
