(* ===== verification/Liquidity.thy ===== *)
theory Liquidity
  imports Reference MatchProps
begin

text \<open>
  How much a taker can get: the volume resting at prices it accepts, as an unbounded
  integer, and what the matching loop and the fill-or-kill pre-check make of it.
\<close>

definition acceptable :: "bool \<Rightarrow> order \<Rightarrow> ladder \<Rightarrow> int" where
  "acceptable ac t lad =
     (\<Sum>(p, x)\<leftarrow>flat (filter (\<lambda>(p, os). ac \<or> crosses t p) lad). qty_val (oVolume x))"

lemma acceptable_simps [simp]:
  "acceptable ac t [] = 0"
  "acceptable ac t ((p, os) # lad) =
     (if ac \<or> crosses t p then (\<Sum>x\<leftarrow>os. qty_val (oVolume x)) else 0) + acceptable ac t lad"
  by (simp_all add: acceptable_def comp_def)

lemma acceptable_nonneg: "lad_positive lad \<Longrightarrow> 0 \<le> acceptable ac t lad"
  unfolding acceptable_def
  by (intro sum_list_nonneg) (fastforce simp: flat_def lad_positive_def qty_pos_iff)

text \<open>Below a price the taker refuses there is nothing for it.\<close>

lemma acceptable_refused:
  assumes "sorted_wrt (better d) (map fst ((p, os) # lad))" and "oSide t = side_of (\<not> d)" and "\<not> crosses t p"
  shows "acceptable False t ((p, os) # lad) = 0"
proof -
  have "\<not> crosses t q" if "(q, os') \<in> set lad" for q os'
  proof -
    have "better d p q" using assms(1) that by auto
    then show ?thesis using assms(3) unfolding crosses_side [OF assms(2)] using ladder.trans by blast
  qed
  then have "filter (\<lambda>(p, os). False \<or> crosses t p) ((p, os) # lad) = []"
    using assms(3) by (auto simp: filter_empty_conv)
  then show ?thesis by (simp only: acceptable_def flat_simps list.map sum_list.Nil)
qed

lemma qty_left:
  assumes "0 < need" and "0 < v"
  shows "qty_val (need - v) = qty_val need - qty_val v"
  using assms qty_val_bounds [of need] qty_val_bounds [of v] by (intro qty_val_diff) (simp_all add: qty_pos_iff)

lemma queue_need_sum:
  "queue_need need os = (met, need1) \<Longrightarrow> 0 < need \<Longrightarrow> \<forall>x \<in> set os. 0 < oVolume x \<Longrightarrow>
   (met \<longleftrightarrow> qty_val need \<le> (\<Sum>x\<leftarrow>os. qty_val (oVolume x))) \<and>
   (\<not> met \<longrightarrow> 0 < need1 \<and> qty_val need1 = qty_val need - (\<Sum>x\<leftarrow>os. qty_val (oVolume x)))"
proof (induction os arbitrary: need)
  case Nil
  then show ?case by (auto simp: qty_pos_iff)
next
  case (Cons x xs)
  have x: "0 < oVolume x" and pos: "\<forall>x \<in> set xs. 0 < oVolume x" using Cons.prems(3) by simp_all
  note d = qty_left [OF Cons.prems(2) x]
  have nn: "0 \<le> (\<Sum>x\<leftarrow>xs. qty_val (oVolume x))" using pos by (intro sum_list_nonneg) (auto simp: qty_pos_iff)
  show ?case
  proof (cases "0 < need - oVolume x")
    case True
    then show ?thesis using Cons.IH [OF _ True pos] Cons.prems(1) d by auto
  next
    case False
    then have "qty_val need \<le> qty_val (oVolume x)" using d by (simp add: qty_pos_iff)
    then show ?thesis using False Cons.prems(1) nn by auto
  qed
qed

lemma can_fill_acceptable:
  "0 < need \<Longrightarrow> lad_positive lad \<Longrightarrow> sorted_wrt (better d) (map fst lad) \<Longrightarrow> oSide t = side_of (\<not> d) \<Longrightarrow>
   can_fill t need lad \<longleftrightarrow> qty_val need \<le> acceptable False t lad"
proof (induction lad arbitrary: need)
  case Nil
  then show ?case by (simp add: acceptable_def qty_pos_iff)
next
  case (Cons e lad)
  obtain p os where e: "e = (p, os)" by (cases e)
  show ?case
  proof (cases "crosses t p")
    case False
    note srt = Cons.prems(3) [unfolded e]
    show ?thesis
      using acceptable_refused [OF srt Cons.prems(4) False] False Cons.prems(1) by (simp add: e qty_pos_iff)
  next
    case True
    obtain met need1 where q: "queue_need need os = (met, need1)" by (cases "queue_need need os")
    have pos: "\<forall>x \<in> set os. 0 < oVolume x" "lad_positive lad" using Cons.prems(2) e by simp_all
    note s = queue_need_sum [OF q Cons.prems(1) pos(1)]
    note nn = acceptable_nonneg [OF pos(2), of False t]
    show ?thesis
    proof (cases met)
      case True
      then show ?thesis using s nn q \<open>crosses t p\<close> by (simp add: e)
    next
      case False
      then have "can_fill t need1 lad \<longleftrightarrow> qty_val need1 \<le> acceptable False t lad"
        using s Cons.IH [OF _ pos(2)] Cons.prems(3,4) e by simp
      then show ?thesis using False s q \<open>crosses t p\<close> by (auto simp: e)
    qed
  qed
qed

section \<open>What a run executes\<close>

lemma queue_fill_supply:
  assumes "queue_fill t False p sq rem ch os = (ms, rem', ch', sq', os')" and "\<forall>x \<in> set os. 0 < oVolume x"
  shows "(\<Sum>x\<leftarrow>os. qty_val (oVolume x)) = traded ms + (\<Sum>x\<leftarrow>os'. qty_val (oVolume x))"
proof -
  have "\<forall>(p, x) \<in> set (map (Pair p) os). 0 < oVolume x" using assms(2) by auto
  from priority_volume [OF queue_fill_priority [OF assms(1)] this] show ?thesis
    by (simp add: comp_def traded_def fill_key_def)
qed

lemma ladder_fill_supply:
  "ladder_fill t ac False l2 smb d sq rem lad = (es, rem', sq', lad') \<Longrightarrow> lad_positive lad \<Longrightarrow>
   acceptable ac t lad = traded (trades es) + acceptable ac t lad'"
proof (induction lad arbitrary: sq rem es)
  case (Cons e lad)
  obtain p os where e: "e = (p, os)" by (cases e)
  have pos: "\<forall>x \<in> set os. 0 < oVolume x" "lad_positive lad" using Cons.prems(2) e by simp_all
  from Cons.prems(1) [unfolded e] show ?case
  proof (cases rule: ladder_fill_step)
    case stop
    then show ?thesis by (simp add: e)
  next
    case (through ms rem1 ch sq1 es')
    show ?thesis
      using queue_fill_supply [OF through(3) pos(1)] Cons.IH [OF through(4) pos(2)] through(2,5) by (simp add: e)
  next
    case (within ms ch sq1 os1)
    show ?thesis using queue_fill_supply [OF within(3) pos(1)] within(2,6,8) by (simp add: e)
  qed
qed simp

lemma ladder_fill_executes:
  assumes f: "ladder_fill t ac False l2 smb d sq rem lad = (es, rem', sq', lad')"
    and pos: "lad_positive lad" and rem: "0 \<le> rem" and side: "oSide t = side_of (\<not> d)"
    and srt: "sorted_wrt (better d) (map fst lad)"
  shows "traded (trades es) = min (qty_val rem) (acceptable ac t lad)"
    and "qty_val rem' = qty_val rem - traded (trades es)"
proof -
  have vols: "traded (trades es) + qty_val rem' = qty_val rem" "0 \<le> rem'" "lad_positive lad'"
    using ladder_fill_volumes [OF f pos rem] by simp_all
  note sup = ladder_fill_supply [OF f pos]
  have srt': "sorted_wrt (better d) (map fst lad')"
    using ladder_fill_prices [OF f] sorted_wrt_drop [OF srt] by (metis drop_map)
  have "acceptable ac t lad' = 0" if "0 < rem'"
  proof (cases lad')
    case (Cons e l)
    obtain p os where e: "e = (p, os)" by (cases e)
    have "\<not> ac" "\<not> crosses t p" using ladder_fill_complete [OF f that] Cons e by simp_all
    then show ?thesis using acceptable_refused [OF _ side] srt' Cons e by simp
  qed simp
  moreover have "0 \<le> acceptable ac t lad'" by (rule acceptable_nonneg [OF vols(3)])
  moreover have "0 < rem' \<or> qty_val rem' = 0" using vols(2) by (auto simp: less_qty_def less_eq_qty_def)
  ultimately show "traded (trades es) = min (qty_val rem) (acceptable ac t lad)"
    using sup vols(1) vols(2) by (auto simp: less_eq_qty_def min_def)
  show "qty_val rem' = qty_val rem - traded (trades es)" using vols(1) by simp
qed

lemma MatchTaker_executes:
  assumes wf: "book_wf ob" and pos: "book_positive ob" and side: "oSide t = side_of (\<not> d)"
    and ns: "no_self t d ob" and vol: "0 \<le> oVolume t" and run: "MatchTaker t ac ob = Some (ms, rem, ob')"
  shows "traded ms = min (qty_val (oVolume t)) (acceptable ac t (view d ob))"
    and "qty_val rem = qty_val (oVolume t) - traded ms"
proof -
  have "traded ms = min (qty_val (oVolume t)) (acceptable ac t (view d ob)) \<and>
    qty_val rem = qty_val (oVolume t) - traded ms"
  proof (rule MatchTaker_ladder [OF wf side run])
    fix es sq
    assume f: "ladder_fill t ac (stp_on t) (obL2 ob) (obSymbol ob) d (obSeq ob) (oVolume t) (view d ob) =
       (es, rem, sq, view d ob')" and ms: "ms = trades es"
    have "lad_positive (view d ob)" using pos by (simp add: book_positive_view)
    from ladder_fill_executes [OF f [unfolded no_self_fill [OF ns]] this vol side view_sorted [OF book_wf_ghost [OF wf]]]
    show ?thesis unfolding ms by blast
  qed
  then show "traded ms = min (qty_val (oVolume t)) (acceptable ac t (view d ob))"
    "qty_val rem = qty_val (oVolume t) - traded ms" by blast+
qed

end
