(* ===== verification/EngineProps.thy ===== *)
theory EngineProps
  imports Liquidity BookProps Samples
begin

text \<open>
  What the engine guarantees of every order it is given, for each order type and
  time in force, and of cancel, modify and the promotion of conditional orders.
\<close>

section \<open>Facts about single orders\<close>

lemma MatchAndAddNewOrder_limit:
  "oType t = LIMIT \<Longrightarrow> MatchAndAddNewOrder ob t = handleLimitOrder ob (Normalize t)"
  by (simp add: MatchAndAddNewOrder_def Let_def)

lemma handleLimitOrder_cases:
  assumes "handleLimitOrder ob t = Some (r, ob')"
  obtains (crossed) "oTIF t = PostOnly" "wouldCross ob t" "r = rejected RejectPostOnlyCrossed" "ob' = ob"
    | (unfillable) "oTIF t = FOK" "canFullyFill ob t = Some False" "r = rejected RejectFOKUnfillable" "ob' = ob"
    | (matched) ms rem ob1 where "oTIF t = PostOnly \<Longrightarrow> \<not> wouldCross ob t"
      "oTIF t = FOK \<Longrightarrow> canFullyFill ob t = Some True"
      "MatchTaker t False ob = Some (ms, rem, ob1)" "r = accepted ms"
      "ob' = (if oTIF t = IOC \<or> oTIF t = FOK \<or> \<not> 0 < rem then ob1 else snd (Add (t\<lparr>oVolume := rem\<rparr>) ob1))"
proof -
  consider "oTIF t = PostOnly" "wouldCross ob t" | "oTIF t = FOK" "canFullyFill ob t = Some False"
    | "\<not> (oTIF t = PostOnly \<and> wouldCross ob t)" "\<not> (oTIF t = FOK \<and> canFullyFill ob t \<noteq> Some True)"
    using assms by (cases "canFullyFill ob t"; cases "oTIF t = FOK") (auto simp: handleLimitOrder_def)
  then show thesis
  proof cases
    case 1
    then show thesis using assms by (intro crossed) (simp_all add: handleLimitOrder_def)
  next
    case 2
    then show thesis using assms by (intro unfillable) (simp_all add: handleLimitOrder_def tif_distinct)
  next
    case 3
    have f: "(if oTIF t = FOK then canFullyFill ob t else Some True) = Some True" using 3(2) by simp
    have "handleLimitOrder ob t = do {
        (ms, rem, ob1) \<leftarrow> MatchTaker t False ob;
        Some (accepted ms, if oTIF t = IOC \<or> oTIF t = FOK \<or> \<not> 0 < rem then ob1
                           else snd (Add (t\<lparr>oVolume := rem\<rparr>) ob1)) }"
      unfolding handleLimitOrder_def if_not_P [OF 3(1)] f
      by (cases "MatchTaker t False ob") (auto simp: px_qty_simps)
    then obtain ms rem ob1 where "MatchTaker t False ob = Some (ms, rem, ob1)" "r = accepted ms"
      "ob' = (if oTIF t = IOC \<or> oTIF t = FOK \<or> \<not> 0 < rem then ob1 else snd (Add (t\<lparr>oVolume := rem\<rparr>) ob1))"
      using assms by (cases "MatchTaker t False ob") auto
    then show thesis using 3 by (intro matched) blast+
  qed
qed

lemma accepted_sel [simp]:
  "rAccepted (accepted ms)" "rMatches (accepted ms) = ms" "rReason (accepted ms) = ''''"
  "accepted ms = accepted ms' \<longleftrightarrow> ms = ms'"
  "\<not> rAccepted (rejected why)" "rMatches (rejected why) = []" "rReason (rejected why) = why"
  by (simp_all add: accepted_def rejected_def)

lemma crosses_Normalize [simp]: "crosses (Normalize t) p = crosses t p"
  by (simp add: crosses_def)

lemma acceptable_Normalize [simp]: "acceptable ac (Normalize t) lad = acceptable ac t lad"
  by (simp add: acceptable_def)

lemma same_volume: "x\<lparr>oVolume := oVolume x\<rparr> = (x :: order)"
  by simp

lemma Normalize_volume: "(Normalize t)\<lparr>oVolume := oVolume t\<rparr> = Normalize t"
  using same_volume [of "Normalize t"] unfolding Normalize_sel .

text \<open>A taker that does not cross is not matched.\<close>

lemma ref_match_uncrossed:
  assumes "oSide t = side_of d" and "\<forall>(p, os) \<in> set (view (\<not> d) ob). \<not> crosses t p"
  shows "ref_match t False (ref_of ob) = ([], oVolume t, ref_of ob)"
proof -
  have "ladder_fill t False stp l2 smb (\<not> d) sq rem0 (view (\<not> d) ob) = ([], rem0, sq, view (\<not> d) ob)" for stp l2 smb sq rem0
    using assms(2) by (cases "view (\<not> d) ob") auto
  then show ?thesis using assms(1) by (simp add: ref_match_def ref_of_def fun_eq_iff)
qed

text \<open>A limit order that does not cross, and may rest, joins its own side.\<close>

lemma limit_rests:
  assumes wf: "book_wf ob" and side: "oSide t = side_of d" and no: "\<forall>(p, os) \<in> set (view (\<not> d) ob). \<not> crosses t p"
    and tif: "oTIF t \<noteq> IOC" "oTIF t \<noteq> FOK"
  shows "\<exists>ob'. handleLimitOrder ob t = Some (accepted [], ob') \<and> book_wf ob' \<and> view (\<not> d) ob' = view (\<not> d) ob \<and>
    view d ob' = (if 0 < oVolume t then lad_insert d t (view d ob) else view d ob)"
proof -
  let ?rb = "if 0 < oVolume t then ref_add t (ref_of ob) else ref_of ob"
  have "\<not> ref_crossed t (ref_of ob)"
    using no side by (auto simp: ref_crossed_def split: list.splits)
  then have "ref_limit t (ref_of ob) = (accepted [], ?rb)"
    using tif by (simp add: ref_limit_def ref_match_uncrossed [OF side no] same_volume)
  then obtain ob' where o: "handleLimitOrder ob t = Some (accepted [], ob')" "ref_of ob' = ?rb" "book_wf ob'"
    using runs_asE [OF handleLimitOrder_ref [OF wf, of t]] by auto
  have "view d' ob' = rLadder ?rb d'" for d' using o(2) by (metis ref_of_sel(1))
  then show ?thesis using o side by (auto simp: ref_add_def)
qed

lemma MatchAndAddNewOrder_rejected:
  assumes "MatchAndAddNewOrder ob t = Some (r, ob')" and "\<not> rAccepted r"
  shows "ob' = ob \<and> r \<in> rejected ` {RejectPostOnlyCrossed, RejectFOKUnfillable, RejectUnsupportedType @ '': '' @ oType t}"
proof -
  have limit: "ob' = ob \<and> r \<in> rejected ` {RejectPostOnlyCrossed, RejectFOKUnfillable}"
    if "handleLimitOrder ob x = Some (r, ob')" for x
    using that assms(2) by (cases rule: handleLimitOrder_cases) auto
  show ?thesis
    using assms limit
    by (auto simp: MatchAndAddNewOrder_def Let_def handleMarketOrder_def handleStopLimitOrder_def bind_eq_Some_conv
        split: if_splits)
qed

lemma wouldCross_cong: "oSide t = oSide t' \<Longrightarrow> oPrice t = oPrice t' \<Longrightarrow> wouldCross ob t = wouldCross ob t'"
  by (simp add: wouldCross_def cong: list.case_cong)

lemma wouldCross_view:
  assumes wf: "book_wf ob" and side: "oSide t = side_of d"
  shows "wouldCross ob t \<longleftrightarrow> (\<exists>(p, os) \<in> set (view (\<not> d) ob). crosses t p)"
proof -
  have s: "oSide t = side_of (\<not> \<not> d)" using side by simp
  have srt: "sorted_wrt (better (\<not> d)) (map fst (view (\<not> d) ob))" by (rule view_sorted [OF book_wf_ghost [OF wf]])
  have w: "wouldCross ob t = (case view (\<not> d) ob of [] \<Rightarrow> False | (p, os) # _ \<Rightarrow> crosses t p)"
    using side by (simp add: wouldCross_ref ref_crossed_def)
  show ?thesis
  proof (cases "view (\<not> d) ob")
    case (Cons e lad)
    obtain p os where e: "e = (p, os)" by fastforce
    have "crosses t p" if "(q, os') \<in> set lad" "crosses t q" for q os'
    proof -
      have "better (\<not> d) p q" using srt that(1) Cons e by auto
      then show ?thesis using that(2) unfolding crosses_side [OF s] using ladder.trans by blast
    qed
    then show ?thesis using w Cons e by auto
  qed (simp add: w)
qed
section \<open>The engine against its reference\<close>

text \<open>
  C2. The engine is its reference: submitting an order, promoting the conditional
  orders, cancelling and modifying return, with the result that the reference engine
  over plain lists gives, in a well-formed book that reads as the reference's book,
  published deltas and sequence counter included.
\<close>

theorem engine_refines_reference:
  assumes "book_wf ob"
  shows "runs_as (MatchAndAddNewOrder ob t) (ref_submit t (ref_of ob)) \<and>
    runs_as (HandleConditionalOrders ob lms) (ref_conditional lms (ref_of ob)) \<and>
    (book_indexed ob \<longrightarrow>
       runs_as (ModifyOrder ob i p v) (ref_modify i p v (ref_of ob)) \<and>
       runs_as (Some (CancelOrder ob i)) (ref_cancel i (ref_of ob)))"
proof (intro conjI impI)
  assume "book_indexed ob"
  then show "runs_as (Some (CancelOrder ob i)) (ref_cancel i (ref_of ob))"
    using Cancel_ref [OF assms, of i] Cancel_wf(1) [OF assms, of i]
    by (cases "Cancel i ob") (simp add: CancelOrder_def runs_as_Some)
qed (rule MatchAndAddNewOrder_ref HandleConditionalOrders_ref ModifyOrder_ref assms | assumption)+

definition sample_taker :: "order_type \<Rightarrow> tif \<Rightarrow> side \<Rightarrow> int64 \<Rightarrow> int64 \<Rightarrow> order" where
  "sample_taker ty tf sd price volume =
     (sample_order 9 1 sd price volume)\<lparr>oType := ty, oTIF := tf, oSTP := STPCancelTaker\<rparr>"

lemma sample_taker_sel [simp]:
  "oID (sample_taker ty tf sd price volume) = 9" "oType (sample_taker ty tf sd price volume) = ty"
  "oTIF (sample_taker ty tf sd price volume) = tf" "oSide (sample_taker ty tf sd price volume) = sd"
  "oPrice (sample_taker ty tf sd price volume) = Px price" "oVolume (sample_taker ty tf sd price volume) = Qty volume"
  "oTrigger (sample_taker ty tf sd price volume) = 0" "oUserID (sample_taker ty tf sd price volume) = 1"
  "oSTP (sample_taker ty tf sd price volume) = STPCancelTaker"
  by (simp_all add: sample_taker_def sample_order_def)

lemma Normalize_sample_taker [simp]:
  "Normalize (sample_taker ty tf sd price volume) = sample_taker ty tf sd price volume"
  by (simp add: Normalize_def Let_def stp_defs tif_defs)

lemma sample_book_fresh: "LookupOrder 9 sample_book = None"
  by code_simp

lemma sample_taker_stp: "stp_on (sample_taker ty tf sd price volume)"
  by (simp add: stp_on_def)

lemma sample_taker_ladder:
  "ladder_fill (sample_taker LIMIT GTC SELL 99 6) False True False ''BTC'' True 0 (Qty 6) (view True sample_book) =
    ([Trade \<lparr>mSeq = 1, mBuyId = 1, mSellId = 9, mMatchId = 0, mPrice = Px 100, mVolume = Qty 5\<rparr>,
      Trade \<lparr>mSeq = 2, mBuyId = 2, mSellId = 9, mMatchId = 0, mPrice = Px 100, mVolume = Qty 1\<rparr>], 0, 2,
     [(Px 100, [sample_order 2 8 BUY 100 2]), (Px 99, [sample_order 3 7 BUY 99 4])])"
  unfolding sample_book_view by code_simp

theorem engine_refines_reference_witness:
  "\<exists>ob'. MatchAndAddNewOrder sample_book (sample_taker LIMIT GTC SELL 99 6) =
     Some (accepted [\<lparr>mSeq = 1, mBuyId = 1, mSellId = 9, mMatchId = 0, mPrice = Px 100, mVolume = Qty 5\<rparr>,
                     \<lparr>mSeq = 2, mBuyId = 2, mSellId = 9, mMatchId = 0, mPrice = Px 100, mVolume = Qty 1\<rparr>], ob') \<and>
     view True ob' = [(Px 100, [sample_order 2 8 BUY 100 2]), (Px 99, [sample_order 3 7 BUY 99 4])] \<and>
     obSeq ob' = 2"
proof -
  let ?t = "sample_taker LIMIT GTC SELL 99 6"
  let ?m1 = "\<lparr>mSeq = 1, mBuyId = 1, mSellId = 9, mMatchId = 0, mPrice = Px 100, mVolume = Qty 5\<rparr>"
  let ?m2 = "\<lparr>mSeq = 2, mBuyId = 2, mSellId = 9, mMatchId = 0, mPrice = Px 100, mVolume = Qty 1\<rparr>"
  let ?lad = "[(Px 100, [sample_order 2 8 BUY 100 2]), (Px 99, [sample_order 3 7 BUY 99 4])]"
  have run: "runs_as (MatchAndAddNewOrder sample_book ?t) (ref_submit ?t (ref_of sample_book))"
    using engine_refines_reference [OF sample_book_wf(1)] by blast
  have z: "\<not> 0 < (0::qty)" by simp
  have fill: "ladder_fill ?t False (stp_on ?t) (rL2 (ref_of sample_book)) (rSymbol (ref_of sample_book)) True
      (rSeq (ref_of sample_book)) (oVolume ?t) (rLadder (ref_of sample_book) True) =
    ([Trade ?m1, Trade ?m2], 0, 2, ?lad)"
    using sample_taker_ladder by (simp add: sample_taker_stp sample_book_fields)
  have "ref_submit ?t (ref_of sample_book) = (accepted [?m1, ?m2],
      (ref_of sample_book)\<lparr>rLadder := (rLadder (ref_of sample_book))(True := ?lad), rSeq := 2,
        rDeltas := rDeltas (ref_of sample_book) @ []\<rparr>)"
    by (simp add: ref_submit_def ref_limit_def ref_match_def ref_side_def z fill [simplified])
  then obtain ob' where "MatchAndAddNewOrder sample_book ?t = Some (accepted [?m1, ?m2], ob')"
    and r: "ref_of ob' = (ref_of sample_book)\<lparr>rLadder := (rLadder (ref_of sample_book))(True := ?lad), rSeq := 2,
        rDeltas := rDeltas (ref_of sample_book) @ []\<rparr>"
    using run by (auto simp: runs_as_def)
  moreover have "view True ob' = ?lad" "obSeq ob' = 2"
    using arg_cong [OF r, of "\<lambda>rb. rLadder rb True"] arg_cong [OF r, of rSeq] by simp_all
  ultimately show ?thesis by blast
qed

section \<open>Every operation returns and keeps the book in order\<close>



text \<open>
  C6. The book never crosses: from a well-formed book whose bids are all below its
  asks, submitting any order, promoting conditional orders, cancelling and modifying
  leave every bid below every ask.
\<close>

theorem engine_keeps_uncrossed:
  assumes "book_wf ob" and "uncrossed ob"
  shows "(\<exists>r ob'. MatchAndAddNewOrder ob t = Some (r, ob') \<and> uncrossed ob') \<and>
    (\<exists>ms ob'. HandleConditionalOrders ob lms = Some (ms, ob') \<and> uncrossed ob') \<and>
    uncrossed (snd (CancelOrder ob i)) \<and>
    (\<exists>r ob'. ModifyOrder ob i p v = Some (r, ob') \<and> uncrossed ob')"
proof -
  have I: "book_wf ob \<and> uncrossed ob" using assms by blast
  show ?thesis
    using uncrossed.new_order_keeps [OF I TrueI] uncrossed.conditional_keeps [OF I]
      uncrossed.cancel_order_keeps [OF I] uncrossed.modify_keeps [OF I TrueI] by blast
qed

theorem engine_keeps_uncrossed_witness:
  "\<exists>r ob'. MatchAndAddNewOrder sample_book (sample_taker LIMIT GTC SELL 99 60) = Some (r, ob') \<and> uncrossed ob'"
  using engine_keeps_uncrossed [OF sample_book_wf(1) sample_book_uncrossed] by blast

section \<open>Rejections\<close>



section \<open>Times in force\<close>

text \<open>
  C14. A post-only limit order never takes liquidity. It is rejected exactly when some
  resting order of the other side has a price it would accept; otherwise it produces
  no trade, the other side stays as it is and the order, if its volume is positive,
  joins its own side at the tail of its price level.
\<close>

theorem post_only_never_takes:
  assumes "book_wf ob" and "oType t = LIMIT" and "oTIF t = PostOnly" and "oSide t = side_of d"
  shows "\<exists>r ob'. MatchAndAddNewOrder ob t = Some (r, ob') \<and>
    (if \<exists>(p, os) \<in> set (view (\<not> d) ob). crosses t p
     then r = rejected RejectPostOnlyCrossed \<and> ob' = ob
     else r = accepted [] \<and> view (\<not> d) ob' = view (\<not> d) ob \<and>
       view d ob' = (if 0 < oVolume t then lad_insert d (Normalize t) (view d ob) else view d ob))"
proof -
  let ?n = "Normalize t"
  have s: "oSide ?n = side_of d" and tif: "oTIF ?n = PostOnly" using assms(3,4) by simp_all
  have w: "wouldCross ob ?n \<longleftrightarrow> (\<exists>(p, os) \<in> set (view (\<not> d) ob). crosses t p)"
    using wouldCross_view [OF assms(1) s] by simp
  show ?thesis
  proof (cases "wouldCross ob ?n")
    case True
    then have "handleLimitOrder ob ?n = Some (rejected RejectPostOnlyCrossed, ob)"
      using tif by (simp add: handleLimitOrder_def)
    then show ?thesis using w True assms(2) by (simp add: MatchAndAddNewOrder_limit)
  next
    case False
    then have "\<forall>(p, os) \<in> set (view (\<not> d) ob). \<not> crosses ?n p" using w by auto
    from limit_rests [OF assms(1) s this] show ?thesis
      using tif w False assms(2) by (auto simp: MatchAndAddNewOrder_limit)
  qed
qed

theorem post_only_never_takes_witness:
  "(\<exists>ob'. MatchAndAddNewOrder sample_book (sample_taker LIMIT PostOnly SELL 100 6) =
      Some (rejected RejectPostOnlyCrossed, ob')) \<and>
   (\<exists>ob'. MatchAndAddNewOrder sample_book (sample_taker LIMIT PostOnly SELL 102 6) = Some (accepted [], ob') \<and>
      view False ob' =
        [(Px 102, [sample_order 5 8 SELL 102 2, sample_order 6 9 SELL 102 5, sample_taker LIMIT PostOnly SELL 102 6]),
         (Px 103, [sample_order 4 9 SELL 103 6])])"
proof
  have c: "crosses (sample_taker ty tf SELL q v) (Px p) \<longleftrightarrow> Px q \<le> Px p" for ty tf q p v
    by (simp add: crosses_def px_qty_simps)
  have s: "oSide (sample_taker LIMIT PostOnly SELL q 6) = side_of False" for q by simp
  note t = post_only_never_takes [OF sample_book_wf(1) sample_taker_sel(2,3) s]
  show "\<exists>ob'. MatchAndAddNewOrder sample_book (sample_taker LIMIT PostOnly SELL 100 6) =
      Some (rejected RejectPostOnlyCrossed, ob')"
    using t [of 100] by (auto simp: sample_book_view c less_eq_px_def px_val_def)
  have i: "lad_insert False (sample_taker LIMIT PostOnly SELL 102 6) (view False sample_book) =
      [(Px 102, [sample_order 5 8 SELL 102 2, sample_order 6 9 SELL 102 5, sample_taker LIMIT PostOnly SELL 102 6]),
       (Px 103, [sample_order 4 9 SELL 103 6])]"
    by (simp add: sample_book_view)
  have n: "\<not> (\<exists>(p, os) \<in> set (view (\<not> False) sample_book). crosses (sample_taker LIMIT PostOnly SELL 102 6) p)"
    by (simp add: sample_book_view c less_eq_px_def px_val_def)
  have "0 < Qty 6" by (simp add: less_qty_def qty_val_def zero_qty_def)
  then show "\<exists>ob'. MatchAndAddNewOrder sample_book (sample_taker LIMIT PostOnly SELL 102 6) = Some (accepted [], ob') \<and>
      view False ob' =
        [(Px 102, [sample_order 5 8 SELL 102 2, sample_order 6 9 SELL 102 5, sample_taker LIMIT PostOnly SELL 102 6]),
         (Px 103, [sample_order 4 9 SELL 103 6])]"
    using t [of 102] unfolding if_not_P [OF n] Normalize_sample_taker sample_taker_sel(6) i by auto
qed

text \<open>
  C13. Fill or kill: when the taker's own orders are not in the way, an order of
  positive volume is traded in full if the volume resting at prices it accepts
  reaches its own, and is otherwise rejected with the book unchanged.
\<close>

theorem fill_or_kill:
  assumes "book_wf ob" and "book_positive ob" and "oType t = LIMIT" and "oTIF t = FOK"
    and "oSide t = side_of (\<not> d)" and "0 < oVolume t" and "no_self (Normalize t) d ob"
  shows "\<exists>r ob'. MatchAndAddNewOrder ob t = Some (r, ob') \<and>
    (if qty_val (oVolume t) \<le> acceptable False t (view d ob)
     then rAccepted r \<and> traded (rMatches r) = qty_val (oVolume t) \<and> view (\<not> d) ob' = view (\<not> d) ob
     else r = rejected RejectFOKUnfillable \<and> ob' = ob)"
proof -
  let ?n = "Normalize t"
  have n: "oSide ?n = side_of (\<not> d)" "oTIF ?n = FOK" "oVolume ?n = oVolume t" "0 \<le> oVolume ?n"
    using assms(4-6) by simp_all
  have srt: "sorted_wrt (better d) (map fst (view d ob))" by (rule view_sorted [OF book_wf_ghost [OF assms(1)]])
  have "lad_positive (view d ob)" using assms(2) by (simp add: book_positive_view)
  from can_fill_acceptable [OF assms(6) this srt n(1)]
  have fill: "canFullyFill ob ?n = Some (qty_val (oVolume t) \<le> acceptable False t (view d ob))"
    using canFullyFill_refines [OF assms(1) n(1)] by simp
  obtain r ob' where run: "handleLimitOrder ob ?n = Some (r, ob')"
    using runs_asE [OF handleLimitOrder_ref [OF assms(1)]] by blast
  then have "if qty_val (oVolume t) \<le> acceptable False t (view d ob)
     then rAccepted r \<and> traded (rMatches r) = qty_val (oVolume t) \<and> view (\<not> d) ob' = view (\<not> d) ob
     else r = rejected RejectFOKUnfillable \<and> ob' = ob"
  proof (cases rule: handleLimitOrder_cases)
    case (matched ms rem ob1)
    have view1: "view (\<not> d) ob1 = view (\<not> d) ob"
      using MatchTaker_ladder [OF assms(1) n(1) matched(3)] matchedD(3) by metis
    show ?thesis
      using MatchTaker_executes(1) [OF assms(1,2) n(1) assms(7) n(4) matched(3)] matched(2) [OF n(2)] matched(4,5) fill n(2) view1
      by simp
  qed (use fill n(2) in simp_all)
  then show ?thesis using run assms(3) by (auto simp: MatchAndAddNewOrder_limit)
qed

theorem fill_or_kill_witness:
  "(\<exists>r ob'. MatchAndAddNewOrder sample_book (sample_taker LIMIT FOK SELL 99 12) = Some (r, ob') \<and>
      traded (rMatches r) = 12) \<and>
   MatchAndAddNewOrder sample_book (sample_taker LIMIT FOK SELL 99 13) =
      Some (rejected RejectFOKUnfillable, sample_book)"
proof -
  have ns: "no_self (Normalize (sample_taker LIMIT FOK SELL 99 v)) True sample_book" for v
    by (simp add: no_self_def sample_book_view) (simp add: sample_order_def)
  have s: "oSide (sample_taker LIMIT FOK SELL 99 v) = side_of (\<not> True)" for v by simp
  have pos: "0 < oVolume (sample_taker LIMIT FOK SELL 99 12)" "0 < oVolume (sample_taker LIMIT FOK SELL 99 13)"
    by (simp_all add: less_qty_def qty_val_def zero_qty_def)
  have ac: "acceptable False (sample_taker LIMIT FOK SELL 99 v) (view True sample_book) = 12" for v
    by (simp add: sample_book_view crosses_def px_qty_simps less_eq_px_def px_val_def) (simp add: sample_order_def qty_val_def)
  have q: "qty_val (oVolume (sample_taker LIMIT FOK SELL 99 12)) = 12"
    "qty_val (oVolume (sample_taker LIMIT FOK SELL 99 13)) = 13" by (simp_all add: qty_val_def)
  note fok = fill_or_kill [OF sample_book_wf(1,3) sample_taker_sel(2,3) s _ ns]
  show ?thesis using fok [OF pos(1)] fok [OF pos(2)] unfolding ac q by auto
qed



section \<open>What is executed and what rests\<close>

lemma LookupOrder_after_Add:
  assumes "book_wf ob" and "book_indexed ob" and "LookupOrder (oID x) ob = None" and "oSide x = side_of d"
  shows "LookupOrder (oID x) (snd (Add x ob)) = Some x"
proof (rule Add_refines [OF assms(1,4)])
  fix n ob'
  assume a: "Add x ob = (Some n, ob')" "book_wf ob'" "view d ob' = lad_insert d x (view d ob)"
    "book_indexed ob \<Longrightarrow> obIndex ob (oID x) = None \<Longrightarrow> book_indexed ob'"
  then show ?thesis using Add_lookup [OF a(2) _ a(3)] assms(2,3) by (auto simp: LookupOrder_None)
qed



text \<open>
  A market order trades the smaller of its volume and everything resting on the
  other side, at whatever price.
\<close>

theorem market_order_executes:
  assumes "book_wf ob" and "book_positive ob" and "oType t = MARKET" and "oSide t = side_of (\<not> d)"
    and "0 \<le> oVolume t" and "no_self (Normalize t) d ob"
  shows "\<exists>ms ob'. MatchAndAddNewOrder ob t = Some (accepted ms, ob') \<and>
    traded ms = min (qty_val (oVolume t)) (resting_volume d ob)"
proof -
  let ?n = "Normalize t"
  have n: "oSide ?n = side_of (\<not> d)" "0 \<le> oVolume ?n" using assms by simp_all
  obtain ms rem ob1 where m: "MatchTaker ?n True ob = Some (ms, rem, ob1)"
    using wf.match_returns [OF assms(1)] by blast
  have "acceptable True ?n (view d ob) = resting_volume d ob"
    by (simp add: acceptable_def resting_volume_def filter_True case_prod_beta)
  then show ?thesis
    using MatchTaker_executes(1) [OF assms(1,2) n(1) assms(6) n(2) m] m assms(3)
    by (simp add: MatchAndAddNewOrder_def Let_def handleMarketOrder_def)
qed

theorem market_order_executes_witness:
  "\<exists>ms ob'. MatchAndAddNewOrder sample_book (sample_taker MARKET GTC SELL 0 60) = Some (accepted ms, ob') \<and>
     traded ms = 12"
proof -
  let ?t = "sample_taker MARKET GTC SELL 0 60"
  have ns: "no_self (Normalize ?t) True sample_book"
    by (simp add: no_self_def sample_book_view) (simp add: sample_order_def)
  have s: "oSide ?t = side_of (\<not> True)" and pos: "0 \<le> oVolume ?t"
    by (simp_all add: less_eq_qty_def qty_val_def zero_qty_def)
  have rv: "resting_volume True sample_book = 12"
    by (simp add: resting_volume_def sample_book_view) (simp add: sample_order_def qty_val_def)
  have q: "qty_val (oVolume ?t) = 60" by (simp add: qty_val_def)
  show ?thesis
    using market_order_executes [OF sample_book_wf(1,3) sample_taker_sel(2) s pos ns] unfolding rv q by auto
qed

section \<open>Modify\<close>

text \<open>
  C16. Shrinking a resting order at its price happens in place: no trade, both ladders
  keep their prices, their orders and their order, and only that volume changes.
\<close>

theorem modify_shrinks_in_place:
  assumes "book_wf ob" and "book_indexed ob" and "LookupOrder i ob = Some x" and "v \<noteq> 0" and "v < oVolume x"
  shows "\<exists>ob'. ModifyOrder ob i (oPrice x) v = Some (accepted [], ob') \<and>
    (\<forall>d. view d ob' = lad_resize i v (view d ob)) \<and> LookupOrder i ob' = Some (x\<lparr>oVolume := v\<rparr>)"
proof -
  have i: "oID x = i" by (rule LookupOrder_resting(2) [OF book_wf_ghost [OF assms(1)] assms(3)])
  obtain d p os where row: "(p, os) \<in> set (view d ob)" "x \<in> set os"
    using LookupOrder_resting(1) [OF book_wf_ghost [OF assms(1)] assms(3)] by (auto simp: resting_view)
  show ?thesis
  proof (rule ReduceVolume_refines [OF assms])
    fix ob'
    assume r: "ReduceVolume i v ob = (None, ob')" "book_wf ob'" "book_indexed ob'"
      and vw: "\<And>d'. view d' ob' = lad_resize i v (view d' ob)"
    have "(p, map (resize i v) os) \<in> set (view d ob')"
      using row(1) unfolding vw lad_resize_def by force
    moreover have "resize i v x \<in> set (map (resize i v) os)" using row(2) by simp
    ultimately have "resize i v x \<in> set (resting ob')" unfolding resting_view by blast
    from resting_LookupOrder [OF r(2,3) this] have "LookupOrder i ob' = Some (x\<lparr>oVolume := v\<rparr>)"
      by (simp add: resize_def i)
    then show ?thesis using assms(3-5) r(1) vw by (simp add: ModifyOrder_def px_qty_simps)
  qed
qed

theorem modify_shrinks_in_place_witness:
  "\<exists>ob'. ModifyOrder sample_book 1 (Px 100) (Qty 4) = Some (accepted [], ob') \<and>
     view True ob' = [(Px 100, [sample_order 1 7 BUY 100 4, sample_order 2 8 BUY 100 3]),
                      (Px 99, [sample_order 3 7 BUY 99 4])]"
proof -
  have l: "LookupOrder 1 sample_book = Some (sample_order 1 7 BUY 100 5)" by code_simp
  have x: "oPrice (sample_order 1 7 BUY 100 5) = Px 100" by (simp add: sample_order_def)
  have r: "lad_resize 1 (Qty 4) (view True sample_book) =
      [(Px 100, [sample_order 1 7 BUY 100 4, sample_order 2 8 BUY 100 3]), (Px 99, [sample_order 3 7 BUY 99 4])]"
    by (simp add: sample_book_view lad_resize_def resize_def) (simp add: sample_order_def)
  have v: "Qty 4 \<noteq> 0" "Qty 4 < oVolume (sample_order 1 7 BUY 100 5)"
    by (simp_all add: sample_order_def less_qty_def qty_val_def zero_qty_def)
  show ?thesis
    using modify_shrinks_in_place [OF sample_book_wf(1,2) l v] unfolding x by (metis r)
qed

text \<open>
  A modification that is not a shrinking at the same price cancels the order and
  submits it anew; when the new order is rejected the old one is gone all the same,
  although the result says that the request was rejected.
\<close>

theorem rejected_modify_loses_order:
  assumes "book_wf ob" and "book_indexed ob" and "LookupOrder i ob = Some x"
    and "v \<noteq> 0" and "p \<noteq> oPrice x \<or> \<not> v < oVolume x"
    and "oType x = LIMIT" and "oTIF x = PostOnly" and "wouldCross (snd (Cancel i ob)) (x\<lparr>oPrice := p\<rparr>)"
  shows "\<exists>ob'. ModifyOrder ob i p v = Some (rejected RejectPostOnlyCrossed, ob') \<and> LookupOrder i ob' = None"
proof -
  let ?x = "x\<lparr>oPrice := p, oVolume := v\<rparr>"
  have i: "oID x = i" by (rule LookupOrder_resting(2) [OF book_wf_ghost [OF assms(1)] assms(3)])
  obtain ob1 where c: "Cancel i ob = (None, ob1)" by (rule Cancel_refines [OF assms(1-3)]) blast
  have w: "wouldCross ob1 (Normalize ?x)" using assms(8) c wouldCross_cong [of "Normalize ?x" "x\<lparr>oPrice := p\<rparr>"] by simp
  have "MatchAndAddNewOrder ob1 ?x = Some (rejected RejectPostOnlyCrossed, ob1)"
    using assms(6,7) w by (simp add: MatchAndAddNewOrder_limit handleLimitOrder_def)
  moreover have "LookupOrder i ob1 = None" using Cancel_frees [OF assms(1-3)] c i by simp
  ultimately show ?thesis
    using assms(3-5) c by (auto simp: ModifyOrder_def px_qty_simps Let_def)
qed

definition sample_maker :: order where
  "sample_maker = (sample_order 7 1 SELL 105 3)\<lparr>oTIF := PostOnly\<rparr>"

definition sample_book_maker :: orderbook where
  "sample_book_maker = AddAll [sample_order 1 7 BUY 100 5, sample_maker] (NewOrderbook ''BTC'')"

lemma sample_book_maker_ok: "book_ok sample_book_maker"
  unfolding sample_book_maker_def
  by (rule AddAll_ok [OF NewOrderbook_ok])
    (simp_all add: sample_maker_def sample_order_def less_qty_def qty_val_def zero_qty_def)

theorem rejected_modify_loses_order_witness:
  "LookupOrder 7 sample_book_maker = Some sample_maker \<and>
   (\<exists>ob'. ModifyOrder sample_book_maker 7 (Px 100) (Qty 3) = Some (rejected RejectPostOnlyCrossed, ob') \<and>
      LookupOrder 7 ob' = None)"
proof -
  have wf: "book_wf sample_book_maker" "book_indexed sample_book_maker"
    using sample_book_maker_ok by (simp_all add: book_ok_def)
  have l: "LookupOrder 7 sample_book_maker = Some sample_maker" by code_simp
  have x: "oType sample_maker = LIMIT" "oTIF sample_maker = PostOnly" "Qty 3 \<noteq> 0"
    "Px 100 \<noteq> oPrice sample_maker \<or> \<not> Qty 3 < oVolume sample_maker"
    by (simp_all add: sample_maker_def sample_order_def zero_qty_def)
  have w: "wouldCross (snd (Cancel 7 sample_book_maker)) (sample_maker\<lparr>oPrice := Px 100\<rparr>)" by code_simp
  show ?thesis
    using rejected_modify_loses_order [OF wf l x(3,4,1,2) w] l by blast
qed

section \<open>Stop-limit orders\<close>

text \<open>
  A stop-limit order is tested against the price zero when it arrives: a buy
  order with a non-negative trigger is therefore treated as a limit order at once,
  whatever the market, and a sell order with a positive trigger is always queued.
\<close>

theorem stop_limit_admission:
  assumes "oType t = STOP_LIMIT"
  shows "(oSide t = BUY \<and> 0 \<le> oTrigger t \<longrightarrow> MatchAndAddNewOrder ob t = handleLimitOrder ob (Normalize t)) \<and>
    (oSide t = SELL \<and> 0 < oTrigger t \<longrightarrow>
       MatchAndAddNewOrder ob t = Some (accepted [], AddConditionalOrder (Normalize t) ob))"
  using assms
  by (auto simp: MatchAndAddNewOrder_def handleStopLimitOrder_def IsTriggered_def Let_def px_qty_simps ZeroPx_def)

theorem stop_limit_admission_witness:
  "(\<exists>ob'. MatchAndAddNewOrder sample_book (sample_taker STOP_LIMIT GTC BUY 103 4) =
      Some (accepted [\<lparr>mSeq = 1, mBuyId = 9, mSellId = 5, mMatchId = 0, mPrice = Px 102, mVolume = Qty 2\<rparr>,
                      \<lparr>mSeq = 2, mBuyId = 9, mSellId = 6, mMatchId = 0, mPrice = Px 102, mVolume = Qty 2\<rparr>], ob'))"
proof -
  let ?t = "sample_taker STOP_LIMIT GTC BUY 103 4"
  let ?ms = "[\<lparr>mSeq = 1, mBuyId = 9, mSellId = 5, mMatchId = 0, mPrice = Px 102, mVolume = Qty 2\<rparr>,
              \<lparr>mSeq = 2, mBuyId = 9, mSellId = 6, mMatchId = 0, mPrice = Px 102, mVolume = Qty 2\<rparr>]"
  have run: "MatchAndAddNewOrder sample_book ?t = handleLimitOrder sample_book ?t"
    using stop_limit_admission [OF sample_taker_sel(2), where ob = sample_book] by (metis Normalize_sample_taker order_refl
        sample_taker_sel(4,7))
  have "ladder_fill ?t False True False ''BTC'' False 0 (Qty 4) (view False sample_book) =
    (map Trade ?ms, 0, 2, [(Px 102, [sample_order 6 9 SELL 102 3]), (Px 103, [sample_order 4 9 SELL 103 6])])"
    unfolding sample_book_view by code_simp
  then have m: "ref_match ?t False (ref_of sample_book) = (?ms, 0, snd (snd (ref_match ?t False (ref_of sample_book))))"
    by (simp add: ref_match_def ref_side_def sample_taker_stp sample_book_fields)
  have "fst (ref_limit ?t (ref_of sample_book)) = accepted ?ms"
    by (subst ref_limit_def, subst m) simp
  then show ?thesis
    using handleLimitOrder_ref [OF sample_book_wf(1), of ?t] by (auto simp: run runs_as_def)
qed

lemma ref_limit_conditional: "rConditional (snd (ref_limit t rb)) = rConditional rb"
  by (auto simp: ref_limit_def ref_match_def ref_add_def split: option.splits prod.splits if_splits)

lemma ref_promote_conditional: "rConditional (snd (ref_promote t lms rb)) = rConditional rb"
proof (induction lms arbitrary: rb)
  case (Cons m lms)
  show ?case using Cons.IH ref_limit_conditional [of t rb] by (simp add: case_prod_beta)
qed simp

lemma ref_promote_all_conditional: "rConditional (snd (ref_promote_all ts lms rb)) = rConditional rb"
proof (induction ts arbitrary: rb)
  case (Cons t ts)
  show ?case using Cons.IH ref_promote_conditional [of t lms rb] by (simp add: case_prod_beta)
qed simp

lemma promote_order_rests:
  assumes "oSide t = side_of d" and "oTIF t \<noteq> IOC" "oTIF t \<noteq> FOK" "oTIF t \<noteq> PostOnly" and "0 < oVolume t"
    and "\<forall>m \<in> set lms. IsTriggered t (mPrice m)"
  shows "book_wf ob \<Longrightarrow> \<forall>(p, os) \<in> set (view (\<not> d) ob). \<not> crosses t p \<Longrightarrow>
    \<exists>ob'. promote_order t lms ob = Some ([], ob') \<and> view (\<not> d) ob' = view (\<not> d) ob \<and>
      view d ob' = (lad_insert d t ^^ length lms) (view d ob)"
  using assms(6)
proof (induction lms arbitrary: ob)
  case (Cons m lms)
  from limit_rests [OF Cons.prems(1) assms(1) Cons.prems(2) assms(2,3)] assms(5) obtain ob1 where
    o: "handleLimitOrder ob t = Some (accepted [], ob1)" "book_wf ob1" "view (\<not> d) ob1 = view (\<not> d) ob"
      "view d ob1 = lad_insert d t (view d ob)" by auto
  have no: "\<forall>(p, os) \<in> set (view (\<not> d) ob1). \<not> crosses t p" using Cons.prems(2) o(3) by simp
  have tr: "\<forall>m \<in> set lms. IsTriggered t (mPrice m)" "IsTriggered t (mPrice m)" using Cons.prems(3) by simp_all
  obtain ob2 where "promote_order t lms ob1 = Some ([], ob2)" "view (\<not> d) ob2 = view (\<not> d) ob1"
    "view d ob2 = (lad_insert d t ^^ length lms) (view d ob1)"
    using Cons.IH [OF o(2) no tr(1)] by blast
  then show ?case using o tr(2) by (simp add: funpow_swap1)
qed simp

text \<open>
  C39. The queue of conditional orders only grows: promoting the triggered orders
  leaves every one of them in the queue, so that each is resubmitted by every later
  trade at a triggering price. In particular a queued order that does not cross is
  added once for each of the trades that trigger it.
\<close>

theorem conditional_orders_are_resubmitted:
  assumes "book_wf ob" and "HandleConditionalOrders ob lms = Some (ms, ob')"
  shows "obConditional ob' = obConditional ob \<and>
    (\<forall>x d. obConditional ob = [x] \<and> oSide x = side_of d \<and> oTIF x = GTC \<and> 0 < oVolume x \<and>
       (\<forall>m \<in> set lms. IsTriggered x (mPrice m)) \<and> (\<forall>(p, os) \<in> set (view (\<not> d) ob). \<not> crosses x p) \<longrightarrow>
       ms = [] \<and> view d ob' = (lad_insert d x ^^ length lms) (view d ob))"
proof (rule conjI)
  from HandleConditionalOrders_ref [OF assms(1), of lms] assms(2)
  have "ref_of ob' = snd (ref_conditional lms (ref_of ob))" by (simp add: runs_as_def)
  then have "rConditional (ref_of ob') = rConditional (ref_of ob)"
    by (simp only: ref_conditional_def ref_promote_all_conditional)
  then show "obConditional ob' = obConditional ob" by simp
  show "\<forall>x d. obConditional ob = [x] \<and> oSide x = side_of d \<and> oTIF x = GTC \<and> 0 < oVolume x \<and>
       (\<forall>m \<in> set lms. IsTriggered x (mPrice m)) \<and> (\<forall>(p, os) \<in> set (view (\<not> d) ob). \<not> crosses x p) \<longrightarrow>
       ms = [] \<and> view d ob' = (lad_insert d x ^^ length lms) (view d ob)"
  proof (intro allI impI)
    fix x d
    assume x: "obConditional ob = [x] \<and> oSide x = side_of d \<and> oTIF x = GTC \<and> 0 < oVolume x \<and>
      (\<forall>m \<in> set lms. IsTriggered x (mPrice m)) \<and> (\<forall>(p, os) \<in> set (view (\<not> d) ob). \<not> crosses x p)"
    then have "oSide x = side_of d" "oTIF x \<noteq> IOC" "oTIF x \<noteq> FOK" "oTIF x \<noteq> PostOnly" "0 < oVolume x"
      "\<forall>m \<in> set lms. IsTriggered x (mPrice m)" "\<forall>(p, os) \<in> set (view (\<not> d) ob). \<not> crosses x p" by simp_all
    note pr = promote_order_rests [OF this(1-6) assms(1) this(7)]
    then obtain ob1 where "promote_order x lms ob = Some ([], ob1)"
      "view d ob1 = (lad_insert d x ^^ length lms) (view d ob)" by blast
    then show "ms = [] \<and> view d ob' = (lad_insert d x ^^ length lms) (view d ob)"
      using assms(2) x by (simp add: HandleConditionalOrders_def)
  qed
qed

definition sample_stop :: order where
  "sample_stop = (sample_order 7 1 SELL 105 3)\<lparr>oType := STOP_LIMIT, oTrigger := Px 90\<rparr>"

definition sample_trade :: "int64 \<Rightarrow> match" where
  "sample_trade i = \<lparr>mSeq = i, mBuyId = 1, mSellId = 2, mMatchId = 0, mPrice = Px 100, mVolume = Qty 1\<rparr>"

theorem conditional_orders_are_resubmitted_witness:
  "\<exists>ob'. HandleConditionalOrders (AddConditionalOrder sample_stop sample_book) [sample_trade 1, sample_trade 2] =
     Some ([], ob') \<and> obConditional ob' = [sample_stop] \<and>
     view False ob' = view False sample_book @ [(Px 105, [sample_stop, sample_stop])]"
proof -
  let ?ob = "AddConditionalOrder sample_stop sample_book" and ?ms = "[sample_trade 1, sample_trade 2]"
  have wf: "book_wf ?ob" by (simp add: sample_book_wf)
  obtain ms ob' where run: "HandleConditionalOrders ?ob ?ms = Some (ms, ob')"
    using runs_asE [OF HandleConditionalOrders_ref [OF wf]] by blast
  have q: "obConditional ?ob = [sample_stop]" by code_simp
  have s: "oSide sample_stop = side_of False" "oTIF sample_stop = GTC" "0 < oVolume sample_stop"
    by (simp_all add: sample_stop_def sample_order_def less_qty_def qty_val_def zero_qty_def)
  have tr: "\<forall>m \<in> set ?ms. IsTriggered sample_stop (mPrice m)" by code_simp
  have no: "\<forall>(p, os) \<in> set (view (\<not> False) ?ob). \<not> crosses sample_stop p"
    by (simp add: sample_book_view crosses_def sample_stop_def sample_order_def px_qty_simps less_eq_px_def px_val_def)
  have v: "(lad_insert False sample_stop ^^ length ?ms) (view False ?ob) =
      view False sample_book @ [(Px 105, [sample_stop, sample_stop])]"
    by (simp add: sample_book_view numeral_2_eq_2 better_def) (simp add: sample_stop_def sample_order_def less_px_def px_val_def)
  note r = conditional_orders_are_resubmitted [OF wf run]
  have "obConditional ob' = [sample_stop]" using r q by simp
  moreover have "ms = [] \<and> view False ob' = (lad_insert False sample_stop ^^ length ?ms) (view False ?ob)"
    using r q s tr no by blast
  ultimately show ?thesis using run v by auto
qed

section \<open>Self-trade prevention against fill-or-kill\<close>

definition sample_own_fok :: order where
  "sample_own_fok = (sample_order 10 9 BUY 103 10)\<lparr>oTIF := FOK\<rparr>"

text \<open>
  The fill-or-kill pre-check counts the taker's own resting orders, which
  self-trade prevention then refuses to trade with: there is a book on which a
  fill-or-kill order for 10 is accepted, trades 2 and is dropped.
\<close>

theorem fill_or_kill_partial_under_stp:
  "\<exists>ob'. MatchAndAddNewOrder sample_book sample_own_fok =
     Some (accepted [\<lparr>mSeq = 1, mBuyId = 10, mSellId = 5, mMatchId = 0, mPrice = Px 102, mVolume = Qty 2\<rparr>], ob') \<and>
     oTIF sample_own_fok = FOK \<and> oVolume sample_own_fok = Qty 10 \<and> LookupOrder 10 ob' = None"
proof -
  let ?n = "Normalize sample_own_fok"
  let ?m = "\<lparr>mSeq = 1, mBuyId = 10, mSellId = 5, mMatchId = 0, mPrice = Px 102, mVolume = Qty 2\<rparr>"
  have t: "oType sample_own_fok = LIMIT" "oTIF ?n = FOK" "oSide ?n = BUY" "oSide ?n = side_of (\<not> False)" "oVolume ?n = Qty 10"
    by (simp_all add: sample_own_fok_def sample_order_def)
  have stp: "stp_on ?n = True"
    by (simp add: stp_on_def oSTP_Normalize) (simp add: sample_own_fok_def sample_order_def stp_defs)
  have c: "canFullyFill sample_book ?n = Some True"
  proof -
    have "can_fill ?n (Qty 10) (view False sample_book)" unfolding sample_book_view by code_simp
    then show ?thesis using canFullyFill_refines [OF sample_book_wf(1) t(4)] t(5) by simp
  qed
  have f: "ladder_fill ?n False True False ''BTC'' False 0 (Qty 10) (view False sample_book) =
    ([Trade ?m], 0, 1, [(Px 102, [sample_order 6 9 SELL 102 5]), (Px 103, [sample_order 4 9 SELL 103 6])])"
    unfolding sample_book_view by code_simp
  obtain ob' where m: "MatchTaker ?n False sample_book = Some ([?m], 0, ob')"
    using sample_match [OF t(4), of False, unfolded stp t(5), OF f] by auto
  have "LookupOrder 10 sample_book = None" by code_simp
  then have "LookupOrder 10 ob' = None"
    using rest_fresh [OF sample_book_wf(1) _ m] by (simp add: sample_own_fok_def sample_order_def)
  moreover have "MatchAndAddNewOrder sample_book sample_own_fok = Some (accepted [?m], ob')"
    using t(1,2) c m by (simp add: MatchAndAddNewOrder_limit handleLimitOrder_def)
  ultimately show ?thesis by (auto simp: sample_own_fok_def sample_order_def)
qed

section \<open>The Level-2 stream\<close>

text \<open>
  C21. A consumer of the Level-2 stream that has mirrored the book so far (it holds a
  snapshot \<open>base\<close> and overwrites it with every delta) still mirrors it after any order
  with a fresh ID, any cancel and any modify: overwriting the snapshot with all deltas
  gives the aggregate volume of every price of both sides.
\<close>

theorem depth_stream_mirrors_book:
  assumes "book_wf ob" and "book_indexed ob" and "l2_sound base ob"
  shows "(LookupOrder (oID t) ob = None \<longrightarrow>
      (\<exists>r ob'. MatchAndAddNewOrder ob t = Some (r, ob') \<and> mirror base (obDeltas ob') = depth_of ob')) \<and>
    mirror base (obDeltas (snd (CancelOrder ob i))) = depth_of (snd (CancelOrder ob i)) \<and>
    (\<exists>r ob'. ModifyOrder ob i p v = Some (r, ob') \<and> mirror base (obDeltas ob') = depth_of ob')"
proof -
  have I: "book_wf ob \<and> book_indexed ob \<and> l2_sound base ob" using assms by blast
  have s: "l2_sound base ob' \<Longrightarrow> mirror base (obDeltas ob') = depth_of ob'" for ob' by (simp add: l2_sound_def)
  show ?thesis
    using depth.new_order_keeps [OF I] depth.cancel_order_keeps [OF I] depth.modify_keeps [OF I TrueI] s by blast
qed

theorem depth_stream_mirrors_book_witness:
  "\<exists>r ob'. MatchAndAddNewOrder (SetL2Sink True sample_book) (sample_taker LIMIT GTC SELL 99 60) = Some (r, ob') \<and>
     mirror (depth_of sample_book) (obDeltas ob') = depth_of ob'"
proof -
  have "obDeltas sample_book = []" by code_simp
  note s = SetL2Sink_sound(1) [OF this]
  have "book_wf (SetL2Sink True sample_book)" "book_indexed (SetL2Sink True sample_book)"
    using sample_book_wf by (simp_all only: SetL2Sink_sound)
  from depth_stream_mirrors_book [OF this s, of "sample_taker LIMIT GTC SELL 99 60"] show ?thesis
    by (simp add: SetL2Sink_sound(3) sample_book_fresh)
qed

end
