(* ===== verification/Snapshot.thy ===== *)
theory Snapshot
  imports Reference FixedProps Samples
begin

text \<open>
  \<^verbatim>\<open>models/orderbook.go\<close>, the snapshot: \<^verbatim>\<open>ToProto\<close> walks both ladders and the
  conditional queue into a message, \<^verbatim>\<open>OrderbookFromProto\<close> rebuilds a book from a
  message by adding its orders one by one. The generated message types appear as
  records with the fields of \<^verbatim>\<open>orderbook.proto\<close>; the wire format is not modelled.
\<close>

record proto_level =
  plPrice :: string
  plOrders :: "proto_order list"

record proto_book =
  pbSymbol :: string
  pbSeq :: uint64
  pbBuy :: "proto_level list"
  pbSell :: "proto_level list"
  pbConditional :: "proto_order list"

section \<open>Definitions\<close>

text \<open>\<^verbatim>\<open>for n := level.Orders.Head(); n != nil; n = n.Next\<close>\<close>

partial_function (option) node_protos :: "node_store \<Rightarrow> naddr option \<Rightarrow> proto_order list option" where
  [code]: "node_protos s n =
     (case n of
        None \<Rightarrow> Some []
      | Some a \<Rightarrow> do {
          rest \<leftarrow> node_protos s (nNext (nsNode s a));
          Some (order_ToProto (node_order s a) # rest)
        })"

fun level_protos :: "orderbook \<Rightarrow> laddr list \<Rightarrow> proto_level list option" where
  "level_protos ob [] = Some []"
| "level_protos ob (la # b) =
     do {
       os \<leftarrow> node_protos (obNodes ob) (list_Head (lvOrders (obLevels ob la)));
       rest \<leftarrow> level_protos ob b;
       Some (\<lparr>plPrice = px_String (level_price ob la), plOrders = os\<rparr> # rest)
     }"

definition book_ToProto :: "orderbook \<Rightarrow> proto_book option" where
  "book_ToProto ob =
     do {
       buys \<leftarrow> level_protos ob (obBuy ob);
       sells \<leftarrow> level_protos ob (obSell ob);
       Some \<lparr>pbSymbol = obSymbol ob, pbSeq = obSeq ob, pbBuy = buys, pbSell = sells,
             pbConditional = map order_ToProto (obConditional ob)\<rparr>
     }"

text \<open>A panic of \<^verbatim>\<open>OrderFromProto\<close> ends the rebuild.\<close>

fun add_protos :: "proto_order list \<Rightarrow> orderbook \<Rightarrow> proto_panic + orderbook" where
  "add_protos [] ob = Inr ob"
| "add_protos (p # ps) ob =
     (case OrderFromProto p of Inl e \<Rightarrow> Inl e | Inr x \<Rightarrow> add_protos ps (snd (Add x ob)))"

fun add_levels :: "proto_level list \<Rightarrow> orderbook \<Rightarrow> proto_panic + orderbook" where
  "add_levels [] ob = Inr ob"
| "add_levels (l # ls) ob =
     (case add_protos (plOrders l) ob of Inl e \<Rightarrow> Inl e | Inr ob1 \<Rightarrow> add_levels ls ob1)"

fun queue_protos :: "proto_order list \<Rightarrow> orderbook \<Rightarrow> proto_panic + orderbook" where
  "queue_protos [] ob = Inr ob"
| "queue_protos (p # ps) ob =
     (case OrderFromProto p of
        Inl e \<Rightarrow> Inl e
      | Inr x \<Rightarrow> queue_protos ps (ob\<lparr>obConditional := obConditional ob @ [x]\<rparr>))"

definition OrderbookFromProto :: "proto_book \<Rightarrow> proto_panic + orderbook" where
  "OrderbookFromProto p =
     (case add_levels (pbBuy p) (SetSeq (pbSeq p) (NewOrderbook (pbSymbol p))) of
        Inl e \<Rightarrow> Inl e
      | Inr ob1 \<Rightarrow>
          (case add_levels (pbSell p) ob1 of
             Inl e \<Rightarrow> Inl e
           | Inr ob2 \<Rightarrow> queue_protos (pbConditional p) ob2))"

section \<open>Writing\<close>

lemma px_zero: "px_IsZero p \<longleftrightarrow> p = 0"
  by (simp add: px_qty_simps)

lemma px_text: "px_val p \<noteq> - (2 ^ 63) \<Longrightarrow> ParsePx (px_String p) = Inr p" "px_String p \<noteq> ''''"
  using parse_format [of "px_raw p"] formatFixed_nonempty [of "px_raw p"]
  by (simp_all add: ParsePx_def px_String_def px_val_def)

lemma qty_text: "qty_val v \<noteq> - (2 ^ 63) \<Longrightarrow> ParseQty (qty_String v) = Inr v"
  using parse_format [of "qty_raw v"] by (simp add: ParseQty_def qty_String_def qty_val_def)

lemma order_snapshot: "printable x \<Longrightarrow> OrderFromProto (order_ToProto x) = Inr x"
  by (simp add: printable_def OrderFromProto_def order_ToProto_def Let_def px_text qty_text px_zero)

lemma node_protos_chain:
  "chain (nsNode s) p xs None \<Longrightarrow> node_protos s (hd_or xs None) = Some (map order_ToProto (orders_of s xs))"
proof (induction xs arbitrary: p)
  case Nil
  then show ?case by (subst node_protos.simps) (simp add: orders_of_def)
next
  case (Cons x xs)
  then have "nNext (nsNode s x) = hd_or xs None" "chain (nsNode s) (Some x) xs None" by simp_all
  then show ?case using Cons.IH by (subst node_protos.simps) (simp add: orders_of_def)
qed

definition rung_proto :: "px \<times> order list \<Rightarrow> proto_level" where
  "rung_proto e = \<lparr>plPrice = px_String (fst e), plOrders = map order_ToProto (snd e)\<rparr>"

lemma level_protos_view:
  assumes wf: "wf_ghost ob G"
  shows "set b \<subseteq> levels_of ob \<Longrightarrow> level_protos ob b = Some (map (rung_proto \<circ> rung ob G) b)"
proof (induction b)
  case (Cons la b)
  have r: "level_rep la (obNodes ob) (obLevels ob la) (G la)"
    using Cons.prems by (intro wf_ghost_nodes(2) [OF wf]) simp
  have "node_protos (obNodes ob) (list_Head (lvOrders (obLevels ob la))) =
      Some (map order_ToProto (map (order_at ob) (G la)))"
    using r level_rep_Head [OF r] node_protos_chain [of "obNodes ob" None "G la"]
    by (simp add: level_rep_def list_rep_def orders_of_at)
  then show ?case using Cons by (simp add: rung_proto_def)
qed simp

lemma book_ToProto_view:
  assumes "book_wf ob"
  shows "book_ToProto ob = Some \<lparr>pbSymbol = obSymbol ob, pbSeq = obSeq ob,
    pbBuy = map rung_proto (view True ob), pbSell = map rung_proto (view False ob),
    pbConditional = map order_ToProto (obConditional ob)\<rparr>"
proof -
  have wg: "wf_ghost ob (level_nodes ob)" by (rule book_wf_ghost [OF assms])
  have sub: "set (obBuy ob) \<subseteq> levels_of ob" "set (obSell ob) \<subseteq> levels_of ob"
    by (auto simp: levels_of_def)
  show ?thesis
    unfolding book_ToProto_def level_protos_view [OF wg sub(1)] level_protos_view [OF wg sub(2)]
      view_ghost [OF wg] gview_def by (simp add: book_of_def)
qed
section \<open>Reading back\<close>

lemma add_protos_orders: "\<forall>x \<in> set xs. printable x \<Longrightarrow> add_protos (map order_ToProto xs) ob = Inr (AddAll xs ob)"
  by (induction xs arbitrary: ob) (simp_all add: order_snapshot)

lemma queue_protos_orders:
  "\<forall>x \<in> set xs. printable x \<Longrightarrow> queue_protos (map order_ToProto xs) ob = Inr (ob\<lparr>obConditional := obConditional ob @ xs\<rparr>)"
  by (induction xs arbitrary: ob) (simp_all add: order_snapshot)

lemma add_levels_orders:
  "\<forall>(p, os) \<in> set lad. \<forall>x \<in> set os. printable x \<Longrightarrow>
   add_levels (map rung_proto lad) ob = Inr (AddAll (concat (map snd lad)) ob)"
  by (induction lad arbitrary: ob) (auto simp: rung_proto_def add_protos_orders)

text \<open>Adding the orders of a ladder to an empty side, in order, rebuilds the ladder.\<close>

lemma insert_behind:
  assumes "\<forall>e \<in> set lad. better d (fst e) p" and "\<forall>x \<in> set os. oPrice x = p"
  shows "fold (lad_insert d) os (lad @ [(p, xs)]) = lad @ [(p, xs @ os)]"
  using assms(2)
proof (induction os arbitrary: xs)
  case (Cons x os)
  have "lad_insert d x (lad @ [(p, xs)]) = lad @ [(p, xs @ [x])]"
    using lad_insert_existing [of lad d x xs "[]"] assms(1) Cons.prems by simp
  then show ?case using Cons.IH [of "xs @ [x]"] Cons.prems by simp
qed simp

lemma refill_ladder:
  "sorted_wrt (better d) (map fst lad) \<Longrightarrow> \<forall>(p, os) \<in> set lad. os \<noteq> [] \<and> (\<forall>x \<in> set os. oPrice x = p) \<Longrightarrow>
   fold (lad_insert d) (concat (map snd lad)) [] = lad"
proof (induction lad rule: rev_induct)
  case (snoc e lad)
  obtain p x os where e: "e = (p, x # os)" using snoc.prems(2) by (cases e; cases "snd e") auto
  have b: "\<forall>e \<in> set lad. better d (fst e) p" and p: "oPrice x = p" "\<forall>x \<in> set os. oPrice x = p"
    using snoc.prems e by (auto simp: sorted_wrt_append)
  have "fold (lad_insert d) (concat (map snd lad)) [] = lad"
    using snoc by (simp add: sorted_wrt_append)
  moreover have "lad_insert d x lad = lad @ [(p, [x])]"
    using lad_insert_new [of lad d x "[]"] b p(1) by simp
  ultimately show ?case using insert_behind [OF b p(2), of "[x]"] by (simp add: e)
qed simp

lemma ref_of_ladder: "rLadder (ref_of ob) = (\<lambda>d. view d ob)"
  by (simp add: ref_of_def)

lemma AddAll_view:
  "book_wf ob \<Longrightarrow> \<not> obL2 ob \<Longrightarrow> \<forall>x \<in> set xs. oSide x = side_of d \<Longrightarrow>
   book_wf (AddAll xs ob) \<and>
   ref_of (AddAll xs ob) = (ref_of ob)\<lparr>rLadder := (rLadder (ref_of ob))(d := fold (lad_insert d) xs (view d ob))\<rparr>"
proof (induction xs arbitrary: ob)
  case Nil
  then show ?case by (simp add: ref_of_def fun_eq_iff)
next
  case (Cons x xs)
  let ?ob = "snd (Add x ob)"
  have r: "ref_of ?ob = (ref_of ob)\<lparr>rLadder := (rLadder (ref_of ob))(d := lad_insert d x (view d ob))\<rparr>"
    using Cons.prems by (simp add: Add_ref ref_add_def ref_publish_def)
  have "view d' ?ob = ((rLadder (ref_of ob))(d := lad_insert d x (view d ob))) d'" "obL2 ?ob = obL2 ob" for d'
    using arg_cong [OF r, of "\<lambda>rb. rLadder rb d'"] arg_cong [OF r, of rL2] by simp_all
  then show ?case
    using Cons.IH [of ?ob] Cons.prems Add_wf [OF Cons.prems(1), of x]
    by (simp add: r ref_of_ladder cong: if_cong)
qed

lemma AddAll_indexed:
  "book_wf ob \<Longrightarrow> book_indexed ob \<Longrightarrow> distinct (map oID xs) \<Longrightarrow>
   \<forall>x \<in> set xs. obIndex ob (oID x) = None \<and> (oSide x = BUY \<or> oSide x = SELL) \<Longrightarrow>
   book_indexed (AddAll xs ob)"
proof (induction xs arbitrary: ob)
  case (Cons x xs)
  have "oSide x = side_of True \<or> oSide x = side_of False" using Cons.prems(4) by simp
  then obtain d where side: "oSide x = side_of d" by blast
  have ix: "book_indexed (snd (Add x ob))"
    by (rule Add_refines [OF Cons.prems(1) side]) (use Cons.prems in simp)
  have "obIndex (snd (Add x ob)) (oID y) = None" if "y \<in> set xs" for y
  proof -
    have "oID x \<notin> oID ` set xs" using Cons.prems(3) by simp
    then have "oID y \<noteq> oID x" using that by (metis imageI)
    then show ?thesis using Add_index_other [OF Cons.prems(1)] Cons.prems(4) that by simp
  qed
  then show ?case using Cons.IH [OF Add_wf [OF Cons.prems(1)] ix] Cons.prems by simp
qed simp

text \<open>In an indexed book no two resting orders share an ID.\<close>

lemma nodes_distinct:
  assumes wf: "wf_ghost ob G" and "set b \<subseteq> levels_of ob" and "distinct b"
  shows "distinct (concat (map G b))"
  using assms(2,3)
proof (induction b)
  case (Cons la b)
  have r: "level_rep la (obNodes ob) (obLevels ob la) (G la)" and
    r': "\<And>lb. lb \<in> set b \<Longrightarrow> level_rep lb (obNodes ob) (obLevels ob lb) (G lb)"
    using Cons.prems(1) wf_ghost_nodes(2) [OF wf] by auto
  have "set (G la) \<inter> set (concat (map G b)) = {}"
    using r r' Cons.prems(2) by (fastforce simp: level_rep_def)
  then show ?case using Cons r by (simp add: level_rep_def list_rep_def)
qed simp

lemma resting_ids_distinct:
  assumes wf: "book_wf ob" and ix: "book_indexed ob"
  shows "distinct (map oID (resting ob))"
proof -
  let ?G = "level_nodes ob" and ?b = "book_of True ob @ book_of False ob"
  have wg: "wf_ghost ob ?G" by (rule book_wf_ghost [OF wf])
  have b: "set ?b \<subseteq> levels_of ob" "distinct ?b"
    using ladder_distinct(1) [OF wf_ghost_ladder [OF wg]] wf_disjoint [OF wg, of True]
    by (auto simp: levels_of_in)
  have r: "resting ob = map (order_at ob) (concat (map ?G ?b))"
    by (simp add: resting_def view_ghost [OF wg] gview_def map_concat comp_def)
  have "obIndex ob (oID (order_at ob n)) = Some n" if n: "n \<in> set (concat (map ?G ?b))" for n
  proof -
    obtain la where "la \<in> set ?b" "n \<in> set (?G la)" using n unfolding set_concat set_map by blast
    then show ?thesis using b(1) ix unfolding book_indexed_def by blast
  qed
  then have "inj_on (oID \<circ> order_at ob) (set (concat (map ?G ?b)))"
    by (intro inj_onI) (metis comp_apply option.inject)
  then show ?thesis
    using nodes_distinct [OF wg b] by (simp only: r map_map distinct_map)
qed

section \<open>The round trip\<close>

definition snapshot_printable :: "orderbook \<Rightarrow> bool" where
  "snapshot_printable ob \<longleftrightarrow> (\<forall>x \<in> set (resting ob) \<union> set (obConditional ob). printable x)"

lemma book_indexed_cong:
  assumes "levels_of ob' = levels_of ob" and "level_nodes ob' = level_nodes ob"
    and "order_at ob' = order_at ob" and "obIndex ob' = obIndex ob"
  shows "book_indexed ob' = book_indexed ob"
  by (simp add: book_indexed_def assms)

lemma SetSeq_new:
  "book_wf (SetSeq s (NewOrderbook sy))" "book_indexed (SetSeq s (NewOrderbook sy))"
  "\<not> obL2 (SetSeq s (NewOrderbook sy))" "view d (SetSeq s (NewOrderbook sy)) = []"
  "obIndex (SetSeq s (NewOrderbook sy)) i = None"
  "ref_of (SetSeq s (NewOrderbook sy)) =
     \<lparr>rLadder = (\<lambda>_. []), rConditional = [], rSeq = s, rSymbol = sy, rL2 = False, rDeltas = []\<rparr>"
proof -
  show v: "view d (SetSeq s (NewOrderbook sy)) = []" for d
    by (simp add: view_def book_of_def SetSeq_def NewOrderbook_def)
  have l: "levels_of (SetSeq s (NewOrderbook sy)) = {}"
    by (simp add: levels_of_def SetSeq_def NewOrderbook_def)
  have "wf_ghost (SetSeq s (NewOrderbook sy)) (\<lambda>_. [])"
    by (auto simp: wf_ghost_def ladder_inv_def ladder_ok_def index_ok_def SetSeq_def NewOrderbook_def
        book_of_def by_price_def)
  then show "book_wf (SetSeq s (NewOrderbook sy))" using l by (intro book_wfI) auto
  show "book_indexed (SetSeq s (NewOrderbook sy))" by (simp add: book_indexed_def l)
  show "\<not> obL2 (SetSeq s (NewOrderbook sy))" "obIndex (SetSeq s (NewOrderbook sy)) i = None"
    by (simp_all add: SetSeq_def NewOrderbook_def)
  show "ref_of (SetSeq s (NewOrderbook sy)) =
     \<lparr>rLadder = (\<lambda>_. []), rConditional = [], rSeq = s, rSymbol = sy, rL2 = False, rDeltas = []\<rparr>"
    by (rule ref_of_eqI) (simp_all add: v, simp_all add: SetSeq_def)
qed

lemma snapshot_conditional_keeps:
  "book_wf (ob\<lparr>obConditional := c\<rparr>) = book_wf ob" "book_indexed (ob\<lparr>obConditional := c\<rparr>) = book_indexed ob"
  "ref_of (ob\<lparr>obConditional := c\<rparr>) = (ref_of ob)\<lparr>rConditional := c\<rparr>"
  by (simp_all add: book_wf_def wf_ghost_def ladder_inv_def index_ok_def book_indexed_def ref_of_def view_def
      fun_eq_iff frame_simps)

lemma snapshot_restores:
  assumes wf: "book_wf ob" and pr: "snapshot_printable ob" and pb: "book_ToProto ob = Some pb"
  shows "\<exists>ob'. OrderbookFromProto pb = Inr ob' \<and> book_wf ob' \<and> (book_indexed ob \<longrightarrow> book_indexed ob') \<and>
    ref_of ob' = (ref_of ob)\<lparr>rL2 := False, rDeltas := []\<rparr>"
proof -
  let ?os = "\<lambda>d. concat (map snd (view d ob))"
  let ?ob0 = "SetSeq (obSeq ob) (NewOrderbook (obSymbol ob))"
  let ?ob1 = "AddAll (?os True) ?ob0" and ?ob2 = "AddAll (?os False) (AddAll (?os True) ?ob0)"
  let ?ob' = "?ob2\<lparr>obConditional := obConditional ob\<rparr>"
  have wg: "wf_ghost ob (level_nodes ob)" by (rule book_wf_ghost [OF wf])
  have side: "\<forall>x \<in> set (?os d). oSide x = side_of d" for d
    using view_order(2) [OF wg, of _ _ d] by fastforce
  have fill: "fold (lad_insert d) (?os d) [] = view d ob" for d
  proof (rule refill_ladder)
    show "sorted_wrt (better d) (map fst (view d ob))" by (rule view_sorted [OF wg])
    show "\<forall>(p, os) \<in> set (view d ob). os \<noteq> [] \<and> (\<forall>x \<in> set os. oPrice x = p)"
      using view_nonempty [OF wf] view_order(1) [OF wg] by blast
  qed
  note new = SetSeq_new [where s = "obSeq ob" and sy = "obSymbol ob"]
  note one = AddAll_view [OF new(1,3) side [of True], unfolded new(4,6)]
  have off: "\<not> obL2 ?ob1" using arg_cong [OF conjunct2 [OF one], of rL2] by simp
  have e1: "view False ?ob1 = []"
    using arg_cong [OF conjunct2 [OF one], of "\<lambda>rb. rLadder rb False"] by simp
  note two = AddAll_view [OF conjunct1 [OF one] off side [of False], unfolded e1 fill conjunct2 [OF one]]
  have "ref_of ?ob' = (ref_of ob)\<lparr>rL2 := False, rDeltas := []\<rparr>"
    by (simp add: snapshot_conditional_keeps two) (simp add: fill ref_of_def fun_eq_iff)
  moreover have "book_indexed ?ob'" if ix: "book_indexed ob"
  proof -
    have "distinct (map oID (?os True @ ?os False))"
      using resting_ids_distinct [OF wf ix] by (simp add: resting_def)
    moreover have "\<forall>x \<in> set (?os True @ ?os False). obIndex ?ob0 (oID x) = None \<and> (oSide x = BUY \<or> oSide x = SELL)"
      using side [of True] side [of False] new(5) by auto
    ultimately show ?thesis
      using AddAll_indexed [OF new(1,2), of "?os True @ ?os False"] by (simp add: snapshot_conditional_keeps)
  qed
  moreover have "OrderbookFromProto pb = Inr ?ob'"
  proof -
    have p: "\<forall>(p, os) \<in> set (view d ob). \<forall>x \<in> set os. printable x" "\<forall>x \<in> set (obConditional ob). printable x" for d
      using pr unfolding snapshot_printable_def Ball_def Un_iff resting_view case_prod_beta by auto
    have c: "obConditional ?ob2 = []"
      using arg_cong [OF conjunct2 [OF two], of rConditional] by simp
    show ?thesis
      using pb book_ToProto_view [OF wf] c
      by (auto simp: OrderbookFromProto_def add_levels_orders [OF p(1)] queue_protos_orders [OF p(2)])
  qed
  ultimately show ?thesis using two by (auto simp: snapshot_conditional_keeps)
qed

end
