(* ===== verification/SnapshotProps.thy ===== *)
theory SnapshotProps
  imports Snapshot
begin

text \<open>
  What a snapshot is worth: writing a book and reading it back restores everything
  the engine's behaviour depends on.
\<close>

definition agree :: "('a \<times> orderbook) option \<Rightarrow> ('a \<times> orderbook) option \<Rightarrow> bool" where
  "agree a b \<longleftrightarrow> (\<exists>r x y. a = Some (r, x) \<and> b = Some (r, y) \<and> ref_of x = ref_of y)"

lemma runs_as_agree: "runs_as a ref \<Longrightarrow> runs_as b ref \<Longrightarrow> agree a b"
  by (auto simp: runs_as_def agree_def)

lemma CancelOrder_ref:
  assumes "book_wf ob" and "book_indexed ob"
  shows "runs_as (Some (CancelOrder ob i)) (ref_cancel i (ref_of ob))"
  using Cancel_ref [OF assms, of i] Cancel_wf(1) [OF assms(1), of i]
  by (cases "Cancel i ob") (simp add: CancelOrder_def runs_as_Some)

text \<open>
  C26. Snapshot round trip: a well-formed book whose numbers all have a printed form is
  written without fault, and reading the message back gives a well-formed book (an
  indexed one when the book was) with the same ladders, queues and priorities, the same
  conditional orders, the same symbol and the same sequence counter, and no sink.
\<close>

theorem snapshot_roundtrip:
  assumes "book_wf ob" and "snapshot_printable ob"
  shows "\<exists>pb ob'. book_ToProto ob = Some pb \<and> OrderbookFromProto pb = Inr ob' \<and> book_wf ob' \<and>
    (book_indexed ob \<longrightarrow> book_indexed ob') \<and> (\<forall>d. view d ob' = view d ob) \<and> obSeq ob' = obSeq ob \<and>
    obConditional ob' = obConditional ob \<and> obSymbol ob' = obSymbol ob \<and> \<not> obL2 ob'"
proof -
  obtain pb where pb: "book_ToProto ob = Some pb" using book_ToProto_view [OF assms(1)] by blast
  from snapshot_restores [OF assms pb] obtain ob' where o: "OrderbookFromProto pb = Inr ob'" "book_wf ob'"
    "book_indexed ob \<longrightarrow> book_indexed ob'" and r: "ref_of ob' = (ref_of ob)\<lparr>rL2 := False, rDeltas := []\<rparr>"
    by blast
  have "view d ob' = view d ob" for d using arg_cong [OF r, of "\<lambda>rb. rLadder rb d"] by simp
  moreover have "obSeq ob' = obSeq ob" "obConditional ob' = obConditional ob" "obSymbol ob' = obSymbol ob" "\<not> obL2 ob'"
    using arg_cong [OF r, of rSeq] arg_cong [OF r, of rConditional] arg_cong [OF r, of rSymbol] arg_cong [OF r, of rL2]
    by simp_all
  ultimately show ?thesis using pb o by blast
qed

lemma sample_book_printable: "snapshot_printable sample_book"
proof -
  have "obConditional sample_book = []" by code_simp
  then show ?thesis
    by (simp add: snapshot_printable_def resting_def sample_book_view)
      (simp add: sample_order_def printable_def px_val_def qty_val_def zero_px_def)
qed

theorem snapshot_roundtrip_witness:
  "\<exists>pb ob'. book_ToProto sample_book = Some pb \<and> OrderbookFromProto pb = Inr ob' \<and>
     view True ob' = [(Px 100, [sample_order 1 7 BUY 100 5, sample_order 2 8 BUY 100 3]),
                      (Px 99, [sample_order 3 7 BUY 99 4])]"
  using snapshot_roundtrip [OF sample_book_wf(1) sample_book_printable] unfolding sample_book_view(1) [symmetric]
  by blast



lemma least_value: "sint (w :: int64) = - (2 ^ 63) \<Longrightarrow> w = word_of_int (- (2 ^ 63))"
proof -
  assume v: "sint w = - (2 ^ 63)"
  have "word_of_int (sint w) = w" by simp
  then show ?thesis unfolding v by (rule sym)
qed

lemma px_least: "px_val p = - (2 ^ 63) \<Longrightarrow> \<exists>e. ParsePx (px_String p) = Inl e"
  using least_value [of "px_raw p"] least_text by (simp add: px_val_def ParsePx_def px_String_def)

lemma qty_least: "qty_val v = - (2 ^ 63) \<Longrightarrow> \<exists>e. ParseQty (qty_String v) = Inl e"
  using least_value [of "qty_raw v"] least_text by (simp add: qty_val_def ParseQty_def qty_String_def)

lemma order_panics:
  assumes "\<not> printable x"
  shows "\<exists>e. OrderFromProto (order_ToProto x) = Inl e"
proof -
  have z: "px_val p = - (2 ^ 63) \<Longrightarrow> \<not> px_IsZero p" for p by (auto simp: px_zero px_val_def zero_px_def)
  consider "px_val (oPrice x) = - (2 ^ 63)"
    | "px_val (oPrice x) \<noteq> - (2 ^ 63)" "qty_val (oVolume x) = - (2 ^ 63)"
    | "px_val (oPrice x) \<noteq> - (2 ^ 63)" "qty_val (oVolume x) \<noteq> - (2 ^ 63)" "px_val (oTrigger x) = - (2 ^ 63)"
    using assms by (auto simp: printable_def)
  then show ?thesis
    by cases (use px_least qty_least px_text qty_text z in \<open>fastforce simp: OrderFromProto_def order_ToProto_def Let_def\<close>)+
qed

lemma add_protos_panics:
  "\<exists>x \<in> set xs. \<not> printable x \<Longrightarrow> \<exists>e. add_protos (map order_ToProto xs) ob = Inl e"
proof (induction xs arbitrary: ob)
  case (Cons a xs)
  show ?case
  proof (cases "printable a")
    case True
    then show ?thesis using Cons by (simp add: order_snapshot)
  next
    case False
    from order_panics [OF this] show ?thesis by auto
  qed
qed simp

lemma queue_protos_panics:
  "\<exists>x \<in> set xs. \<not> printable x \<Longrightarrow> \<exists>e. queue_protos (map order_ToProto xs) ob = Inl e"
proof (induction xs arbitrary: ob)
  case (Cons a xs)
  show ?case
  proof (cases "printable a")
    case True
    then show ?thesis using Cons by (simp add: order_snapshot)
  next
    case False
    from order_panics [OF this] show ?thesis by auto
  qed
qed simp

lemma add_levels_panics:
  "\<exists>(p, os) \<in> set lad. \<exists>x \<in> set os. \<not> printable x \<Longrightarrow> \<exists>e. add_levels (map rung_proto lad) ob = Inl e"
proof (induction lad arbitrary: ob)
  case (Cons a lad)
  obtain p os where a: "a = (p, os)" by (cases a)
  show ?case
  proof (cases "\<exists>x \<in> set os. \<not> printable x")
    case True
    from add_protos_panics [OF this, of ob] show ?thesis by (auto simp: a rung_proto_def)
  next
    case False
    then have "\<exists>(p, os) \<in> set lad. \<exists>x \<in> set os. \<not> printable x" using Cons.prems a by simp
    from Cons.IH [OF this] show ?thesis by (simp split: sum.split)
  qed
qed simp

text \<open>
  C37. A snapshot can be read back exactly when every price, volume and trigger in it has
  a printed form; one that holds the least \<^verbatim>\<open>int64\<close> makes the conversion panic, so that
  the market that loads it never starts.
\<close>

theorem snapshot_readable_iff:
  assumes "book_wf ob" and "book_ToProto ob = Some pb"
  shows "(\<exists>ob'. OrderbookFromProto pb = Inr ob') \<longleftrightarrow> snapshot_printable ob"
proof
  assume "snapshot_printable ob"
  then show "\<exists>ob'. OrderbookFromProto pb = Inr ob'" using snapshot_restores [OF assms(1) _ assms(2)] by blast
next
  assume r: "\<exists>ob'. OrderbookFromProto pb = Inr ob'"
  let ?ob0 = "SetSeq (obSeq ob) (NewOrderbook (obSymbol ob))"
  have pb: "pbBuy pb = map rung_proto (view True ob)" "pbSell pb = map rung_proto (view False ob)"
    "pbConditional pb = map order_ToProto (obConditional ob)" "pbSymbol pb = obSymbol ob" "pbSeq pb = obSeq ob"
    using book_ToProto_view [OF assms(1)] assms(2) by auto
  obtain ob1 where o1: "add_levels (map rung_proto (view True ob)) ?ob0 = Inr ob1"
    using r unfolding OrderbookFromProto_def pb by (cases "add_levels (map rung_proto (view True ob)) ?ob0") auto
  obtain ob2 where o2: "add_levels (map rung_proto (view False ob)) ob1 = Inr ob2"
    using r o1 unfolding OrderbookFromProto_def pb by (cases "add_levels (map rung_proto (view False ob)) ob1") auto
  have "\<exists>ob'. queue_protos (map order_ToProto (obConditional ob)) ob2 = Inr ob'"
    using r o1 o2 by (simp add: OrderbookFromProto_def pb)
  then have "\<forall>x \<in> set (obConditional ob). printable x" using queue_protos_panics [of "obConditional ob" ob2] by (metis Inl_Inr_False)
  moreover have "\<forall>(p, os) \<in> set (view True ob). \<forall>x \<in> set os. printable x"
    using add_levels_panics [of "view True ob" ?ob0] o1 by force
  moreover have "\<forall>(p, os) \<in> set (view False ob). \<forall>x \<in> set os. printable x"
    using add_levels_panics [of "view False ob" ob1] o2 by force
  ultimately show "snapshot_printable ob" by (auto simp: snapshot_printable_def resting_def)
qed

definition sample_unprintable :: orderbook where
  "sample_unprintable =
     AddConditionalOrder ((sample_order 8 1 BUY 100 1)\<lparr>oType := STOP_LIMIT, oTrigger := Px (word_of_int (- (2 ^ 63)))\<rparr>)
       (NewOrderbook ''BTC'')"

theorem snapshot_readable_iff_witness:
  "\<exists>pb. book_ToProto sample_unprintable = Some pb \<and> \<not> (\<exists>ob'. OrderbookFromProto pb = Inr ob')"
proof -
  have wf: "book_wf sample_unprintable"
    using NewOrderbook_ok by (simp add: sample_unprintable_def book_ok_def)
  obtain pb where pb: "book_ToProto sample_unprintable = Some pb" using book_ToProto_view [OF wf] by blast
  have "\<not> snapshot_printable sample_unprintable"
    by (simp add: snapshot_printable_def sample_unprintable_def AddConditionalOrder_def printable_def px_val_def)
  then show ?thesis using snapshot_readable_iff [OF wf pb] pb by blast
qed

end
