(* ===== verification/Journal.thy ===== *)
theory Journal
  imports Orders
begin

text \<open>
  \<^verbatim>\<open>journal/journal.go\<close>: the write-ahead log. The disk maps a file to its bytes; a
  file is named by its directory and its name in it, which is what joining a
  directory and a name without separators denotes. What the operating system makes
  of the calls of one \<^verbatim>\<open>Append\<close> (does the file open, how many bytes are written before
  an error, does the sync succeed) and the clock are inputs. The JSON codec
  (\<^verbatim>\<open>json.Marshal\<close> and \<^verbatim>\<open>json.Unmarshal\<close> of a record) is an argument of the operations
  that use it.
\<close>

section \<open>Records and errors\<close>

type_synonym record_kind = string

definition RecNew :: record_kind where "RecNew = ''new''"
definition RecCancel :: record_kind where "RecCancel = ''cancel''"
definition RecModify :: record_kind where "RecModify = ''modify''"

lemma record_kinds_distinct [simp]:
  "RecNew \<noteq> RecCancel" "RecCancel \<noteq> RecNew" "RecNew \<noteq> RecModify" "RecModify \<noteq> RecNew"
  "RecCancel \<noteq> RecModify" "RecModify \<noteq> RecCancel"
  by (simp_all add: RecNew_def RecCancel_def RecModify_def)

record journal_record =
  jrKind :: record_kind
  jrTimestamp :: int64
  jrOrder :: order
  jrOrderID :: int64
  jrNewPrice :: px
  jrNewVolume :: qty
  jrSymbol :: string

definition zero_record :: journal_record where
  "zero_record = \<lparr>jrKind = '''', jrTimestamp = 0, jrOrder = zero_order, jrOrderID = 0,
     jrNewPrice = 0, jrNewVolume = 0, jrSymbol = ''''\<rparr>"

type_synonym filename = "string \<times> string"
type_synonym disk = "filename \<Rightarrow> string option"

datatype journal_error =
    EmptyDir
  | MkdirFailed string
  | OpenFailed filename
  | WriteFailed string
  | FlushFailed string
  | FsyncFailed string
  | ErrCorruptRecord filename nat
  | ScanFailed filename
  | CallbackFailed

section \<open>The no-op journal\<close>

definition Discard_Append :: "string \<Rightarrow> journal_record \<Rightarrow> journal_error option" where
  "Discard_Append symbol r = None"

definition Discard_Replay :: "string \<Rightarrow> (journal_record \<Rightarrow> 's \<Rightarrow> (journal_error option \<times> 's) option)
    \<Rightarrow> 's \<Rightarrow> (journal_error option \<times> 's) option" where
  "Discard_Replay symbol f s = Some (None, s)"

section \<open>The file journal\<close>

text \<open>
  A \<^verbatim>\<open>bufio.Writer\<close> is flushed by every append, so all it keeps between calls is the
  error of an earlier write, which it returns from then on.
\<close>

record writer =
  wFile :: filename
  wFailed :: bool

record file_journal =
  fjDir :: string
  fjFsyncOnAppend :: bool
  fjFiles :: "string \<Rightarrow> writer option"

definition NewFileJournal :: "string \<Rightarrow> bool \<Rightarrow> bool \<Rightarrow> journal_error + file_journal" where
  "NewFileJournal dir fsyncOnAppend mkdirOk =
     (if dir = '''' then Inl EmptyDir
      else if \<not> mkdirOk then Inl (MkdirFailed dir)
      else Inr \<lparr>fjDir = dir, fjFsyncOnAppend = fsyncOnAppend, fjFiles = (\<lambda>_. None)\<rparr>)"

text \<open>\<^verbatim>\<open>strings.NewReplacer("/", "_", "\", "_", "..", "_")\<close>, from left to right.\<close>

fun sanitize :: "string \<Rightarrow> string" where
  "sanitize [] = []"
| "sanitize (c # cs) =
     (if c = CHR ''/'' \<or> c = CHR 0x5C then CHR ''_'' # sanitize cs
      else case cs of
        [] \<Rightarrow> [c]
      | d # ds \<Rightarrow> if c = CHR ''.'' \<and> d = CHR ''.'' then CHR ''_'' # sanitize ds else c # sanitize cs)"

definition pathFor :: "file_journal \<Rightarrow> string \<Rightarrow> filename" where
  "pathFor j symbol = (fjDir j, sanitize symbol @ ''.journal'')"

record io =
  ioOpen :: bool
  ioWritten :: "nat option"
  ioSync :: bool

abbreviation newline :: char where "newline \<equiv> CHR 0x0A"
abbreviation carriage_return :: char where "carriage_return \<equiv> CHR 0x0D"

text \<open>\<^verbatim>\<open>O_APPEND|O_CREATE|O_WRONLY\<close>: an opened file exists, and writes go to its end.\<close>

definition create_file :: "filename \<Rightarrow> disk \<Rightarrow> disk" where
  "create_file p dk = (case dk p of None \<Rightarrow> dk(p \<mapsto> []) | Some _ \<Rightarrow> dk)"

definition append_file :: "filename \<Rightarrow> string \<Rightarrow> disk \<Rightarrow> disk" where
  "append_file p bs dk = (case dk p of None \<Rightarrow> dk | Some old \<Rightarrow> dk(p \<mapsto> old @ bs))"

definition openLocked :: "io \<Rightarrow> string \<Rightarrow> file_journal \<times> disk \<Rightarrow> journal_error + writer \<times> file_journal \<times> disk" where
  "openLocked io symbol st =
     (case st of (j, dk) \<Rightarrow>
        (case fjFiles j symbol of
           Some w \<Rightarrow> Inr (w, j, dk)
         | None \<Rightarrow>
             if \<not> ioOpen io then Inl (OpenFailed (pathFor j symbol))
             else let p = pathFor j symbol; w = \<lparr>wFile = p, wFailed = False\<rparr>
                  in Inr (w, j\<lparr>fjFiles := (fjFiles j)(symbol \<mapsto> w)\<rparr>, create_file p dk)))"

text \<open>
  \<^verbatim>\<open>w.Write(line)\<close> then \<^verbatim>\<open>w.Flush()\<close>: a line that does not fit the 4096-byte buffer goes to the
  file from \<^verbatim>\<open>Write\<close>, a shorter one from \<^verbatim>\<open>Flush\<close>. The value says which of the two failed.
\<close>

definition write_line :: "io \<Rightarrow> string \<Rightarrow> string \<Rightarrow> writer \<Rightarrow> disk \<Rightarrow> journal_error option \<times> writer \<times> disk" where
  "write_line io symbol line w dk =
     (if wFailed w then (Some (WriteFailed symbol), w, dk)
      else case ioWritten io of
        None \<Rightarrow> (None, w, append_file (wFile w) line dk)
      | Some n \<Rightarrow> (Some (if 4096 < length line then WriteFailed symbol else FlushFailed symbol),
                    w\<lparr>wFailed := True\<rparr>, append_file (wFile w) (take n line) dk))"

definition stamp :: "int64 \<Rightarrow> journal_record \<Rightarrow> journal_record" where
  "stamp now r = (if jrTimestamp r = 0 then r\<lparr>jrTimestamp := now\<rparr> else r)"

definition Append :: "(journal_record \<Rightarrow> string) \<Rightarrow> int64 \<Rightarrow> io \<Rightarrow> string \<Rightarrow> journal_record
    \<Rightarrow> file_journal \<times> disk \<Rightarrow> journal_error option \<times> file_journal \<times> disk" where
  "Append marshal now io symbol r st =
     (let line = marshal (stamp now r) @ [newline] in
      case openLocked io symbol st of
        Inl e \<Rightarrow> (Some e, st)
      | Inr (w, j, dk) \<Rightarrow>
          (case write_line io symbol line w dk of
             (err, w1, dk1) \<Rightarrow>
               let j1 = j\<lparr>fjFiles := (fjFiles j)(symbol \<mapsto> w1)\<rparr> in
               (case err of
                  Some e \<Rightarrow> (Some e, j1, dk1)
                | None \<Rightarrow> if fjFsyncOnAppend j \<and> \<not> ioSync io then (Some (FsyncFailed symbol), j1, dk1)
                          else (None, j1, dk1))))"

section \<open>Replay\<close>

text \<open>
  \<^verbatim>\<open>bufio.Scanner\<close> with its default split: lines without their line break, a last line
  that has none counted when it is not empty, one trailing carriage return dropped. A
  line as long as the largest buffer ends the scan with an error.
\<close>

definition maxToken :: nat where "maxToken = 1024 * 1024"

definition dropCR :: "string \<Rightarrow> string" where
  "dropCR l = (if l \<noteq> [] \<and> last l = carriage_return then butlast l else l)"

fun split_lines :: "string \<Rightarrow> string \<Rightarrow> string list" where
  "split_lines cur [] = (if cur = [] then [] else [cur])"
| "split_lines cur (c # cs) =
     (if c = newline then cur # split_lines [] cs else split_lines (cur @ [c]) cs)"

fun replay_lines :: "(string \<Rightarrow> journal_record option) \<Rightarrow> filename
    \<Rightarrow> (journal_record \<Rightarrow> 's \<Rightarrow> (journal_error option \<times> 's) option)
    \<Rightarrow> nat \<Rightarrow> string list \<Rightarrow> 's \<Rightarrow> (journal_error option \<times> 's) option" where
  "replay_lines unmarshal p f n [] s = Some (None, s)"
| "replay_lines unmarshal p f n (l # ls) s =
     (if maxToken \<le> length l then Some (Some (ScanFailed p), s)
      else if dropCR l = [] then replay_lines unmarshal p f (n + 1) ls s
      else case unmarshal (dropCR l) of
        None \<Rightarrow> Some (Some (ErrCorruptRecord p (n + 1)), s)
      | Some r \<Rightarrow>
          (case f r s of
             None \<Rightarrow> None
           | Some (Some e, s1) \<Rightarrow> Some (Some e, s1)
           | Some (None, s1) \<Rightarrow> replay_lines unmarshal p f (n + 1) ls s1))"

text \<open>\<open>readable\<close> says whether opening an existing file for reading succeeds.\<close>

definition Replay :: "(string \<Rightarrow> journal_record option) \<Rightarrow> bool \<Rightarrow> string
    \<Rightarrow> (journal_record \<Rightarrow> 's \<Rightarrow> (journal_error option \<times> 's) option)
    \<Rightarrow> file_journal \<times> disk \<Rightarrow> 's \<Rightarrow> (journal_error option \<times> 's) option" where
  "Replay unmarshal readable symbol f st s =
     (case st of (j, dk) \<Rightarrow>
        let p = pathFor j symbol in
        (case dk p of
           None \<Rightarrow> Some (None, s)
         | Some content \<Rightarrow>
             if \<not> readable then Some (Some (OpenFailed p), s)
             else replay_lines unmarshal p f 0 (split_lines [] content) s))"

text \<open>
  \<^verbatim>\<open>Close\<close> forgets every handle. Its result is the first error met while the map is
  iterated, which Go leaves unordered; \<open>failed\<close> is what the flushes and closes reported,
  in the order of that iteration.
\<close>

definition journal_Close :: "journal_error option list \<Rightarrow> file_journal \<Rightarrow> journal_error option \<times> file_journal" where
  "journal_Close failed j =
     ((case filter (\<lambda>e. e \<noteq> None) failed of [] \<Rightarrow> None | e # _ \<Rightarrow> e), j\<lparr>fjFiles := (\<lambda>_. None)\<rparr>)"

end
