(* ===== verification/JournalSpec.thy ===== *)
theory JournalSpec
  imports Journal "HOL-Library.Sublist"
begin

text \<open>
  The interface between a market and its journal: an append that succeeds adds one
  entry to the log of its symbol, one that fails adds a prefix of it, and neither
  touches the log of a symbol kept in another file. The file journal and the no-op
  journal provide it. Below it, how the bytes of a log split into lines and what a
  replay makes of them.
\<close>

section \<open>The interface\<close>

locale append_log =
  fixes append :: "'env \<Rightarrow> string \<Rightarrow> journal_record \<Rightarrow> 'j \<Rightarrow> journal_error option \<times> 'j"
    and log :: "string \<Rightarrow> 'j \<Rightarrow> string" and entry :: "'env \<Rightarrow> journal_record \<Rightarrow> string"
    and apart :: "string \<Rightarrow> string \<Rightarrow> bool" and ready :: "'j \<Rightarrow> bool"
  assumes append_done: "ready j \<Longrightarrow> append e s r j = (None, j') \<Longrightarrow> log s j' = log s j @ entry e r"
    and append_failed: "ready j \<Longrightarrow> append e s r j = (Some err, j') \<Longrightarrow> \<exists>k. log s j' = log s j @ take k (entry e r)"
    and append_apart: "ready j \<Longrightarrow> apart s s' \<Longrightarrow> log s' (snd (append e s r j)) = log s' j"
    and append_ready: "ready j \<Longrightarrow> ready (snd (append e s r j))"
begin

text \<open>A series of appends to one symbol; the value is the errors, oldest first.\<close>

fun appends :: "string \<Rightarrow> ('env \<times> journal_record) list \<Rightarrow> 'j \<Rightarrow> journal_error option list \<times> 'j" where
  "appends s [] j = ([], j)"
| "appends s ((e, r) # ers) j =
     (case append e s r j of (err, j1) \<Rightarrow> (case appends s ers j1 of (errs, j2) \<Rightarrow> (err # errs, j2)))"

lemma append_prefix: "ready j \<Longrightarrow> prefix (log s j) (log s (snd (append e s r j)))"
  using append_done [of j e s r] append_failed [of j e s r]
  by (cases "append e s r j"; cases "fst (append e s r j)") force+

lemma appends_ready: "ready j \<Longrightarrow> ready (snd (appends s ers j))"
proof (induction ers arbitrary: j)
  case (Cons er ers)
  obtain e r where er: "er = (e, r)" by fastforce
  show ?case using Cons.IH [OF append_ready [OF Cons.prems, of e s r]] by (simp add: er case_prod_beta)
qed simp

lemma appends_done:
  "ready j \<Longrightarrow> \<forall>err \<in> set (fst (appends s ers j)). err = None \<Longrightarrow>
   log s (snd (appends s ers j)) = log s j @ concat (map (\<lambda>(e, r). entry e r) ers)"
proof (induction ers arbitrary: j)
  case (Cons er ers)
  obtain e r where er: "er = (e, r)" by fastforce
  obtain err j1 where a: "append e s r j = (err, j1)" by fastforce
  have ready: "ready j1" using append_ready [OF Cons.prems(1), of e s r] a by simp
  have none: "err = None" "\<forall>err \<in> set (fst (appends s ers j1)). err = None"
    using Cons.prems(2) a by (simp_all add: er case_prod_beta)
  show ?case
    using append_done [OF Cons.prems(1)] Cons.IH [OF ready none(2)] a none(1) by (simp add: er case_prod_beta)
qed simp

lemma appends_apart: "ready j \<Longrightarrow> apart s s' \<Longrightarrow> log s' (snd (appends s ers j)) = log s' j"
proof (induction ers arbitrary: j)
  case (Cons er ers)
  obtain e r where er: "er = (e, r)" by fastforce
  show ?case
    using Cons.IH [OF append_ready [OF Cons.prems(1), of e s r] Cons.prems(2)] append_apart [OF Cons.prems, of e r]
    by (simp add: er case_prod_beta)
qed simp

end

section \<open>The file journal provides it\<close>

definition journal_log :: "string \<Rightarrow> file_journal \<times> disk \<Rightarrow> string" where
  "journal_log symbol st = (case snd st (pathFor (fst st) symbol) of None \<Rightarrow> [] | Some content \<Rightarrow> content)"

definition journal_entry :: "(journal_record \<Rightarrow> string) \<Rightarrow> int64 \<times> io \<Rightarrow> journal_record \<Rightarrow> string" where
  "journal_entry marshal env r = marshal (stamp (fst env) r) @ [newline]"

definition file_append :: "(journal_record \<Rightarrow> string) \<Rightarrow> int64 \<times> io \<Rightarrow> string \<Rightarrow> journal_record
    \<Rightarrow> file_journal \<times> disk \<Rightarrow> journal_error option \<times> file_journal \<times> disk" where
  "file_append marshal env symbol r st = Append marshal (fst env) (snd env) symbol r st"

text \<open>Every open handle is on its symbol's file, which exists.\<close>

definition handles_ok :: "file_journal \<times> disk \<Rightarrow> bool" where
  "handles_ok st \<longleftrightarrow> (\<forall>s w. fjFiles (fst st) s = Some w \<longrightarrow>
     wFile w = pathFor (fst st) s \<and> snd st (wFile w) \<noteq> None)"

definition other_file :: "string \<Rightarrow> string \<Rightarrow> bool" where
  "other_file s s' \<longleftrightarrow> sanitize s \<noteq> sanitize s'"

lemma pathFor_eq [simp]: "pathFor j s = pathFor j s' \<longleftrightarrow> sanitize s = sanitize s'"
  by (simp add: pathFor_def)

lemma pathFor_files [simp]: "pathFor (j\<lparr>fjFiles := x\<rparr>) s = pathFor j s"
  by (simp add: pathFor_def)

lemma append_file_simps [simp]:
  "dk p = Some old \<Longrightarrow> append_file p bs dk = dk(p \<mapsto> old @ bs)"
  by (simp add: append_file_def)

lemma openLocked_cases:
  assumes "handles_ok (j, dk)"
  obtains (fails) "openLocked io s (j, dk) = Inl (OpenFailed (pathFor j s))" "fjFiles j s = None"
    | (opens) w j1 dk1 old where "openLocked io s (j, dk) = Inr (w, j1, dk1)" "wFile w = pathFor j s"
      "dk1 (pathFor j s) = Some old" "old = journal_log s (j, dk)" "\<And>p. p \<noteq> pathFor j s \<Longrightarrow> dk1 p = dk p"
      "\<And>p. dk p \<noteq> None \<Longrightarrow> dk1 p \<noteq> None" "pathFor j1 = pathFor j" "fjFsyncOnAppend j1 = fjFsyncOnAppend j"
      "fjFiles j1 = (fjFiles j)(s \<mapsto> w)"
proof (cases "fjFiles j s")
  case (Some w)
  then have w: "wFile w = pathFor j s" "dk (pathFor j s) \<noteq> None" using assms by (fastforce simp: handles_ok_def)+
  then obtain old where "dk (pathFor j s) = Some old" by blast
  then show thesis
    using Some w by (intro opens) (auto simp: openLocked_def journal_log_def fun_upd_idem)
next
  case None
  show thesis
  proof (cases "ioOpen io")
    case False
    then show thesis using None by (intro fails) (simp_all add: openLocked_def)
  next
    case True
    show thesis
    proof (rule opens)
      show "openLocked io s (j, dk) = Inr (\<lparr>wFile = pathFor j s, wFailed = False\<rparr>,
          j\<lparr>fjFiles := (fjFiles j)(s \<mapsto> \<lparr>wFile = pathFor j s, wFailed = False\<rparr>)\<rparr>, create_file (pathFor j s) dk)"
        using None True by (simp add: openLocked_def Let_def)
      show "create_file (pathFor j s) dk (pathFor j s) = Some (journal_log s (j, dk))"
        by (simp add: create_file_def journal_log_def split: option.split)
    qed (auto simp: create_file_def pathFor_def fun_eq_iff split: option.splits)
  qed
qed

lemma Append_cases:
  assumes ok: "handles_ok (j, dk)" and run: "Append marshal now io s r (j, dk) = (err, st')"
  shows "handles_ok st' \<and> pathFor (fst st') = pathFor j \<and>
    (\<exists>k. journal_log s st' = journal_log s (j, dk) @ take k (journal_entry marshal (now, io) r)) \<and>
    (err = None \<longrightarrow> journal_log s st' = journal_log s (j, dk) @ journal_entry marshal (now, io) r) \<and>
    (\<forall>s'. other_file s s' \<longrightarrow> journal_log s' st' = journal_log s' (j, dk))"
  using ok
proof (cases rule: openLocked_cases [of j dk io s])
  case fails
  then have "st' = (j, dk)" "err \<noteq> None" using run by (simp_all add: Append_def Let_def) (metis option.distinct(1) prod.inject)+
  then show ?thesis using ok by (auto intro: exI [of _ 0])
next
  case (opens w j1 dk1 old)
  let ?line = "journal_entry marshal (now, io) r"
  obtain e w1 dk2 where wl: "write_line io s ?line w dk1 = (e, w1, dk2)" by (metis prod_cases3)
  have st: "st' = (j1\<lparr>fjFiles := (fjFiles j1)(s \<mapsto> w1)\<rparr>, dk2)" and err: "err = None \<Longrightarrow> e = None"
    using run opens(1) wl
    by (auto simp: Append_def journal_entry_def Let_def split: option.splits if_splits)
  obtain k where w1: "wFile w1 = pathFor j s" and k: "dk2 = dk1(pathFor j s \<mapsto> old @ take k ?line)"
    and full: "e = None \<Longrightarrow> take k ?line = ?line"
  proof -
    consider "wFailed w" | "\<not> wFailed w" "ioWritten io = None" | n where "\<not> wFailed w" "ioWritten io = Some n"
      by blast
    then show thesis
    proof cases
      case 1
      then have e: "e = Some (WriteFailed s)" "w1 = w" "dk2 = dk1" using wl by (simp_all add: write_line_def)
      show thesis by (rule that [of 0]) (use e opens in \<open>simp_all add: fun_upd_idem\<close>)
    next
      case 2
      then have e: "e = None" "w1 = w" "dk2 = append_file (wFile w) ?line dk1" using wl by (auto simp: write_line_def)
      show thesis by (rule that [of "length ?line"]) (use e opens in simp_all)
    next
      case (3 n)
      then have e: "e \<noteq> None" "w1 = w\<lparr>wFailed := True\<rparr>" "dk2 = append_file (wFile w) (take n ?line) dk1"
        using wl by (auto simp: write_line_def)
      show thesis by (rule that [of n]) (use e opens in simp_all)
    qed
  qed
  have "handles_ok st'"
    using ok opens(5-7,9) w1 unfolding st k handles_ok_def by (auto simp: opens(9)) (metis option.distinct(1))+
  moreover have "journal_log s st' = old @ take k ?line"
    unfolding st k journal_log_def by (simp add: opens(7))
  moreover have "journal_log s' st' = journal_log s' (j, dk)" if "other_file s s'" for s'
    using that opens(5) unfolding st k journal_log_def other_file_def by (simp add: opens(7))
  ultimately show ?thesis using full err opens(4,7) unfolding st by auto
qed

interpretation file_log: append_log "file_append marshal" journal_log "journal_entry marshal" other_file handles_ok
  for marshal
proof unfold_locales
  fix st e s r st'
  assume ok: "handles_ok st" and run: "file_append marshal e s r st = (None, st')"
  then show "journal_log s st' = journal_log s st @ journal_entry marshal e r"
    using Append_cases [of "fst st" "snd st" marshal "fst e" "snd e" s r None st'] by (simp add: file_append_def)
next
  fix st e s r err st'
  assume ok: "handles_ok st" and run: "file_append marshal e s r st = (Some err, st')"
  then show "\<exists>k. journal_log s st' = journal_log s st @ take k (journal_entry marshal e r)"
    using Append_cases [of "fst st" "snd st" marshal "fst e" "snd e" s r "Some err" st'] by (simp add: file_append_def)
next
  fix st s s' e r
  assume ok: "handles_ok st" and "other_file s s'"
  then show "journal_log s' (snd (file_append marshal e s r st)) = journal_log s' st"
    using Append_cases [of "fst st" "snd st", OF _ surjective_pairing] by (simp add: file_append_def)
next
  fix st e s r
  assume ok: "handles_ok st"
  then show "handles_ok (snd (file_append marshal e s r st))"
    using Append_cases [of "fst st" "snd st", OF _ surjective_pairing] by (simp add: file_append_def)
qed

text \<open>An append to a journal without failed writers, whose system calls all succeed, succeeds.\<close>

definition io_ok :: "io \<Rightarrow> bool" where
  "io_ok io \<longleftrightarrow> ioOpen io \<and> ioWritten io = None \<and> ioSync io"

definition no_failed :: "file_journal \<times> disk \<Rightarrow> bool" where
  "no_failed st \<longleftrightarrow> (\<forall>s w. fjFiles (fst st) s = Some w \<longrightarrow> \<not> wFailed w)"

text \<open>The no-op journal keeps nothing, and its entries are empty.\<close>

definition discard_append :: "unit \<Rightarrow> string \<Rightarrow> journal_record \<Rightarrow> unit \<Rightarrow> journal_error option \<times> unit" where
  "discard_append env symbol r j = (Discard_Append symbol r, j)"

interpretation discard_log: append_log discard_append "\<lambda>_ _. []" "\<lambda>_ _. []" "\<lambda>_ _. True" "\<lambda>_. True"
  by unfold_locales (simp_all add: discard_append_def Discard_Append_def)

section \<open>From bytes to records\<close>

lemma split_lines_cur:
  "newline \<notin> set l \<Longrightarrow> split_lines cur (l @ newline # cs) = (cur @ l) # split_lines [] cs"
  "newline \<notin> set l \<Longrightarrow> split_lines cur l = (if cur @ l = [] then [] else [cur @ l])"
  by (induction l arbitrary: cur) auto

lemma split_lines_concat:
  "\<forall>l \<in> set ls. newline \<notin> set l \<Longrightarrow> newline \<notin> set t \<Longrightarrow>
   split_lines [] (concat (map (\<lambda>l. l @ [newline]) ls) @ t) = ls @ (if t = [] then [] else [t])"
  by (induction ls) (simp_all add: split_lines_cur)

text \<open>A line that the replay reads as the record \<open>r\<close>.\<close>

definition line_reads :: "(string \<Rightarrow> journal_record option) \<Rightarrow> string \<Rightarrow> journal_record \<Rightarrow> bool" where
  "line_reads unmarshal l r \<longleftrightarrow>
     newline \<notin> set l \<and> dropCR l \<noteq> [] \<and> length l < maxToken \<and> unmarshal (dropCR l) = Some r"

text \<open>The callback run over a list of records, stopping at its first error.\<close>

fun feed :: "(journal_record \<Rightarrow> 's \<Rightarrow> (journal_error option \<times> 's) option) \<Rightarrow> journal_record list \<Rightarrow> 's
    \<Rightarrow> (journal_error option \<times> 's) option" where
  "feed f [] s = Some (None, s)"
| "feed f (r # rs) s =
     (case f r s of
        None \<Rightarrow> None
      | Some (Some e, s1) \<Rightarrow> Some (Some e, s1)
      | Some (None, s1) \<Rightarrow> feed f rs s1)"

lemma replay_lines_feed:
  "list_all2 (line_reads unmarshal) ls rs \<Longrightarrow>
   replay_lines unmarshal p f n (ls @ rest) s =
     (case feed f rs s of
        Some (None, s1) \<Rightarrow> replay_lines unmarshal p f (n + length rs) rest s1
      | other \<Rightarrow> other)"
proof (induction ls rs arbitrary: n s rule: list_all2_induct)
  case (Cons l ls r rs)
  then have l: "\<not> maxToken \<le> length l" "dropCR l \<noteq> []" "unmarshal (dropCR l) = Some r"
    by (auto simp: line_reads_def)
  show ?case
  proof (cases "f r s")
    case (Some es)
    obtain e s1 where "es = (e, s1)" by fastforce
    have len: "n + 1 + length rs = n + length (r # rs)" by simp
    show ?thesis
      using Cons.IH [of "n + 1" s1, unfolded len] l Some \<open>es = (e, s1)\<close> by (cases e) simp_all
  qed (use l in simp)
qed simp

lemma line_reads_newline:
  "list_all2 (line_reads unmarshal) ls rs \<Longrightarrow> \<forall>l \<in> set ls. newline \<notin> set l"
  by (induction ls rs rule: list_all2_induct) (auto simp: line_reads_def)

text \<open>A log of complete lines, perhaps with a torn one behind them.\<close>

definition log_holds :: "(string \<Rightarrow> journal_record option) \<Rightarrow> string \<Rightarrow> journal_record list \<Rightarrow> string \<Rightarrow> bool" where
  "log_holds unmarshal content rs torn \<longleftrightarrow> newline \<notin> set torn \<and>
     (\<exists>ls. content = concat (map (\<lambda>l. l @ [newline]) ls) @ torn \<and> list_all2 (line_reads unmarshal) ls rs)"

lemma log_holds_empty: "log_holds unmarshal [] [] []"
  by (auto simp: log_holds_def intro: exI [of _ "[]"])

lemma log_holds_append:
  assumes "log_holds unmarshal content rs []" and "list_all2 (line_reads unmarshal) ls rs'"
  shows "log_holds unmarshal (content @ concat (map (\<lambda>l. l @ [newline]) ls)) (rs @ rs') []"
proof -
  obtain ls0 where "content = concat (map (\<lambda>l. l @ [newline]) ls0)" "list_all2 (line_reads unmarshal) ls0 rs"
    using assms(1) by (auto simp: log_holds_def)
  then show ?thesis
    using assms(2) unfolding log_holds_def by (intro conjI exI [of _ "ls0 @ ls"]) (simp_all add: list_all2_appendI)
qed

lemma Replay_log:
  assumes "log_holds unmarshal (journal_log symbol (j, dk)) rs torn"
  shows "Replay unmarshal True symbol f (j, dk) s =
    (case feed f rs s of
       Some (None, s1) \<Rightarrow>
         replay_lines unmarshal (pathFor j symbol) f (length rs) (if torn = [] then [] else [torn]) s1
     | other \<Rightarrow> other)"
proof -
  obtain ls where ls: "journal_log symbol (j, dk) = concat (map (\<lambda>l. l @ [newline]) ls) @ torn"
    "list_all2 (line_reads unmarshal) ls rs" and t: "newline \<notin> set torn"
    using assms by (auto simp: log_holds_def)
  show ?thesis
  proof (cases "dk (pathFor j symbol)")
    case None
    then have "ls = []" "torn = []" using ls(1) by (simp_all add: journal_log_def)
    then have "rs = []" using ls(2) by simp
    then show ?thesis using None \<open>torn = []\<close> by (simp add: Replay_def Let_def)
  next
    case (Some content)
    then have "split_lines [] content = ls @ (if torn = [] then [] else [torn])"
      using ls(1) split_lines_concat [OF line_reads_newline [OF ls(2)] t] by (simp add: journal_log_def)
    then show ?thesis
      using Some replay_lines_feed [OF ls(2), of "pathFor j symbol" f 0 "if torn = [] then [] else [torn]" s]
      by (simp only: Replay_def prod.case Let_def option.case simp_thms if_False add_0)
  qed
qed

text \<open>Appends that all succeed make the log hold their records.\<close>

lemma appends_hold:
  assumes "handles_ok st" and "log_holds unmarshal (journal_log s st) rs []"
    and "\<forall>err \<in> set (fst (file_log.appends marshal s ers st)). err = None"
    and "\<forall>(e, r) \<in> set ers. line_reads unmarshal (marshal (stamp (fst e) r)) (stamp (fst e) r)"
  shows "log_holds unmarshal (journal_log s (snd (file_log.appends marshal s ers st)))
    (rs @ map (\<lambda>(e, r). stamp (fst e) r) ers) []"
proof -
  let ?ls = "map (\<lambda>(e, r). marshal (stamp (fst e) r)) ers"
  have "concat (map (\<lambda>(e, r). journal_entry marshal e r) ers) = concat (map (\<lambda>l. l @ [newline]) ?ls)"
    by (induction ers) (auto simp: journal_entry_def)
  moreover have "list_all2 (line_reads unmarshal) ?ls (map (\<lambda>(e, r). stamp (fst e) r) ers)"
    using assms(4) by (induction ers) auto
  ultimately show ?thesis
    unfolding file_log.appends_done [OF assms(1,3)] by (simp only: log_holds_append [OF assms(2)])
qed

end
