(* ===== verification/Json.thy ===== *)
theory Json
  imports Journal FixedProps "HOL-Library.Monad_Syntax"
begin

text \<open>
  The JSON form of orders and journal records: what \<^verbatim>\<open>encoding/json\<close> makes of the struct
  tags of \<^verbatim>\<open>models.Order\<close> and \<^verbatim>\<open>journal.Record\<close>, as printer and parser on byte strings.
  Strings are escaped and read back byte by byte; bytes from 0x80 on are copied, which is
  what the library does for valid UTF-8 other than U+2028 and U+2029. Field names are
  matched without regard to the case of ASCII letters. Its limit of 10000 nested values
  is not modelled.
\<close>

section \<open>Strings\<close>

abbreviation quote :: char where "quote \<equiv> CHR 0x22"
abbreviation backslash :: char where "backslash \<equiv> CHR 0x5C"

definition hex_digit :: "nat \<Rightarrow> char" where
  "hex_digit n = (if n < 10 then char_of (48 + n) else char_of (87 + n))"

definition hex_val :: "char \<Rightarrow> nat option" where
  "hex_val c = (let n = (of_char c :: nat) in
     if 48 \<le> n \<and> n \<le> 57 then Some (n - 48)
     else if 97 \<le> n \<and> n \<le> 102 then Some (n - 87)
     else if 65 \<le> n \<and> n \<le> 70 then Some (n - 55) else None)"

definition json_escape :: "char \<Rightarrow> string" where
  "json_escape c =
     (if c = quote \<or> c = backslash then [backslash, c]
      else if c = CHR 0x08 then [backslash, CHR ''b'']
      else if c = CHR 0x0C then [backslash, CHR ''f'']
      else if c = CHR 0x0A then [backslash, CHR ''n'']
      else if c = CHR 0x0D then [backslash, CHR ''r'']
      else if c = CHR 0x09 then [backslash, CHR ''t'']
      else let n = of_char c in
        if n < 32 \<or> c \<in> {CHR ''<'', CHR ''>'', CHR ''&''}
        then [backslash, CHR ''u'', CHR ''0'', CHR ''0'', hex_digit (n div 16), hex_digit (n mod 16)]
        else [c])"

definition escape_text :: "string \<Rightarrow> string" where
  "escape_text s = concat (map json_escape s)"

definition json_string :: "string \<Rightarrow> string" where
  "json_string s = quote # escape_text s @ [quote]"

definition utf8 :: "nat \<Rightarrow> string" where
  "utf8 n =
     (if n < 0x80 then [char_of n]
      else if n < 0x800 then [char_of (0xC0 + n div 64), char_of (0x80 + n mod 64)]
      else if n < 0x10000
      then [char_of (0xE0 + n div 4096), char_of (0x80 + n div 64 mod 64), char_of (0x80 + n mod 64)]
      else [char_of (0xF0 + n div 262144), char_of (0x80 + n div 4096 mod 64),
            char_of (0x80 + n div 64 mod 64), char_of (0x80 + n mod 64)])"

text \<open>A leading \<open>\u\<close> escape and what follows it.\<close>

definition unicode_escape :: "string \<Rightarrow> (nat \<times> string) option" where
  "unicode_escape s =
     (case s of
        b # u # h1 # h2 # h3 # h4 # r \<Rightarrow>
          if b = backslash \<and> u = CHR ''u'' then do {
            n1 \<leftarrow> hex_val h1; n2 \<leftarrow> hex_val h2; n3 \<leftarrow> hex_val h3; n4 \<leftarrow> hex_val h4;
            Some (((n1 * 16 + n2) * 16 + n3) * 16 + n4, r)
          } else None
      | _ \<Rightarrow> None)"

definition simple_escape :: "char \<Rightarrow> char option" where
  "simple_escape d =
     (if d \<in> {quote, backslash, CHR ''/''} then Some d
      else if d = CHR ''b'' then Some (CHR 0x08) else if d = CHR ''f'' then Some (CHR 0x0C)
      else if d = CHR ''n'' then Some (CHR 0x0A) else if d = CHR ''r'' then Some (CHR 0x0D)
      else if d = CHR ''t'' then Some (CHR 0x09) else None)"

lemma unicode_escape_length: "unicode_escape s = Some (n, r) \<Longrightarrow> length r < length s"
  by (auto simp: unicode_escape_def bind_eq_Some_conv split: list.splits if_splits)

text \<open>
  What a scanned string literal denotes; half a surrogate pair reads as the
  replacement character U+FFFD.
\<close>

function unescape :: "string \<Rightarrow> string" where
  "unescape s =
     (case s of
        [] \<Rightarrow> []
      | c # cs \<Rightarrow>
          if c \<noteq> backslash then c # unescape cs
          else case unicode_escape s of
            Some (u, r) \<Rightarrow>
              if 0xD800 \<le> u \<and> u < 0xE000 then
                (case unicode_escape r of
                   Some (v, r2) \<Rightarrow>
                     if u < 0xDC00 \<and> 0xDC00 \<le> v \<and> v < 0xE000
                     then utf8 (0x10000 + (u - 0xD800) * 1024 + (v - 0xDC00)) @ unescape r2
                     else utf8 0xFFFD @ unescape r
                 | None \<Rightarrow> utf8 0xFFFD @ unescape r)
              else utf8 u @ unescape r
          | None \<Rightarrow>
              (case cs of
                 [] \<Rightarrow> []
               | d # ds \<Rightarrow> (case simple_escape d of None \<Rightarrow> d | Some e \<Rightarrow> e) # unescape ds))"
  by pat_completeness auto
termination
  by (relation "measure length") (auto dest!: unicode_escape_length)

declare unescape.simps [simp del]

text \<open>The literal up to its closing quote, escapes kept, and the text behind it.\<close>

fun scan_string :: "string \<Rightarrow> (string \<times> string) option" where
  "scan_string [] = None"
| "scan_string (c # cs) =
     (if c = quote then Some ([], cs)
      else if c = backslash then
        (case cs of
           [] \<Rightarrow> None
         | d # ds \<Rightarrow>
             if simple_escape d \<noteq> None then map_option (\<lambda>(raw, r). (c # d # raw, r)) (scan_string ds)
             else if d = CHR ''u'' then
               (case ds of
                  h1 # h2 # h3 # h4 # es \<Rightarrow>
                    if \<forall>h \<in> set [h1, h2, h3, h4]. hex_val h \<noteq> None
                    then map_option (\<lambda>(raw, r). (c # d # h1 # h2 # h3 # h4 # raw, r)) (scan_string es)
                    else None
                | _ \<Rightarrow> None)
             else None)
      else if (of_char c :: nat) < 32 then None
      else map_option (\<lambda>(raw, r). (c # raw, r)) (scan_string cs))"

section \<open>Values\<close>

text \<open>Numbers and strings keep their text: the methods of \<^verbatim>\<open>Px\<close> and \<^verbatim>\<open>Qty\<close> read it.\<close>

datatype json =
    JNull
  | JBool bool
  | JNum string
  | JStr string
  | JArr "json list"
  | JObj "(string \<times> json) list"

definition skip_ws :: "string \<Rightarrow> string" where
  "skip_ws s = dropWhile (\<lambda>c. c \<in> {CHR '' '', CHR 0x09, CHR 0x0A, CHR 0x0D}) s"

definition scan_digits :: "string \<Rightarrow> (string \<times> string) option" where
  "scan_digits s =
     (case takeWhile is_digit s of [] \<Rightarrow> None | ds \<Rightarrow> Some (ds, dropWhile is_digit s))"

definition scan_int :: "string \<Rightarrow> (string \<times> string) option" where
  "scan_int s =
     (case s of
        [] \<Rightarrow> None
      | c # cs \<Rightarrow> if c = CHR ''0'' then Some ([c], cs) else scan_digits s)"

definition scan_frac :: "string \<Rightarrow> (string \<times> string) option" where
  "scan_frac s =
     (case s of
        [] \<Rightarrow> Some ([], [])
      | c # cs \<Rightarrow> if c = CHR ''.'' then map_option (\<lambda>(ds, r). (c # ds, r)) (scan_digits cs) else Some ([], s))"

definition scan_exp :: "string \<Rightarrow> (string \<times> string) option" where
  "scan_exp s =
     (case s of
        [] \<Rightarrow> Some ([], [])
      | c # cs \<Rightarrow>
          if c = CHR ''e'' \<or> c = CHR ''E'' then
            (let (sg, r) = (case cs of [] \<Rightarrow> ([], [])
                            | d # ds \<Rightarrow> if d = CHR ''+'' \<or> d = CHR ''-'' then ([d], ds) else ([], cs))
             in map_option (\<lambda>(ds, r2). (c # sg @ ds, r2)) (scan_digits r))
          else Some ([], s))"

definition scan_number :: "string \<Rightarrow> (string \<times> string) option" where
  "scan_number s =
     (let (sg, s0) = (case s of [] \<Rightarrow> ([], []) | c # cs \<Rightarrow> if c = CHR ''-'' then ([c], cs) else ([], s)) in
      do {
        (ip, s1) \<leftarrow> scan_int s0;
        (fp, s2) \<leftarrow> scan_frac s1;
        (ep, s3) \<leftarrow> scan_exp s2;
        Some (sg @ ip @ fp @ ep, s3)
      })"

text \<open>The fuel is the depth of the recursion; the length of the text is enough of it.\<close>

fun parse_value :: "nat \<Rightarrow> string \<Rightarrow> (json \<times> string) option"
  and parse_members :: "nat \<Rightarrow> string \<Rightarrow> ((string \<times> json) list \<times> string) option"
  and parse_elements :: "nat \<Rightarrow> string \<Rightarrow> (json list \<times> string) option" where
  "parse_value 0 s = None"
| "parse_value (Suc k) s =
     (case skip_ws s of
        [] \<Rightarrow> None
      | c # cs \<Rightarrow>
          if c = CHR ''{'' then
            (case skip_ws cs of
               [] \<Rightarrow> None
             | d # ds \<Rightarrow> if d = CHR ''}'' then Some (JObj [], ds)
                         else map_option (\<lambda>(ms, r). (JObj ms, r)) (parse_members k (d # ds)))
          else if c = CHR ''['' then
            (case skip_ws cs of
               [] \<Rightarrow> None
             | d # ds \<Rightarrow> if d = CHR '']'' then Some (JArr [], ds)
                         else map_option (\<lambda>(vs, r). (JArr vs, r)) (parse_elements k (d # ds)))
          else if c = quote then map_option (\<lambda>(raw, r). (JStr raw, r)) (scan_string cs)
          else if has_prefix (c # cs) ''true'' then Some (JBool True, drop 3 cs)
          else if has_prefix (c # cs) ''false'' then Some (JBool False, drop 4 cs)
          else if has_prefix (c # cs) ''null'' then Some (JNull, drop 3 cs)
          else map_option (\<lambda>(raw, r). (JNum raw, r)) (scan_number (c # cs)))"
| "parse_members 0 s = None"
| "parse_members (Suc k) s =
     (case skip_ws s of
        [] \<Rightarrow> None
      | c # cs \<Rightarrow>
          if c \<noteq> quote then None
          else do {
            (key, r) \<leftarrow> scan_string cs;
            r1 \<leftarrow> (case skip_ws r of [] \<Rightarrow> None | d # ds \<Rightarrow> if d = CHR '':'' then Some ds else None);
            (v, r2) \<leftarrow> parse_value k r1;
            (case skip_ws r2 of
               [] \<Rightarrow> None
             | d # ds \<Rightarrow>
                 if d = CHR '','' then map_option (\<lambda>(ms, r3). ((key, v) # ms, r3)) (parse_members k ds)
                 else if d = CHR ''}'' then Some ([(key, v)], ds) else None)
          })"
| "parse_elements 0 s = None"
| "parse_elements (Suc k) s =
     do {
       (v, r) \<leftarrow> parse_value k s;
       (case skip_ws r of
          [] \<Rightarrow> None
        | d # ds \<Rightarrow>
            if d = CHR '','' then map_option (\<lambda>(vs, r2). (v # vs, r2)) (parse_elements k ds)
            else if d = CHR '']'' then Some ([v], ds) else None)
     }"

definition parse_json :: "string \<Rightarrow> json option" where
  "parse_json s =
     (case parse_value (length s + 1) s of
        None \<Rightarrow> None
      | Some (v, r) \<Rightarrow> if skip_ws r = [] then Some v else None)"

end
