(* ===== verification/JsonRecords.thy ===== *)
theory JsonRecords
  imports Json
begin

text \<open>
  The struct tags of \<^verbatim>\<open>models.Order\<close> and \<^verbatim>\<open>journal.Record\<close>: which fields are written, under
  which names and when they are left out, and how a decoded object fills a struct.
\<close>

section \<open>Writing\<close>

type_synonym fields = "(string \<times> string) list"

fun join_fields :: "fields \<Rightarrow> string" where
  "join_fields [] = []"
| "join_fields [(k, t)] = quote # k @ quote # CHR '':'' # t"
| "join_fields ((k, t) # fs) = quote # k @ quote # CHR '':'' # t @ CHR '','' # join_fields fs"

definition json_object :: "fields \<Rightarrow> string" where
  "json_object fs = CHR ''{'' # join_fields fs @ [CHR ''}'']"

definition json_int :: "int64 \<Rightarrow> string" where
  "json_int w = fmt_d (sint w)"

text \<open>\<^verbatim>\<open>omitempty\<close>\<close>

definition unless_empty :: "bool \<Rightarrow> string \<Rightarrow> 'a \<Rightarrow> (string \<times> 'a) list" where
  "unless_empty absent key t = (if absent then [] else [(key, t)])"

definition order_fields :: "order \<Rightarrow> fields" where
  "order_fields x =
     [(''id'', json_int (oID x)), (''symbol'', json_string (oSymbol x))] @
     unless_empty (oUserID x = 0) ''user_id'' (json_int (oUserID x)) @
     [(''side'', json_string (oSide x)), (''type'', json_string (oType x))] @
     unless_empty (oTIF x = '''') ''time_in_force'' (json_string (oTIF x)) @
     unless_empty (oSTP x = '''') ''stp'' (json_string (oSTP x)) @
     [(''price'', marshalFixedJSON (px_raw (oPrice x))),
      (''trigger_price'', marshalFixedJSON (px_raw (oTrigger x))),
      (''volume'', marshalFixedJSON (qty_raw (oVolume x)))]"

definition order_JSON :: "order \<Rightarrow> string" where
  "order_JSON x = json_object (order_fields x)"

text \<open>A struct is never empty, so \<open>order\<close> is written for every kind of record.\<close>

definition record_fields :: "journal_record \<Rightarrow> fields" where
  "record_fields r =
     [(''kind'', json_string (jrKind r))] @
     unless_empty (jrTimestamp r = 0) ''ts'' (json_int (jrTimestamp r)) @
     [(''order'', order_JSON (jrOrder r))] @
     unless_empty (jrOrderID r = 0) ''order_id'' (json_int (jrOrderID r)) @
     unless_empty (jrNewPrice r = 0) ''new_price'' (marshalFixedJSON (px_raw (jrNewPrice r))) @
     unless_empty (jrNewVolume r = 0) ''new_volume'' (marshalFixedJSON (qty_raw (jrNewVolume r))) @
     unless_empty (jrSymbol r = '''') ''symbol'' (json_string (jrSymbol r))"

definition record_JSON :: "journal_record \<Rightarrow> string" where
  "record_JSON r = json_object (record_fields r)"

section \<open>Reading\<close>

text \<open>\<^verbatim>\<open>strconv.ParseInt(s, 10, 64)\<close> on the text of a JSON number.\<close>

fun digits_value :: "int \<Rightarrow> string \<Rightarrow> int option" where
  "digits_value acc [] = Some acc"
| "digits_value acc (c # cs) =
     (if is_digit c then digits_value (acc * 10 + int (of_char c - 48)) cs else None)"

definition ParseInt :: "string \<Rightarrow> int64 option" where
  "ParseInt s =
     (let (neg, ds) = (case s of [] \<Rightarrow> (False, []) | c # cs \<Rightarrow> if c = CHR ''-'' then (True, cs) else (False, s)) in
      if ds = [] then None
      else case digits_value 0 ds of
        None \<Rightarrow> None
      | Some n \<Rightarrow>
          let v = (if neg then - n else n)
          in if - (2 ^ 63) \<le> v \<and> v < 2 ^ 63 then Some (word_of_int v) else None)"

text \<open>The value of a field: the old one for \<open>null\<close>, none when the types do not fit.\<close>

definition read_string :: "json \<Rightarrow> string \<Rightarrow> string option" where
  "read_string j old = (case j of JNull \<Rightarrow> Some old | JStr raw \<Rightarrow> Some (unescape raw) | _ \<Rightarrow> None)"

definition read_int :: "json \<Rightarrow> int64 \<Rightarrow> int64 option" where
  "read_int j old = (case j of JNull \<Rightarrow> Some old | JNum raw \<Rightarrow> ParseInt raw | _ \<Rightarrow> None)"

text \<open>
  \<^verbatim>\<open>Px\<close> and \<^verbatim>\<open>Qty\<close> have their own \<^verbatim>\<open>UnmarshalJSON\<close>, which is given the text of the value; no
  array or object is a decimal.
\<close>

definition read_fixed :: "json \<Rightarrow> int64 option" where
  "read_fixed j =
     (let text = (case j of JNull \<Rightarrow> ''null'' | JBool True \<Rightarrow> ''true'' | JBool False \<Rightarrow> ''false''
                  | JNum raw \<Rightarrow> raw | JStr raw \<Rightarrow> quote # raw @ [quote] | JArr _ \<Rightarrow> ''['' | JObj _ \<Rightarrow> ''{'')
      in case unmarshalFixedJSON text of Inl _ \<Rightarrow> None | Inr n \<Rightarrow> Some n)"

definition lower_char :: "char \<Rightarrow> char" where
  "lower_char c = (let n = (of_char c :: nat) in if 65 \<le> n \<and> n \<le> 90 then char_of (n + 32) else c)"

definition field_name :: "string \<Rightarrow> string" where
  "field_name raw = map lower_char (unescape raw)"

definition read_order_field :: "string \<Rightarrow> json \<Rightarrow> order \<Rightarrow> order option" where
  "read_order_field k j x =
     (if k = ''id'' then map_option (\<lambda>v. x\<lparr>oID := v\<rparr>) (read_int j (oID x))
      else if k = ''symbol'' then map_option (\<lambda>v. x\<lparr>oSymbol := v\<rparr>) (read_string j (oSymbol x))
      else if k = ''user_id'' then map_option (\<lambda>v. x\<lparr>oUserID := v\<rparr>) (read_int j (oUserID x))
      else if k = ''side'' then map_option (\<lambda>v. x\<lparr>oSide := v\<rparr>) (read_string j (oSide x))
      else if k = ''type'' then map_option (\<lambda>v. x\<lparr>oType := v\<rparr>) (read_string j (oType x))
      else if k = ''time_in_force'' then map_option (\<lambda>v. x\<lparr>oTIF := v\<rparr>) (read_string j (oTIF x))
      else if k = ''stp'' then map_option (\<lambda>v. x\<lparr>oSTP := v\<rparr>) (read_string j (oSTP x))
      else if k = ''price'' then map_option (\<lambda>v. x\<lparr>oPrice := Px v\<rparr>) (read_fixed j)
      else if k = ''trigger_price'' then map_option (\<lambda>v. x\<lparr>oTrigger := Px v\<rparr>) (read_fixed j)
      else if k = ''volume'' then map_option (\<lambda>v. x\<lparr>oVolume := Qty v\<rparr>) (read_fixed j)
      else Some x)"

fun read_fields :: "(string \<Rightarrow> json \<Rightarrow> 'a \<Rightarrow> 'a option) \<Rightarrow> (string \<times> json) list \<Rightarrow> 'a \<Rightarrow> 'a option" where
  "read_fields rd [] x = Some x"
| "read_fields rd ((raw, j) # ms) x =
     (case rd (field_name raw) j x of None \<Rightarrow> None | Some y \<Rightarrow> read_fields rd ms y)"

definition read_order :: "json \<Rightarrow> order \<Rightarrow> order option" where
  "read_order j x = (case j of JNull \<Rightarrow> Some x | JObj ms \<Rightarrow> read_fields read_order_field ms x | _ \<Rightarrow> None)"

definition read_record_field :: "string \<Rightarrow> json \<Rightarrow> journal_record \<Rightarrow> journal_record option" where
  "read_record_field k j r =
     (if k = ''kind'' then map_option (\<lambda>v. r\<lparr>jrKind := v\<rparr>) (read_string j (jrKind r))
      else if k = ''ts'' then map_option (\<lambda>v. r\<lparr>jrTimestamp := v\<rparr>) (read_int j (jrTimestamp r))
      else if k = ''order'' then map_option (\<lambda>v. r\<lparr>jrOrder := v\<rparr>) (read_order j (jrOrder r))
      else if k = ''order_id'' then map_option (\<lambda>v. r\<lparr>jrOrderID := v\<rparr>) (read_int j (jrOrderID r))
      else if k = ''new_price'' then map_option (\<lambda>v. r\<lparr>jrNewPrice := Px v\<rparr>) (read_fixed j)
      else if k = ''new_volume'' then map_option (\<lambda>v. r\<lparr>jrNewVolume := Qty v\<rparr>) (read_fixed j)
      else if k = ''symbol'' then map_option (\<lambda>v. r\<lparr>jrSymbol := v\<rparr>) (read_string j (jrSymbol r))
      else Some r)"

definition read_record :: "json \<Rightarrow> journal_record \<Rightarrow> journal_record option" where
  "read_record j r = (case j of JNull \<Rightarrow> Some r | JObj ms \<Rightarrow> read_fields read_record_field ms r | _ \<Rightarrow> None)"

definition Unmarshal_order :: "string \<Rightarrow> order option" where
  "Unmarshal_order s = (case parse_json s of None \<Rightarrow> None | Some j \<Rightarrow> read_order j zero_order)"

definition Unmarshal_record :: "string \<Rightarrow> journal_record option" where
  "Unmarshal_record s = (case parse_json s of None \<Rightarrow> None | Some j \<Rightarrow> read_record j zero_record)"

end
