(* ===== verification/JsonSpec.thy ===== *)
theory JsonSpec
  imports JsonRecords
begin

text \<open>
  The parser reads what the printer writes: strings, integers and decimals one by one,
  then objects field by field, then the two structs.
\<close>

section \<open>Strings\<close>

lemma hex_digit_val [simp]: "n < 16 \<Longrightarrow> hex_val (hex_digit n) = Some n"
  by (auto simp: hex_digit_def hex_val_def Let_def)

lemma hex_zero: "hex_val (CHR ''0'') = Some 0"
  by code_simp

text \<open>The three forms an escaped byte can take.\<close>

lemma json_escape_cases:
  obtains (simple) d where "json_escape c = [backslash, d]" "simple_escape d = Some c" "d \<noteq> CHR ''u''"
    | (hex) "json_escape c = [backslash, CHR ''u'', CHR ''0'', CHR ''0'', hex_digit (of_char c div 16), hex_digit (of_char c mod 16)]"
        "(of_char c :: nat) < 128"
    | (plain) "json_escape c = [c]" "c \<noteq> quote" "c \<noteq> backslash" "\<not> (of_char c :: nat) < 32"
proof -
  have small: "(of_char c :: nat) < 128" if "c \<in> {CHR ''<'', CHR ''>'', CHR ''&''}" using that by auto
  show thesis
  proof (cases "c \<in> {quote, backslash, CHR 0x08, CHR 0x0C, CHR 0x0A, CHR 0x0D, CHR 0x09}")
    case True
    then have "\<exists>d. json_escape c = [backslash, d] \<and> simple_escape d = Some c \<and> d \<noteq> CHR ''u''"
      by (elim insertE) (simp_all add: json_escape_def simple_escape_def)
    then show thesis using simple by blast
  next
    case False
    let ?special = "(of_char c :: nat) < 32 \<or> c \<in> {CHR ''<'', CHR ''>'', CHR ''&''}"
    have esc: "json_escape c = (if ?special
        then [backslash, CHR ''u'', CHR ''0'', CHR ''0'', hex_digit (of_char c div 16), hex_digit (of_char c mod 16)]
        else [c])"
      using False by (simp add: json_escape_def Let_def)
    show thesis
    proof (cases ?special)
      case True
      then have "(of_char c :: nat) < 128" using small by fastforce
      then show thesis by (rule hex [OF esc [unfolded if_P [OF True]]])
    next
      case plain_char: False
      show thesis by (rule plain [OF esc [unfolded if_not_P [OF plain_char]]]) (use False plain_char in simp_all)
    qed
  qed
qed

lemma simple_escape_u [simp]: "simple_escape (CHR ''u'') = None"
  by (simp add: simple_escape_def)

lemma scan_escape:
  "scan_string (json_escape c @ r) = map_option (\<lambda>(a, b). (json_escape c @ a, b)) (scan_string r)"
proof (cases c rule: json_escape_cases)
  case (simple d)
  then show ?thesis by (simp add: simple)
next
  case hex
  have "(of_char c :: nat) div 16 < 16" "(of_char c :: nat) mod 16 < 16" using hex(2) by simp_all
  then show ?thesis unfolding hex(1) by (simp add: hex_zero)
next
  case plain
  then show ?thesis by simp
qed

lemma scan_escape_text:
  "scan_string (escape_text s @ quote # r) = Some (escape_text s, r)"
  by (induction s) (simp_all add: escape_text_def scan_escape)

lemma unescape_escape: "unescape (json_escape c @ r) = c # unescape r"
proof (cases c rule: json_escape_cases)
  case (simple d)
  have "unicode_escape (backslash # d # r) = None"
    using simple(3) by (simp add: unicode_escape_def split: list.split)
  then show ?thesis unfolding simple(1) by (subst unescape.simps) (simp add: simple(2))
next
  case hex
  let ?n = "of_char c :: nat"
  have h: "?n div 16 < 16" "?n mod 16 < 16" using hex(2) by simp_all
  have u: "unicode_escape (json_escape c @ r) = Some (?n, r)"
    unfolding hex(1) by (simp add: unicode_escape_def h hex_zero)
  have utf: "utf8 ?n = [c]" using hex(2) by (simp add: utf8_def)
  show ?thesis
    using u utf hex(2) unfolding hex(1) by (subst unescape.simps) simp
next
  case plain
  then show ?thesis by (subst unescape.simps) simp
qed

lemma unescape_text [simp]: "unescape (escape_text s) = s"
  by (induction s) (simp_all add: escape_text_def unescape_escape, simp add: unescape.simps)

text \<open>Text without quotes, backslashes and control characters needs no escapes.\<close>

definition plain_text :: "string \<Rightarrow> bool" where
  "plain_text s \<longleftrightarrow> (\<forall>c \<in> set s. c \<noteq> quote \<and> c \<noteq> backslash \<and> \<not> (of_char c :: nat) < 32)"

lemma scan_plain: "plain_text s \<Longrightarrow> scan_string (s @ quote # r) = Some (s, r)"
  by (induction s) (simp_all add: plain_text_def)

lemma plain_digit: "is_digit c \<Longrightarrow> c \<noteq> quote \<and> c \<noteq> backslash \<and> \<not> (of_char c :: nat) < 32"
  by (auto simp: is_digit_def less_char_def)

section \<open>Integers\<close>

lemma dec_digits_head: "0 < n \<Longrightarrow> hd (dec_digits n) \<noteq> CHR ''0''"
proof (induction n rule: dec_digits.induct)
  case (1 n)
  show ?case
  proof (cases "n < 10")
    case True
    have "digit_int (digit_char n) = n" using 1 True by simp
    then have "digit_char n \<noteq> CHR ''0''" using 1(2) by (auto simp: digit_int_def)
    then show ?thesis using True by (simp add: dec_digits.simps [of n])
  next
    case False
    then have "hd (dec_digits (n div 10)) \<noteq> CHR ''0''" using 1 by simp
    then show ?thesis using False by (simp add: dec_digits.simps [of n])
  qed
qed

lemma dec_digits_zero: "dec_digits 0 = ''0''"
  by code_simp

text \<open>What may stand behind a value inside an object or an array.\<close>

definition delimited :: "string \<Rightarrow> bool" where
  "delimited rest \<longleftrightarrow> (case rest of [] \<Rightarrow> True | c # _ \<Rightarrow> c = CHR '','' \<or> c = CHR ''}'' \<or> c = CHR '']'')"

lemma delimited_simps [simp]: "delimited []" "delimited (c # r) \<longleftrightarrow> c = CHR '','' \<or> c = CHR ''}'' \<or> c = CHR '']''"
  by (simp_all add: delimited_def)

lemma digit_tokens [simp]:
  "\<not> is_digit (CHR '','')" "\<not> is_digit (CHR ''}'')" "\<not> is_digit (CHR ''-'')" "\<not> is_digit (CHR ''{'')"
  "\<not> is_digit (CHR ''['')" "\<not> is_digit quote" "\<not> is_digit (CHR ''t'')" "\<not> is_digit (CHR ''f'')"
  "\<not> is_digit (CHR ''n'')" "\<not> is_digit (CHR '' '')" "\<not> is_digit (CHR 0x09)" "\<not> is_digit (CHR 0x0A)"
  "\<not> is_digit (CHR 0x0D)" "\<not> is_digit (CHR '']'')"
  by (simp_all add: is_digit_def less_char_def)

lemma scan_int_digits:
  assumes "0 \<le> n" and "delimited rest"
  shows "scan_int (dec_digits n @ rest) = Some (dec_digits n, rest)"
proof (cases "n = 0")
  case True
  then show ?thesis by (simp add: dec_digits_zero scan_int_def)
next
  case False
  have d: "\<forall>c \<in> set (dec_digits n). is_digit c" using dec_digits_digits [OF assms(1)] by blast
  obtain c cs where ds: "dec_digits n = c # cs" using dec_digits_nonempty by (cases "dec_digits n") auto
  have "c \<noteq> CHR ''0''" using dec_digits_head [of n] assms(1) False ds by simp
  moreover have "takeWhile is_digit (dec_digits n @ rest) = dec_digits n" "dropWhile is_digit (dec_digits n @ rest) = rest"
    using d assms(2) by (cases rest; auto simp: takeWhile_append2)+
  ultimately show ?thesis by (simp add: scan_int_def ds scan_digits_def)
qed

lemma scan_number_int:
  assumes "delimited rest" shows "scan_number (fmt_d n @ rest) = Some (fmt_d n, rest)"
proof -
  have tail: "scan_frac rest = Some ([], rest)" "scan_exp rest = Some ([], rest)"
    using assms by (auto simp: scan_frac_def scan_exp_def split: list.split)
  show ?thesis
  proof (cases "n < 0")
    case True
    then show ?thesis using scan_int_digits [of "- n" rest] assms tail by (simp add: scan_number_def fmt_d_def)
  next
    case False
    obtain c cs where ds: "dec_digits n = c # cs" using dec_digits_nonempty by (cases "dec_digits n") auto
    then have "is_digit c" using dec_digits_digits [of n c] False by simp
    then have "c \<noteq> CHR ''-''" by auto
    then show ?thesis using scan_int_digits [of n rest] assms tail False ds by (simp add: scan_number_def fmt_d_def)
  qed
qed

lemma digits_value_dec: "\<forall>c \<in> set cs. is_digit c \<Longrightarrow> digits_value acc cs = Some (dec_value acc cs)"
proof (induction cs arbitrary: acc)
  case (Cons c cs)
  then have "is_digit c" by simp
  then have "48 \<le> (of_char c :: nat)" by (simp add: is_digit_def less_char_def)
  then have "digit_int c = int (of_char c - 48)" by (simp only: digit_int_def of_nat_diff)
  then show ?case using Cons by simp
qed simp

lemma ParseInt_int [simp]: "ParseInt (json_int w) = Some w"
proof -
  have b: "- (2 ^ 63) \<le> sint w" "sint w < 2 ^ 63"
    using sint_greater_eq [of w] sint_less [of w] by simp_all
  have v: "digits_value 0 (dec_digits n) = Some n" if "0 \<le> n" for n
    using digits_value_dec [of "dec_digits n" 0] dec_digits_digits [OF that] dec_value_dec_digits [OF that] by simp
  show ?thesis
  proof (cases "sint w < 0")
    case True
    then show ?thesis using v [of "- sint w"] b by (simp add: ParseInt_def json_int_def fmt_d_def)
  next
    case False
    obtain c cs where ds: "dec_digits (sint w) = c # cs" using dec_digits_nonempty by (cases "dec_digits (sint w)") auto
    then have "is_digit c" using dec_digits_digits [of "sint w" c] False by simp
    then have "c \<noteq> CHR ''-''" by auto
    then show ?thesis using v [of "sint w"] b False ds by (simp add: ParseInt_def json_int_def fmt_d_def)
  qed
qed

section \<open>Values\<close>

text \<open>The text \<open>t\<close> reads as the value \<open>j\<close> wherever a value may stand.\<close>

definition prints :: "string \<Rightarrow> json \<Rightarrow> bool" where
  "prints t j \<longleftrightarrow> (\<forall>k rest. length t \<le> k \<longrightarrow> delimited rest \<longrightarrow> parse_value k (t @ rest) = Some (j, rest))"

lemma printsD: "prints t j \<Longrightarrow> length t \<le> k \<Longrightarrow> delimited rest \<Longrightarrow> parse_value k (t @ rest) = Some (j, rest)"
  by (simp add: prints_def)

lemma skip_ws_Cons [simp]:
  "c \<notin> {CHR '' '', CHR 0x09, CHR 0x0A, CHR 0x0D} \<Longrightarrow> skip_ws (c # s) = c # s" "skip_ws [] = []"
  by (simp_all add: skip_ws_def)

lemma skip_ws_delimited: "delimited rest \<Longrightarrow> skip_ws rest = rest"
  by (cases rest) auto

lemma prints_string: "prints (json_string s) (JStr (escape_text s))"
  unfolding prints_def
proof (intro allI impI)
  fix k rest assume "length (json_string s) \<le> k" "delimited rest"
  then obtain k' where "k = Suc k'" by (cases k) (auto simp: json_string_def)
  then show "parse_value k (json_string s @ rest) = Some (JStr (escape_text s), rest)"
    using scan_escape_text [of s rest] by (simp add: json_string_def)
qed

lemma prints_plain:
  assumes "plain_text s" shows "prints (quote # s @ [quote]) (JStr s)"
  unfolding prints_def
proof (intro allI impI)
  fix k rest assume "length (quote # s @ [quote]) \<le> k" "delimited rest"
  then obtain k' where "k = Suc k'" by (cases k) auto
  then show "parse_value k ((quote # s @ [quote]) @ rest) = Some (JStr s, rest)"
    using scan_plain [OF assms, of rest] by simp
qed

lemma fmt_d_Cons: "\<exists>c cs. fmt_d n = c # cs \<and> (c = CHR ''-'' \<or> is_digit c)"
proof (cases "n < 0")
  case False
  obtain c cs where ds: "dec_digits n = c # cs" using dec_digits_nonempty by (cases "dec_digits n") auto
  then show ?thesis using dec_digits_digits [of n c] False by (simp add: fmt_d_def)
qed (simp add: fmt_d_def)

lemma prints_fmt_d: "prints (fmt_d n) (JNum (fmt_d n))"
  unfolding prints_def
proof (intro allI impI)
  fix k rest assume k: "length (fmt_d n) \<le> k" and d: "delimited rest"
  obtain c cs where f: "fmt_d n = c # cs" and c: "c = CHR ''-'' \<or> is_digit c" using fmt_d_Cons [of n] by blast
  obtain k' where "k = Suc k'" using k f by (cases k) auto
  moreover have "c \<notin> {CHR '' '', CHR 0x09, CHR 0x0A, CHR 0x0D, CHR ''{'', CHR ''['', quote}"
    and "\<not> has_prefix (c # s) ''true''" "\<not> has_prefix (c # s) ''false''" "\<not> has_prefix (c # s) ''null''" for s
    using c by (auto simp: has_prefix_def)
  moreover have "scan_number (c # cs @ rest) = Some (fmt_d n, rest)" using scan_number_int [OF d, of n] f by simp
  ultimately show "parse_value k (fmt_d n @ rest) = Some (JNum (fmt_d n), rest)" by (simp add: f)
qed

lemma prints_int: "prints (json_int w) (JNum (json_int w))"
  using prints_fmt_d by (simp add: json_int_def)

lemma plain_text_append: "plain_text (a @ b) \<longleftrightarrow> plain_text a \<and> plain_text b"
  by (auto simp: plain_text_def)

lemma plain_text_Cons:
  "plain_text (c # s) \<longleftrightarrow> c \<noteq> quote \<and> c \<noteq> backslash \<and> \<not> (of_char c :: nat) < 32 \<and> plain_text s"
  by (auto simp: plain_text_def)

lemma plain_digits: "\<forall>c \<in> set s. is_digit c \<Longrightarrow> plain_text s"
  using plain_digit by (simp add: plain_text_def)

lemma plain_format: "sint v \<noteq> - (2 ^ 63) \<Longrightarrow> plain_text (formatFixed v)"
proof -
  assume v: "sint v \<noteq> - (2 ^ 63)"
  have d: "\<forall>c \<in> set (dec_digits (\<bar>sint v\<bar> div 10 ^ 8)). is_digit c"
    "\<forall>c \<in> set (zero_pad 8 (dec_digits (\<bar>sint v\<bar> mod 10 ^ 8))). is_digit c"
    using dec_digits_digits [of "\<bar>sint v\<bar> div 10 ^ 8"] zero_pad_digits(2) [of "\<bar>sint v\<bar> mod 10 ^ 8"] by auto
  show ?thesis
    unfolding formatFixed_shape [OF v] plain_text_append plain_text_Cons
    using plain_digits [OF d(1)] plain_digits [OF d(2)] by (simp add: sign_text_def plain_text_def)
qed

lemma prints_fixed: "sint v \<noteq> - (2 ^ 63) \<Longrightarrow> prints (marshalFixedJSON v) (JStr (formatFixed v))"
  using prints_plain [OF plain_format] by (simp add: marshalFixedJSON_def)

section \<open>Objects\<close>

definition field_prints :: "string \<times> string \<Rightarrow> string \<times> json \<Rightarrow> bool" where
  "field_prints f m \<longleftrightarrow> fst m = fst f \<and> plain_text (fst f) \<and> prints (snd f) (snd m)"

lemma join_fields_Cons:
  "fs \<noteq> [] \<Longrightarrow> join_fields ((k, t) # fs) = quote # k @ quote # CHR '':'' # t @ CHR '','' # join_fields fs"
  by (cases fs) simp_all

lemma parse_join:
  "list_all2 field_prints fs ms \<Longrightarrow> fs \<noteq> [] \<Longrightarrow> length (join_fields fs) \<le> k \<Longrightarrow>
   parse_members k (join_fields fs @ CHR ''}'' # rest) = Some (ms, rest)"
proof (induction fs ms arbitrary: k rule: list_all2_induct)
  case (Cons f fs m ms)
  obtain key t where f: "f = (key, t)" by fastforce
  obtain v where m: "m = (key, v)" and p: "plain_text key" "prints t v"
    using Cons.hyps(1) f by (cases m) (auto simp: field_prints_def)
  obtain k' where k: "k = Suc k'" using Cons.prems(2) f by (cases k; cases fs) auto
  show ?case
  proof (cases "fs = []")
    case True
    then have "ms = []" "length t \<le> k'" using Cons.hyps(2) Cons.prems(2) f k by simp_all
    then show ?thesis
      using scan_plain [OF p(1)] printsD [OF p(2), of k' "CHR ''}'' # rest"] True by (simp add: f m k)
  next
    case False
    have j: "join_fields (f # fs) = quote # key @ quote # CHR '':'' # t @ CHR '','' # join_fields fs"
      unfolding f by (rule join_fields_Cons [OF False])
    have len: "length t \<le> k'" "length (join_fields fs) \<le> k'" using Cons.prems(2) unfolding j k by simp_all
    show ?thesis
      unfolding j k using scan_plain [OF p(1)] printsD [OF p(2) len(1), of "CHR '','' # join_fields fs @ CHR ''}'' # rest"]
        Cons.IH [OF False len(2)] by (simp add: m)
  qed
qed simp

lemma join_fields_head: "fs \<noteq> [] \<Longrightarrow> \<exists>s. join_fields fs = quote # s"
  by (cases fs rule: join_fields.cases) auto

lemma prints_object:
  assumes "list_all2 field_prints fs ms" and "fs \<noteq> []"
  shows "prints (json_object fs) (JObj ms)"
  unfolding prints_def
proof (intro allI impI)
  fix k rest assume k: "length (json_object fs) \<le> k" and "delimited rest"
  then obtain k' where k': "k = Suc k'" "length (join_fields fs) \<le> k'" by (cases k) (auto simp: json_object_def)
  obtain s where s: "join_fields fs = quote # s" using join_fields_head [OF assms(2)] by blast
  show "parse_value k (json_object fs @ rest) = Some (JObj ms, rest)"
    using parse_join [OF assms k'(2), of rest] by (simp add: json_object_def s k'(1))
qed

lemma parse_json_prints: "prints t j \<Longrightarrow> parse_json t = Some j"
  using printsD [of t j "length t + 1" "[]"] by (simp add: parse_json_def)

section \<open>Structs\<close>

definition order_members :: "order \<Rightarrow> (string \<times> json) list" where
  "order_members x =
     [(''id'', JNum (json_int (oID x))), (''symbol'', JStr (escape_text (oSymbol x)))] @
     unless_empty (oUserID x = 0) ''user_id'' (JNum (json_int (oUserID x))) @
     [(''side'', JStr (escape_text (oSide x))), (''type'', JStr (escape_text (oType x)))] @
     unless_empty (oTIF x = '''') ''time_in_force'' (JStr (escape_text (oTIF x))) @
     unless_empty (oSTP x = '''') ''stp'' (JStr (escape_text (oSTP x))) @
     [(''price'', JStr (formatFixed (px_raw (oPrice x)))),
      (''trigger_price'', JStr (formatFixed (px_raw (oTrigger x)))),
      (''volume'', JStr (formatFixed (qty_raw (oVolume x))))]"

definition record_members :: "journal_record \<Rightarrow> (string \<times> json) list" where
  "record_members r =
     [(''kind'', JStr (escape_text (jrKind r)))] @
     unless_empty (jrTimestamp r = 0) ''ts'' (JNum (json_int (jrTimestamp r))) @
     [(''order'', JObj (order_members (jrOrder r)))] @
     unless_empty (jrOrderID r = 0) ''order_id'' (JNum (json_int (jrOrderID r))) @
     unless_empty (jrNewPrice r = 0) ''new_price'' (JStr (formatFixed (px_raw (jrNewPrice r)))) @
     unless_empty (jrNewVolume r = 0) ''new_volume'' (JStr (formatFixed (qty_raw (jrNewVolume r)))) @
     unless_empty (jrSymbol r = '''') ''symbol'' (JStr (escape_text (jrSymbol r)))"

definition record_decimals :: "journal_record \<Rightarrow> bool" where
  "record_decimals r \<longleftrightarrow> printable (jrOrder r) \<and> px_val (jrNewPrice r) \<noteq> - (2 ^ 63) \<and>
     qty_val (jrNewVolume r) \<noteq> - (2 ^ 63)"

lemma field_printsI: "plain_text k \<Longrightarrow> prints t j \<Longrightarrow> field_prints (k, t) (k, j)"
  by (simp add: field_prints_def)

lemma unless_empty_prints:
  "plain_text k \<Longrightarrow> prints t j \<Longrightarrow> list_all2 field_prints (unless_empty b k t) (unless_empty b k j)"
  by (simp add: unless_empty_def field_printsI)

lemma plain_names:
  "list_all plain_text [''id'', ''symbol'', ''user_id'', ''side'', ''type'', ''time_in_force'', ''stp'', ''price'',
     ''trigger_price'', ''volume'', ''kind'', ''ts'', ''order'', ''order_id'', ''new_price'', ''new_volume'']"
  by code_simp

lemma order_prints: "printable x \<Longrightarrow> prints (order_JSON x) (JObj (order_members x))"
  unfolding order_JSON_def
proof (rule prints_object)
  assume p: "printable x"
  show "list_all2 field_prints (order_fields x) (order_members x)"
    unfolding order_fields_def order_members_def
    by (intro list_all2_appendI list.rel_intros field_printsI unless_empty_prints prints_int prints_string prints_fixed)
      (use p plain_names in \<open>simp_all add: printable_def px_val_def qty_val_def\<close>)
qed (simp add: order_fields_def)

lemma record_prints: "record_decimals r \<Longrightarrow> prints (record_JSON r) (JObj (record_members r))"
  unfolding record_JSON_def
proof (rule prints_object)
  assume p: "record_decimals r"
  show "list_all2 field_prints (record_fields r) (record_members r)"
    unfolding record_fields_def record_members_def
    by (intro list_all2_appendI list.rel_intros field_printsI unless_empty_prints prints_int prints_string prints_fixed
        order_prints) (use p plain_names in \<open>simp_all add: record_decimals_def px_val_def qty_val_def\<close>)
qed (simp add: record_fields_def)

text \<open>Filling a struct from the members it was written as.\<close>

lemma read_fields_append:
  "read_fields rd (a @ b) x = (case read_fields rd a x of None \<Rightarrow> None | Some y \<Rightarrow> read_fields rd b y)"
  by (induction rd a x rule: read_fields.induct) (simp_all split: option.split)

lemma read_unless_empty:
  assumes "field_name k = k" and "rd k j x = Some y" and "b \<Longrightarrow> y = x"
  shows "read_fields rd (unless_empty b k j) x = Some y"
  using assms by (simp add: unless_empty_def)

lemma field_names:
  "list_all (\<lambda>k. field_name k = k) [''id'', ''symbol'', ''user_id'', ''side'', ''type'', ''time_in_force'', ''stp'',
     ''price'', ''trigger_price'', ''volume'', ''kind'', ''ts'', ''order'', ''order_id'', ''new_price'', ''new_volume'']"
  by code_simp

lemmas field_name_simps [simp] = field_names [simplified]

lemma read_values [simp]:
  "read_string (JStr (escape_text s)) old = Some s" "read_int (JNum (json_int w)) i = Some w"
  "sint v \<noteq> - (2 ^ 63) \<Longrightarrow> read_fixed (JStr (formatFixed v)) = Some v"
  using unmarshal_marshal [of v]
  by (simp_all add: read_string_def read_int_def read_fixed_def marshalFixedJSON_def)

lemma read_order_members:
  assumes "printable x" shows "read_fields read_order_field (order_members x) zero_order = Some x"
proof -
  have v: "sint (px_raw (oPrice x)) \<noteq> - (2 ^ 63)" "sint (px_raw (oTrigger x)) \<noteq> - (2 ^ 63)"
    "sint (qty_raw (oVolume x)) \<noteq> - (2 ^ 63)"
    using assms by (simp_all add: printable_def px_val_def qty_val_def)
  note v = v [THEN read_values(3)]
  have opt: "read_fields read_order_field (unless_empty (oUserID x = 0) ''user_id'' (JNum (json_int (oUserID x)))) y =
      Some (y\<lparr>oUserID := oUserID x\<rparr>)" if "oUserID y = 0" for y
    using that by (intro read_unless_empty) (simp_all add: read_order_field_def)
  have opt2: "read_fields read_order_field (unless_empty (oTIF x = '''') ''time_in_force'' (JStr (escape_text (oTIF x)))) y =
      Some (y\<lparr>oTIF := oTIF x\<rparr>)" if "oTIF y = ''''" for y
    using that by (intro read_unless_empty) (simp_all add: read_order_field_def)
  have opt3: "read_fields read_order_field (unless_empty (oSTP x = '''') ''stp'' (JStr (escape_text (oSTP x)))) y =
      Some (y\<lparr>oSTP := oSTP x\<rparr>)" if "oSTP y = ''''" for y
    using that by (intro read_unless_empty) (simp_all add: read_order_field_def)
  show ?thesis
    unfolding order_members_def
    by (simp add: read_fields_append opt opt2 opt3 read_order_field_def v zero_order_def)
qed

lemma read_record_members:
  assumes "record_decimals r" shows "read_fields read_record_field (record_members r) zero_record = Some r"
proof -
  have v: "sint (px_raw (jrNewPrice r)) \<noteq> - (2 ^ 63)" "sint (qty_raw (jrNewVolume r)) \<noteq> - (2 ^ 63)"
    and o: "printable (jrOrder r)"
    using assms by (simp_all add: record_decimals_def px_val_def qty_val_def)
  note v = v [THEN read_values(3)]
  let ?rd = "read_fields read_record_field"
  have opt: "?rd (unless_empty (jrTimestamp r = 0) ''ts'' (JNum (json_int (jrTimestamp r)))) y =
      Some (y\<lparr>jrTimestamp := jrTimestamp r\<rparr>)" if "jrTimestamp y = 0" for y
    using that by (intro read_unless_empty) (simp_all add: read_record_field_def)
  have opt2: "?rd (unless_empty (jrOrderID r = 0) ''order_id'' (JNum (json_int (jrOrderID r)))) y =
      Some (y\<lparr>jrOrderID := jrOrderID r\<rparr>)" if "jrOrderID y = 0" for y
    using that by (intro read_unless_empty) (simp_all add: read_record_field_def)
  have opt3: "?rd (unless_empty (jrNewPrice r = 0) ''new_price'' (JStr (formatFixed (px_raw (jrNewPrice r))))) y =
      Some (y\<lparr>jrNewPrice := jrNewPrice r\<rparr>)" if "jrNewPrice y = 0" for y
    using that by (intro read_unless_empty) (simp_all add: read_record_field_def v)
  have opt4: "?rd (unless_empty (jrNewVolume r = 0) ''new_volume'' (JStr (formatFixed (qty_raw (jrNewVolume r))))) y =
      Some (y\<lparr>jrNewVolume := jrNewVolume r\<rparr>)" if "jrNewVolume y = 0" for y
    using that by (intro read_unless_empty) (simp_all add: read_record_field_def v)
  have opt5: "?rd (unless_empty (jrSymbol r = '''') ''symbol'' (JStr (escape_text (jrSymbol r)))) y =
      Some (y\<lparr>jrSymbol := jrSymbol r\<rparr>)" if "jrSymbol y = ''''" for y
    using that by (intro read_unless_empty) (simp_all add: read_record_field_def)
  show ?thesis
    unfolding record_members_def
    by (simp add: read_fields_append opt opt2 opt3 opt4 opt5 read_record_field_def read_order_def
        read_order_members [OF o] zero_record_def)
qed

lemma order_JSON_reads: "printable x \<Longrightarrow> Unmarshal_order (order_JSON x) = Some x"
  using parse_json_prints [OF order_prints] by (simp add: Unmarshal_order_def read_order_def read_order_members)

lemma record_JSON_reads: "record_decimals r \<Longrightarrow> Unmarshal_record (record_JSON r) = Some r"
  using parse_json_prints [OF record_prints] by (simp add: Unmarshal_record_def read_record_def read_record_members)

section \<open>A record is one line\<close>

lemma plain_no_newline: "plain_text s \<Longrightarrow> newline \<notin> set s"
proof
  assume p: "plain_text s" and n: "newline \<in> set s"
  have "\<not> (of_char newline :: nat) < 32" using p n unfolding plain_text_def by blast
  then show False by simp
qed

lemma hex_digit_no_newline: "n < 16 \<Longrightarrow> hex_digit n \<noteq> newline"
  using hex_digit_val [of n] by (auto simp: hex_val_def)

lemma escape_no_newline: "newline \<notin> set (escape_text s)"
proof -
  have "newline \<notin> set (json_escape c)" for c
  proof (cases c rule: json_escape_cases)
    case (simple d)
    then show ?thesis by (auto simp: simple_escape_def)
  next
    case hex
    have "hex_digit (of_char c div 16) \<noteq> newline" "hex_digit (of_char c mod 16) \<noteq> newline"
      by (rule hex_digit_no_newline; use hex(2) in simp)+
    then show ?thesis by (simp add: hex(1))
  next
    case plain
    then show ?thesis by auto
  qed
  then show ?thesis by (auto simp: escape_text_def)
qed

lemma int_no_newline: "newline \<notin> set (json_int w)"
proof -
  have d: "newline \<notin> set (dec_digits n)" if "0 \<le> n" for n
    using plain_no_newline [OF plain_digits] dec_digits_digits [OF that] by blast
  show ?thesis
  proof (cases "sint w < 0")
    case True
    then show ?thesis using d [of "- sint w"] by (simp add: json_int_def fmt_d_def)
  next
    case False
    then show ?thesis using d [of "sint w"] by (simp add: json_int_def fmt_d_def)
  qed
qed

lemma object_no_newline:
  "(\<forall>(k, t) \<in> set fs. newline \<notin> set k \<and> newline \<notin> set t) \<Longrightarrow> newline \<notin> set (json_object fs)"
proof -
  assume "\<forall>(k, t) \<in> set fs. newline \<notin> set k \<and> newline \<notin> set t"
  then have "newline \<notin> set (join_fields fs)" by (induction fs rule: join_fields.induct) auto
  then show ?thesis by (simp add: json_object_def)
qed

lemma text_no_newline:
  "newline \<notin> set (json_string s)"
  "sint v \<noteq> - (2 ^ 63) \<Longrightarrow> newline \<notin> set (marshalFixedJSON v)"
  using escape_no_newline [of s] plain_no_newline [OF plain_format [of v]]
  by (simp_all add: json_string_def marshalFixedJSON_def)

lemma unless_empty_set: "(k, t) \<in> set (unless_empty b k' t') \<Longrightarrow> k = k' \<and> t = t'"
  by (simp add: unless_empty_def split: if_splits)

lemma order_no_newline: "printable x \<Longrightarrow> newline \<notin> set (order_JSON x)"
proof -
  assume p: "printable x"
  then have v: "newline \<notin> set (marshalFixedJSON (px_raw (oPrice x)))" "newline \<notin> set (marshalFixedJSON (px_raw (oTrigger x)))"
    "newline \<notin> set (marshalFixedJSON (qty_raw (oVolume x)))"
    by (intro text_no_newline(2); simp add: printable_def px_val_def qty_val_def)+
  show ?thesis
    unfolding order_JSON_def
  proof (rule object_no_newline, clarify)
    fix k t assume "(k, t) \<in> set (order_fields x)"
    then show "newline \<notin> set k \<and> newline \<notin> set t"
      unfolding order_fields_def set_append Un_iff
      using v text_no_newline(1) int_no_newline by (auto dest: unless_empty_set)
  qed
qed

lemma record_no_newline: "record_decimals r \<Longrightarrow> newline \<notin> set (record_JSON r)"
proof -
  assume p: "record_decimals r"
  then have v: "newline \<notin> set (marshalFixedJSON (px_raw (jrNewPrice r)))"
    "newline \<notin> set (marshalFixedJSON (qty_raw (jrNewVolume r)))"
    by (intro text_no_newline(2); simp add: record_decimals_def px_val_def qty_val_def)+
  have o: "newline \<notin> set (order_JSON (jrOrder r))" using p by (intro order_no_newline) (simp add: record_decimals_def)
  show ?thesis
    unfolding record_JSON_def
  proof (rule object_no_newline, clarify)
    fix k t assume "(k, t) \<in> set (record_fields r)"
    then show "newline \<notin> set k \<and> newline \<notin> set t"
      unfolding record_fields_def set_append Un_iff
      using v o text_no_newline(1) int_no_newline by (auto dest: unless_empty_set)
  qed
qed


section \<open>Text the codec is modelled for\<close>

text \<open>
  The library reads and writes strings as UTF-8 and replaces what is not; the properties
  of the codec are stated for ASCII strings.
\<close>

definition ascii :: "string \<Rightarrow> bool" where
  "ascii s \<longleftrightarrow> list_all (\<lambda>c. of_char c < (128 :: nat)) s"

definition json_order :: "order \<Rightarrow> bool" where
  "json_order x \<longleftrightarrow> printable x \<and> ascii (oSymbol x) \<and> ascii (oSide x) \<and> ascii (oType x) \<and> ascii (oTIF x) \<and> ascii (oSTP x)"

definition record_printable :: "journal_record \<Rightarrow> bool" where
  "record_printable r \<longleftrightarrow> record_decimals r \<and> json_order (jrOrder r) \<and> ascii (jrKind r) \<and> ascii (jrSymbol r)"

lemma printable_record:
  assumes "record_printable r"
  shows "Unmarshal_record (record_JSON r) = Some r" "newline \<notin> set (record_JSON r)"
  using assms record_JSON_reads record_no_newline by (simp_all add: record_printable_def)

lemma json_order_reads: "json_order x \<Longrightarrow> Unmarshal_order (order_JSON x) = Some x"
  by (simp add: json_order_def order_JSON_reads)

lemma record_decimals_zero:
  "px_val (jrNewPrice r) = 0 \<Longrightarrow> qty_val (jrNewVolume r) = 0 \<Longrightarrow> record_decimals r \<longleftrightarrow> printable (jrOrder r)"
  by (simp add: record_decimals_def)

end
