(* ===== verification/JournalProps.thy ===== *)
theory JournalProps
  imports JournalSpec JsonSpec Samples
begin

text \<open>
  What the journal guarantees with its JSON codec, and where its guarantees end: torn
  lines, failed syncs, and symbols that share a file.
\<close>

section \<open>The codec\<close>

text \<open>
  C25. JSON round trip: an order, and a journal record of any kind, with ASCII
  strings and decimals that all have a printed form is read back as it was written, omitted fields included; a record
  is written on one line.
\<close>

theorem record_json_roundtrip:
  assumes "record_printable r"
  shows "Unmarshal_record (record_JSON r) = Some r \<and> Unmarshal_order (order_JSON (jrOrder r)) = Some (jrOrder r) \<and>
    newline \<notin> set (record_JSON r)"
  using printable_record [OF assms] json_order_reads assms by (simp add: record_printable_def)

definition sample_record :: journal_record where
  "sample_record = \<lparr>jrKind = RecNew, jrTimestamp = 17, jrOrder = sample_order 1 7 BUY 100 5, jrOrderID = 0,
     jrNewPrice = 0, jrNewVolume = 0, jrSymbol = ''''\<rparr>"

lemma sample_record_printable: "record_printable sample_record"
proof -
  have "record_decimals sample_record" "json_order (jrOrder sample_record)"
    by (simp add: record_decimals_def json_order_def sample_record_def printable_def px_val_def qty_val_def zero_px_def zero_qty_def
        ascii_def RecNew_def, simp add: sample_order_def zero_px_def side_defs type_defs tif_defs stp_defs)+
  then show ?thesis by (simp add: record_printable_def) (simp add: sample_record_def ascii_def RecNew_def)
qed

theorem record_json_roundtrip_witness: "Unmarshal_record (record_JSON sample_record) = Some sample_record"
  using record_json_roundtrip [OF sample_record_printable] by blast

lemma record_line_reads:
  assumes "record_printable r" and "length (record_JSON r) < maxToken"
  shows "line_reads Unmarshal_record (record_JSON r) r"
proof -
  have "record_JSON r = (CHR ''{'' # join_fields (record_fields r)) @ [CHR ''}'']"
    by (simp add: record_JSON_def json_object_def)
  then have "last (record_JSON r) = CHR ''}''" "record_JSON r \<noteq> []" by (simp_all only: last_snoc) simp
  then show ?thesis
    using printable_record [OF assms(1)] assms(2)
    by (simp add: line_reads_def dropCR_def)
qed

section \<open>Append and replay\<close>

text \<open>
  C24. What was appended is what is replayed: after any series of successful appends to a
  symbol whose log was empty, a journal opened on the same directory replays exactly
  those records, stamped with the time of their append, in the order of the appends, to
  any callback.
\<close>

theorem journal_replays_what_was_appended:
  assumes "handles_ok st" and "journal_log symbol st = []"
    and "file_log.appends record_JSON symbol ers st = (errs, st')" and "\<forall>err \<in> set errs. err = None"
    and "\<forall>(e, r) \<in> set ers. record_printable (stamp (fst e) r) \<and> length (record_JSON (stamp (fst e) r)) < maxToken"
    and "pathFor j = pathFor (fst st')"
  shows "Replay Unmarshal_record True symbol f (j, snd st') s = feed f (map (\<lambda>(e, r). stamp (fst e) r) ers) s"
proof -
  have lr: "\<forall>(e, r) \<in> set ers. line_reads Unmarshal_record (record_JSON (stamp (fst e) r)) (stamp (fst e) r)"
    using assms(5) record_line_reads by blast
  have errs: "\<forall>err \<in> set (fst (file_log.appends record_JSON symbol ers st)). err = None" using assms(3,4) by simp
  have empty: "log_holds Unmarshal_record (journal_log symbol st) [] []" using assms(2) log_holds_empty by simp
  have "log_holds Unmarshal_record (journal_log symbol (j, snd st')) (map (\<lambda>(e, r). stamp (fst e) r) ers) []"
    using appends_hold [OF assms(1) empty errs lr] assms(3,6) by (simp add: journal_log_def)
  from Replay_log [OF this, of f s] show ?thesis by (simp split: option.split)
qed

definition sample_journal :: "file_journal \<times> disk" where
  "sample_journal = (\<lparr>fjDir = ''data'', fjFsyncOnAppend = True, fjFiles = (\<lambda>_. None)\<rparr>, \<lambda>_. None)"

definition good_io :: io where "good_io = \<lparr>ioOpen = True, ioWritten = None, ioSync = True\<rparr>"

lemma sample_journal_ok: "handles_ok sample_journal" "journal_log s sample_journal = []"
  by (simp_all add: handles_ok_def journal_log_def sample_journal_def)

lemma sample_append:
  "file_append record_JSON (17, good_io) ''BTC'' sample_record sample_journal =
     (None, \<lparr>fjDir = ''data'', fjFsyncOnAppend = True,
             fjFiles = [''BTC'' \<mapsto> \<lparr>wFile = (''data'', ''BTC.journal''), wFailed = False\<rparr>]\<rparr>,
      [(''data'', ''BTC.journal'') \<mapsto> record_JSON sample_record @ [newline]])"
proof -
  have "sanitize ''BTC'' = ''BTC''" by code_simp
  then show ?thesis
    by (simp add: file_append_def Append_def openLocked_def write_line_def good_io_def sample_journal_def pathFor_def
        create_file_def append_file_def stamp_def Let_def fun_eq_iff)
      (simp add: sample_record_def)
qed

lemma sample_record_stamp: "stamp now sample_record = sample_record"
  by (simp add: stamp_def sample_record_def)

lemma sample_record_length: "length (record_JSON sample_record) < 1000"
  by code_simp

lemma sample_record_short: "length (record_JSON sample_record) < maxToken"
  using sample_record_length by (simp add: maxToken_def)

theorem journal_replays_what_was_appended_witness:
  "Replay Unmarshal_record True ''BTC'' (\<lambda>r rs. Some (None, rs @ [r]))
     (\<lparr>fjDir = ''data'', fjFsyncOnAppend = False, fjFiles = (\<lambda>_. None)\<rparr>,
      [(''data'', ''BTC.journal'') \<mapsto> record_JSON sample_record @ [newline]]) [] = Some (None, [sample_record])"
proof -
  let ?ers = "[((17, good_io), sample_record)]"
  let ?st = "snd (file_log.appends record_JSON ''BTC'' ?ers sample_journal)"
  let ?j = "\<lparr>fjDir = ''data'', fjFsyncOnAppend = False, fjFiles = (\<lambda>_. None)\<rparr>"
  have a: "file_log.appends record_JSON ''BTC'' ?ers sample_journal = ([None], ?st)"
    and d: "snd ?st = [(''data'', ''BTC.journal'') \<mapsto> record_JSON sample_record @ [newline]]" "fjDir (fst ?st) = ''data''"
    using sample_append by simp_all
  have e: "\<forall>err \<in> set [None :: journal_error option]. err = None" by simp
  have r: "\<forall>(e, r) \<in> set ?ers. record_printable (stamp (fst e) r) \<and> length (record_JSON (stamp (fst e) r)) < maxToken"
    using sample_record_printable sample_record_short by (simp add: sample_record_stamp)
  have p: "pathFor ?j = pathFor (fst ?st)" using d(2) by (simp add: pathFor_def fun_eq_iff)
  show ?thesis
    using journal_replays_what_was_appended [OF sample_journal_ok(1,2) a e r p,
        of "\<lambda>r rs. Some (None, rs @ [r])" "[]"] unfolding d(1) by (simp add: sample_record_stamp)
qed


section \<open>Torn lines\<close>

lemma split_lines_behind:
  "\<forall>l \<in> set ls. newline \<notin> set l \<Longrightarrow> newline \<notin> set l \<Longrightarrow>
   split_lines [] (concat (map (\<lambda>l. l @ [newline]) ls) @ l @ newline # rest) = ls @ l # split_lines [] rest"
  by (induction ls) (simp_all add: split_lines_cur)

lemma Replay_bad_line:
  assumes "list_all2 (line_reads unmarshal) ls rs" and "newline \<notin> set l" and "length l < maxToken"
    and "dropCR l \<noteq> []" and "unmarshal (dropCR l) = None"
    and "journal_log symbol (j, dk) = concat (map (\<lambda>l. l @ [newline]) ls) @ l @ newline # rest"
  shows "Replay unmarshal True symbol f (j, dk) s =
    (case feed f rs s of
       Some (None, s1) \<Rightarrow> Some (Some (ErrCorruptRecord (pathFor j symbol) (length rs + 1)), s1)
     | other \<Rightarrow> other)"
proof -
  have "dk (pathFor j symbol) = Some (journal_log symbol (j, dk))"
    using assms(6) by (cases "dk (pathFor j symbol)") (auto simp: journal_log_def)
  moreover have "split_lines [] (journal_log symbol (j, dk)) = ls @ l # split_lines [] rest"
    unfolding assms(6) by (rule split_lines_behind [OF line_reads_newline [OF assms(1)] assms(2)])
  moreover have "replay_lines unmarshal (pathFor j symbol) f (length rs) (l # split_lines [] rest) s1 =
      Some (Some (ErrCorruptRecord (pathFor j symbol) (length rs + 1)), s1)" for s1
    using assms(3-5) by simp
  ultimately show ?thesis
    using replay_lines_feed [OF assms(1), of "pathFor j symbol" f 0 "l # split_lines [] rest" s]
    by (simp add: Replay_def Let_def split: option.splits prod.splits)
qed


definition torn_journal :: "file_journal \<times> disk" where
  "torn_journal = (fst sample_journal, [(''data'', ''BTC.journal'') \<mapsto> ''{''])"

lemma sanitize_BTC: "sanitize ''BTC'' = ''BTC''"
  by code_simp

lemma torn_append:
  "Append record_JSON 17 good_io ''BTC'' sample_record torn_journal =
     (None, \<lparr>fjDir = ''data'', fjFsyncOnAppend = True,
             fjFiles = [''BTC'' \<mapsto> \<lparr>wFile = (''data'', ''BTC.journal''), wFailed = False\<rparr>]\<rparr>,
      [(''data'', ''BTC.journal'') \<mapsto> ''{'' @ record_JSON sample_record @ [newline]])"
  by (simp add: Append_def openLocked_def write_line_def good_io_def torn_journal_def sample_journal_def pathFor_def
      create_file_def append_file_def sample_record_stamp sanitize_BTC Let_def fun_eq_iff)



section \<open>Failed writes and failed syncs\<close>

lemma write_line_failed:
  assumes "write_line io symbol line w dk = (Some e, w1, dk1)"
  shows "wFailed w1"
  using assms by (auto simp: write_line_def split: if_splits option.splits)

lemma failed_handle:
  assumes "fjFiles j symbol = Some w" and "wFailed w"
  shows "Append marshal now io symbol r (j, dk) = (Some (WriteFailed symbol), j, dk)"
  using assms by (simp add: Append_def openLocked_def write_line_def Let_def fun_upd_idem)

text \<open>
  A write error is final for the handle: once an append has failed to write or to
  flush, every later append to that symbol fails and leaves the disk as it is, until the
  journal is closed. A torn line is therefore never continued by the process that wrote
  it.
\<close>

theorem write_error_is_final:
  assumes "Append marshal now io symbol r st = (Some err, st')" and "err \<in> {WriteFailed symbol, FlushFailed symbol}"
  shows "Append marshal now' io' symbol r' st' = (Some (WriteFailed symbol), st')"
proof -
  obtain j dk where st: "st = (j, dk)" by fastforce
  show ?thesis
  proof (cases "openLocked io symbol (j, dk)")
    case (Inl e)
    then have "err = e" using assms(1) by (simp add: st Append_def Let_def)
    moreover have "e = OpenFailed (pathFor j symbol)"
      using Inl by (auto simp: openLocked_def Let_def split: option.splits if_splits)
    ultimately show ?thesis using assms(2) by simp
  next
    case (Inr opened)
    obtain w j1 dk1 where o: "opened = (w, j1, dk1)" by (rule prod_cases3)
    let ?line = "marshal (stamp now r) @ [newline]"
    obtain e w1 dk2 where wl: "write_line io symbol ?line w dk1 = (e, w1, dk2)" by (rule prod_cases3)
    have "\<exists>e'. e = Some e'"
      using assms Inr o wl by (cases e) (auto simp: st Append_def Let_def split: if_splits)
    then obtain e' where e: "e = Some e'" by blast
    have "st' = (j1\<lparr>fjFiles := (fjFiles j1)(symbol \<mapsto> w1)\<rparr>, dk2)"
      using assms(1) Inr o wl e by (simp add: st Append_def Let_def)
    then show ?thesis using write_line_failed [OF wl [unfolded e]] by (simp add: failed_handle)
  qed
qed

definition torn_io :: io where "torn_io = \<lparr>ioOpen = True, ioWritten = Some 3, ioSync = True\<rparr>"

theorem write_error_is_final_witness:
  "Append record_JSON 18 good_io ''BTC'' sample_record (snd (Append record_JSON 17 torn_io ''BTC'' sample_record sample_journal)) =
     (Some (WriteFailed ''BTC''), snd (Append record_JSON 17 torn_io ''BTC'' sample_record sample_journal))"
proof -
  have "Append record_JSON 17 torn_io ''BTC'' sample_record sample_journal =
      (Some (FlushFailed ''BTC''), snd (Append record_JSON 17 torn_io ''BTC'' sample_record sample_journal))"
    using sample_record_length
    by (simp add: Append_def openLocked_def write_line_def torn_io_def sample_journal_def sample_record_stamp Let_def)
  from write_error_is_final [OF this, of 18 good_io sample_record] show ?thesis by simp
qed

text \<open>
  A failed sync does not take the line back: the append reports the error, so the
  market drops the operation, but the whole entry is in the file, and a replay of the
  journal delivers it behind the records that were there.
\<close>

theorem unsynced_record_is_replayed:
  assumes "handles_ok st" and "no_failed st" and "fjFsyncOnAppend (fst st)"
    and "log_holds Unmarshal_record (journal_log symbol st) rs []"
    and "record_printable (stamp now r)" and "length (record_JSON (stamp now r)) < maxToken"
  shows "\<exists>st'. Append record_JSON now \<lparr>ioOpen = True, ioWritten = None, ioSync = False\<rparr> symbol r st =
      (Some (FsyncFailed symbol), st') \<and>
    Replay Unmarshal_record True symbol f st' s = feed f (rs @ [stamp now r]) s"
proof -
  obtain j dk where st: "st = (j, dk)" by fastforce
  let ?io = "\<lparr>ioOpen = True, ioWritten = None, ioSync = False\<rparr>"
  have nf: "fjFiles j symbol = Some w \<Longrightarrow> \<not> wFailed w" for w using assms(2) by (auto simp: no_failed_def st)
  obtain st' where a: "Append record_JSON now ?io symbol r st = (Some (FsyncFailed symbol), st')"
    and b: "Append record_JSON now (?io\<lparr>ioSync := True\<rparr>) symbol r st = (None, st')"
    using assms(3) nf
    by (cases "fjFiles j symbol") (simp_all add: st Append_def openLocked_def write_line_def Let_def)
  have "journal_log symbol st' = journal_log symbol st @ journal_entry record_JSON (now, (?io\<lparr>ioSync := True\<rparr>)) r"
    using Append_cases [of "fst st" "snd st" record_JSON now "?io\<lparr>ioSync := True\<rparr>" symbol r None st'] assms(1) b by simp
  then have "log_holds Unmarshal_record (journal_log symbol (fst st', snd st')) (rs @ [stamp now r]) []"
    using log_holds_append [OF assms(4), of "[record_JSON (stamp now r)]" "[stamp now r]"]
      record_line_reads [OF assms(5,6)] by (simp add: journal_entry_def)
  from Replay_log [OF this, of f s] a show ?thesis by (auto split: option.split)
qed


theorem unsynced_record_is_replayed_witness:
  "\<exists>st'. Append record_JSON 17 \<lparr>ioOpen = True, ioWritten = None, ioSync = False\<rparr> ''BTC'' sample_record sample_journal =
      (Some (FsyncFailed ''BTC''), st') \<and>
    Replay Unmarshal_record True ''BTC'' (\<lambda>r rs. Some (None, rs @ [r])) st' [] = Some (None, [sample_record])"
proof -
  have "no_failed sample_journal" "fjFsyncOnAppend (fst sample_journal)"
    by (simp_all add: no_failed_def sample_journal_def)
  moreover have "log_holds Unmarshal_record (journal_log ''BTC'' sample_journal) [] []"
    by (simp add: sample_journal_ok log_holds_empty)
  ultimately show ?thesis
    using unsynced_record_is_replayed [OF sample_journal_ok(1), of "''BTC''" "[]" 17 sample_record
        "\<lambda>r rs. Some (None, rs @ [r])" "[]"] sample_record_printable sample_record_short
    by (simp add: sample_record_stamp)
qed

section \<open>Files\<close>

lemma sanitize_head: "sanitize (c # cs) = CHR ''.'' # b \<Longrightarrow> c = CHR ''.''"
  by (auto split: list.splits if_splits)

lemma sanitize_chars: "CHR ''/'' \<notin> set (sanitize cs)" "CHR 0x5C \<notin> set (sanitize cs)"
  by (induction cs rule: sanitize.induct) (auto split: list.splits)

lemma sanitize_no_dots: "sanitize cs \<noteq> a @ CHR ''.'' # CHR ''.'' # b"
proof (induction cs arbitrary: a rule: sanitize.induct)
  case (2 c cs)
  show ?case
  proof (cases "c = CHR ''/'' \<or> c = CHR 0x5C")
    case True
    then show ?thesis using "2.IH"(1) by (cases a) auto
  next
    case slash: False
    show ?thesis
    proof (cases cs)
      case Nil
      then show ?thesis using slash by (cases a) auto
    next
      case (Cons d ds)
      show ?thesis
      proof (cases "c = CHR ''.'' \<and> d = CHR ''.''")
        case True
        then show ?thesis using "2.IH"(2) [OF slash Cons] slash Cons by (cases a) auto
      next
        case dots: False
        have "sanitize cs \<noteq> CHR ''.'' # b" if "c = CHR ''.''"
          using dots that Cons sanitize_head [of d ds] by blast
        then show ?thesis using "2.IH"(3) [OF slash Cons dots] slash dots Cons by (cases a) auto
      qed
    qed
  qed
qed simp


lemma sanitize_fixed:
  "CHR ''/'' \<notin> set cs \<Longrightarrow> CHR 0x5C \<notin> set cs \<Longrightarrow> (\<forall>a b. cs \<noteq> a @ CHR ''.'' # CHR ''.'' # b) \<Longrightarrow> sanitize cs = cs"
proof (induction cs rule: sanitize.induct)
  case (2 c cs)
  have tail_ok: "cs \<noteq> a @ CHR ''.'' # CHR ''.'' # b" for a b using "2.prems"(3) by (metis append_Cons)
  have dots: "\<not> (c = CHR ''.'' \<and> d = CHR ''.'')" if "cs = d # ds" for d ds
    using "2.prems"(3) that by (metis append_Nil)
  show ?case
  proof (cases cs)
    case Nil
    then show ?thesis using "2.prems"(1,2) by auto
  next
    case (Cons d ds)
    have "sanitize cs = cs" using "2.IH"(3) [OF _ Cons dots [OF Cons]] "2.prems"(1,2) tail_ok by auto
    then show ?thesis using "2.prems"(1,2) dots [OF Cons] Cons by auto
  qed
qed simp

lemma sanitize_idem [simp]: "sanitize (sanitize cs) = sanitize cs"
  by (intro sanitize_fixed sanitize_chars allI sanitize_no_dots)

text \<open>
  No symbol escapes the journal directory: whatever bytes a symbol has, its file is a
  name in that directory that ends in \<^verbatim>\<open>.journal\<close>, with no slash, no backslash and no two
  dots in a row, and the sanitised symbol names the same file.
\<close>

theorem journal_stays_in_directory:
  "\<exists>name. pathFor j symbol = (fjDir j, name @ ''.journal'') \<and> CHR ''/'' \<notin> set name \<and> CHR 0x5C \<notin> set name \<and>
     (\<forall>a b. name \<noteq> a @ CHR ''.'' # CHR ''.'' # b) \<and> pathFor j name = pathFor j symbol"
  by (intro exI [of _ "sanitize symbol"] conjI allI sanitize_chars sanitize_no_dots) (simp_all add: pathFor_def)

lemma Append_log:
  assumes "handles_ok st" and "Append marshal now io symbol r st = (None, st')"
  shows "journal_log other st' =
    (if sanitize other = sanitize symbol then journal_log other st @ marshal (stamp now r) @ [newline]
     else journal_log other st)"
proof -
  have a: "journal_log symbol st' = journal_log symbol st @ marshal (stamp now r) @ [newline]"
    "other_file symbol other \<Longrightarrow> journal_log other st' = journal_log other st"
    using Append_cases [of "fst st" "snd st" marshal now io symbol r None st'] assms by (simp_all add: journal_entry_def)
  show ?thesis
  proof (cases "sanitize other = sanitize symbol")
    case True
    then have "pathFor j other = pathFor j symbol" for j by simp
    then have "journal_log other z = journal_log symbol z" for z unfolding journal_log_def by metis
    then show ?thesis using a(1) True by simp
  qed (use a(2) in \<open>simp add: other_file_def\<close>)
qed

text \<open>
  Isolation, and its limit: an append that succeeds extends the log of every symbol
  with the same sanitised name by the entry, and leaves all others alone. Symbols such as
  \<^verbatim>\<open>BTC/USDT\<close> and \<^verbatim>\<open>BTC_USDT\<close>, each with a market of its own, share one file.
\<close>

theorem append_reaches_every_alias:
  assumes "handles_ok st" and "Append marshal now io symbol r st = (None, st')"
  shows "journal_log other st' =
    (if sanitize other = sanitize symbol then journal_log other st @ marshal (stamp now r) @ [newline]
     else journal_log other st)"
  by (rule Append_log [OF assms])

theorem append_reaches_every_alias_witness:
  "journal_log ''BTC_USDT'' (snd (Append record_JSON 17 good_io ''BTC/USDT'' sample_record sample_journal)) =
     record_JSON sample_record @ [newline]"
proof -
  have "Append record_JSON 17 good_io ''BTC/USDT'' sample_record sample_journal =
      (None, snd (Append record_JSON 17 good_io ''BTC/USDT'' sample_record sample_journal))"
    by (simp add: Append_def openLocked_def write_line_def good_io_def sample_journal_def Let_def)
  from append_reaches_every_alias [OF sample_journal_ok(1) this, of "''BTC_USDT''"]
  show ?thesis by (simp add: sample_journal_ok sample_record_stamp)
qed

end
