(* ===== verification/Persistence.thy ===== *)
theory Persistence
  imports Snapshot
begin

text \<open>
  \<^verbatim>\<open>persistance/redis.go\<close>: the snapshot in Redis. The store is a map from keys to byte
  strings, absent when no client is configured; the protobuf codec and the success of
  each command are arguments.
\<close>

type_synonym redis = "(string \<Rightarrow> string option) option"

definition book_key :: "string \<Rightarrow> string" where
  "book_key symbol = ''Orderbook_'' @ symbol"

definition CommitOrderBook :: "(proto_book \<Rightarrow> string option) \<Rightarrow> bool \<Rightarrow> orderbook \<Rightarrow> redis \<Rightarrow> redis option" where
  "CommitOrderBook encode setOk ob rdb =
     (case rdb of
        None \<Rightarrow> Some None
      | Some store \<Rightarrow> do {
          pb \<leftarrow> book_ToProto ob;
          Some (case encode pb of
                  None \<Rightarrow> Some store
                | Some content \<Rightarrow>
                    if setOk then Some (store(book_key (obSymbol ob) \<mapsto> content)) else Some store)
        })"

definition LoadOrderbook :: "(string \<Rightarrow> proto_book option) \<Rightarrow> bool \<Rightarrow> redis \<Rightarrow> string \<Rightarrow> proto_panic + orderbook option" where
  "LoadOrderbook decode getOk rdb symbol =
     (case rdb of
        None \<Rightarrow> Inr None
      | Some store \<Rightarrow>
          if \<not> getOk then Inr None
          else case store (book_key symbol) of
            None \<Rightarrow> Inr None
          | Some content \<Rightarrow>
              if content = '''' then Inr None
              else case decode content of
                None \<Rightarrow> Inr None
              | Some pb \<Rightarrow>
                  (case OrderbookFromProto pb of Inl e \<Rightarrow> Inl e | Inr ob \<Rightarrow> Inr (Some ob)))"

text \<open>What is committed is what is loaded, as far as the codec keeps it.\<close>

lemma commit_load:
  assumes "book_wf ob" and "snapshot_printable ob"
    and codec: "\<And>pb. book_ToProto ob = Some pb \<Longrightarrow> \<exists>content. encode pb = Some content \<and> content \<noteq> [] \<and> decode content = Some pb"
  shows "\<exists>store' ob'. CommitOrderBook encode True ob (Some store) = Some (Some store') \<and>
    LoadOrderbook decode True (Some store') (obSymbol ob) = Inr (Some ob') \<and>
    book_wf ob' \<and> (book_indexed ob \<longrightarrow> book_indexed ob') \<and> ref_of ob' = (ref_of ob)\<lparr>rL2 := False, rDeltas := []\<rparr> \<and>
    (\<forall>k. k \<noteq> book_key (obSymbol ob) \<longrightarrow> store' k = store k)"
proof -
  obtain pb where pb: "book_ToProto ob = Some pb" using book_ToProto_view [OF assms(1)] by blast
  obtain content where c: "encode pb = Some content" "content \<noteq> []" "decode content = Some pb" using codec [OF pb] by blast
  from snapshot_restores [OF assms(1,2) pb] obtain ob' where "OrderbookFromProto pb = Inr ob'" "book_wf ob'"
    "book_indexed ob \<longrightarrow> book_indexed ob'" "ref_of ob' = (ref_of ob)\<lparr>rL2 := False, rDeltas := []\<rparr>" by blast
  then show ?thesis
    using pb c by (intro exI [of _ "store(book_key (obSymbol ob) \<mapsto> content)"] exI [of _ ob'])
      (simp add: CommitOrderBook_def LoadOrderbook_def)
qed

lemma commit_returns: "book_wf ob \<Longrightarrow> CommitOrderBook encode setOk ob rdb \<noteq> None"
  using book_ToProto_view [of ob] by (auto simp: CommitOrderBook_def split: option.splits)

end
