(* ===== verification/Market.thy ===== *)
theory Market
  imports Journal Engine Persistence
begin

text \<open>
  \<^verbatim>\<open>market/market.go\<close>: one market, the single writer of its book. The journal and the
  snapshot store are reached through the operations given as arguments (\<open>log_append\<close>,
  \<open>replay\<close>, \<open>commit\<close>), which act on the state \<open>'j\<close> and \<open>'r\<close> of the outside world; the
  callbacks of \<^verbatim>\<open>Options\<close> are flags, and the calls made to them are the events returned,
  in order. Tracing is left out; the calls to the metrics are modelled in \<open>Metrics\<close>. \<open>None\<close> is
  not returning.
\<close>

section \<open>Options, operations, market\<close>

record options =
  optInboxSize :: int
  optOnMatch :: bool
  optOnBook :: bool
  optOnReject :: bool
  optOnL2 :: bool
  optPersist :: bool

definition inboxDefault :: int where "inboxDefault = 1024"

datatype op_kind = opNewOrder | opCancel | opModify

record op =
  opKind :: op_kind
  opOrder :: order
  opNewPrice :: px
  opNewVolume :: qty

datatype sink_event =
    MatchSink string "match list"
  | BookSink orderbook
  | RejectSink string order string

record market =
  mkSymbol :: string
  mkInbox :: "op list"
  mkCapacity :: nat
  mkBook :: orderbook
  mkOpts :: options

section \<open>Construction and crash recovery\<close>

definition applyJournalRecord :: "orderbook \<Rightarrow> journal_record \<Rightarrow> orderbook option" where
  "applyJournalRecord book r =
     (if jrKind r = RecNew then map_option snd (MatchAndAddNewOrder book (jrOrder r))
      else if jrKind r = RecCancel then Some (snd (CancelOrder book (jrOrderID r)))
      else if jrKind r = RecModify then map_option snd (ModifyOrder book (jrOrderID r) (jrNewPrice r) (jrNewVolume r))
      else Some book)"

definition replay_callback :: "journal_record \<Rightarrow> orderbook \<Rightarrow> (journal_error option \<times> orderbook) option" where
  "replay_callback r book = map_option (Pair None) (applyJournalRecord book r)"

text \<open>
  \<open>loaded\<close> is what \<^verbatim>\<open>persistance.LoadOrderbook\<close> gives, a panic included; \<open>replay\<close> is the
  journal's \<^verbatim>\<open>Replay\<close>, run with the callback above.
\<close>

definition newMarket :: "string \<Rightarrow> proto_panic + orderbook option
    \<Rightarrow> (string \<Rightarrow> (journal_record \<Rightarrow> orderbook \<Rightarrow> (journal_error option \<times> orderbook) option)
        \<Rightarrow> orderbook \<Rightarrow> (journal_error option \<times> orderbook) option)
    \<Rightarrow> string \<Rightarrow> options \<Rightarrow> (proto_panic + market) option" where
  "newMarket supportedSymbols loaded replay symbol opts0 =
     (let opts = (if optInboxSize opts0 \<le> 0 then opts0\<lparr>optInboxSize := inboxDefault\<rparr> else opts0) in
      case loaded of
        Inl e \<Rightarrow> Some (Inl e)
      | Inr snap \<Rightarrow>
          let book0 = (case LoadOrFetchOrderbook supportedSymbols snap symbol of
                         Inl _ \<Rightarrow> NewOrderbook symbol | Inr b \<Rightarrow> b) in
          do {
            (err, book1) \<leftarrow> replay symbol replay_callback book0;
            let book2 = (if optOnL2 opts then SetL2Sink True book1 else book1);
            Some (Inr \<lparr>mkSymbol = symbol, mkInbox = [], mkCapacity = nat (optInboxSize opts),
                       mkBook = book2, mkOpts = opts\<rparr>)
          })"

section \<open>Enqueueing\<close>

text \<open>A send on a full inbox blocks: the value is \<open>None\<close> until there is room.\<close>

definition send_op :: "op \<Rightarrow> market \<Rightarrow> market option" where
  "send_op o' m = (if length (mkInbox m) < mkCapacity m then Some (m\<lparr>mkInbox := mkInbox m @ [o']\<rparr>) else None)"

definition new_op :: "order \<Rightarrow> op" where
  "new_op ord = \<lparr>opKind = opNewOrder, opOrder = ord, opNewPrice = 0, opNewVolume = 0\<rparr>"

definition cancel_op :: "order_id \<Rightarrow> op" where
  "cancel_op i = \<lparr>opKind = opCancel, opOrder = zero_order\<lparr>oID := i\<rparr>, opNewPrice = 0, opNewVolume = 0\<rparr>"

definition modify_op :: "order_id \<Rightarrow> px \<Rightarrow> qty \<Rightarrow> op" where
  "modify_op i newPrice newVolume =
     \<lparr>opKind = opModify, opOrder = zero_order\<lparr>oID := i\<rparr>, opNewPrice = newPrice, opNewVolume = newVolume\<rparr>"

definition Market_Submit :: "order \<Rightarrow> market \<Rightarrow> market option" where
  "Market_Submit ord m = send_op (new_op ord) m"

definition Market_Cancel :: "order_id \<Rightarrow> market \<Rightarrow> market option" where
  "Market_Cancel i m = send_op (cancel_op i) m"

definition Market_Modify :: "order_id \<Rightarrow> px \<Rightarrow> qty \<Rightarrow> market \<Rightarrow> market option" where
  "Market_Modify i newPrice newVolume m = send_op (modify_op i newPrice newVolume) m"

section \<open>Handling one operation\<close>

definition journal_append_failed :: string where
  "journal_append_failed = ''journal_append_failed''"

definition new_record :: "order \<Rightarrow> journal_record" where
  "new_record ord = zero_record\<lparr>jrKind := RecNew, jrOrder := ord\<rparr>"

definition cancel_record :: "string \<Rightarrow> order_id \<Rightarrow> journal_record" where
  "cancel_record symbol i = zero_record\<lparr>jrKind := RecCancel, jrOrderID := i, jrSymbol := symbol\<rparr>"

definition modify_record :: "string \<Rightarrow> order_id \<Rightarrow> px \<Rightarrow> qty \<Rightarrow> journal_record" where
  "modify_record symbol i newPrice newVolume =
     zero_record\<lparr>jrKind := RecModify, jrOrderID := i, jrSymbol := symbol, jrNewPrice := newPrice, jrNewVolume := newVolume\<rparr>"

text \<open>
  The three branches of the switch. The flag of the value is whether control reaches
  the code behind the switch (\<open>False\<close> is an early return).
\<close>

definition handle_new :: "('env \<Rightarrow> string \<Rightarrow> journal_record \<Rightarrow> 'j \<Rightarrow> journal_error option \<times> 'j)
    \<Rightarrow> 'env \<Rightarrow> op \<Rightarrow> market \<Rightarrow> 'j \<Rightarrow> (bool \<times> market \<times> 'j \<times> sink_event list) option" where
  "handle_new log_append env o' m j =
     (let ord = opOrder o';
          reject = (\<lambda>why. if optOnReject (mkOpts m) then [RejectSink (mkSymbol m) ord why] else []) in
      if Validate ord \<noteq> None then Some (False, m, j, reject RejectInvalidOrder)
      else case log_append env (mkSymbol m) (new_record ord) j of
        (Some e, j1) \<Rightarrow> Some (False, m, j1, reject journal_append_failed)
      | (None, j1) \<Rightarrow> do {
          (res, book1) \<leftarrow> MatchAndAddNewOrder (mkBook m) ord;
          if \<not> rAccepted res then Some (False, m\<lparr>mkBook := book1\<rparr>, j1, reject (rReason res))
          else if rMatches res = [] then Some (True, m\<lparr>mkBook := book1\<rparr>, j1, [])
          else do {
            (promoted, book2) \<leftarrow> HandleConditionalOrders book1 (rMatches res);
            Some (True, m\<lparr>mkBook := book2\<rparr>, j1,
                  if optOnMatch (mkOpts m) then [MatchSink (mkSymbol m) (rMatches res @ promoted)] else [])
          }
        })"

definition handle_cancel :: "('env \<Rightarrow> string \<Rightarrow> journal_record \<Rightarrow> 'j \<Rightarrow> journal_error option \<times> 'j)
    \<Rightarrow> 'env \<Rightarrow> op \<Rightarrow> market \<Rightarrow> 'j \<Rightarrow> (bool \<times> market \<times> 'j \<times> sink_event list) option" where
  "handle_cancel log_append env o' m j =
     (case log_append env (mkSymbol m) (cancel_record (mkSymbol m) (oID (opOrder o'))) j of
        (Some e, j1) \<Rightarrow> Some (False, m, j1, [])
      | (None, j1) \<Rightarrow> Some (True, m\<lparr>mkBook := snd (CancelOrder (mkBook m) (oID (opOrder o')))\<rparr>, j1, []))"

definition handle_modify :: "('env \<Rightarrow> string \<Rightarrow> journal_record \<Rightarrow> 'j \<Rightarrow> journal_error option \<times> 'j)
    \<Rightarrow> 'env \<Rightarrow> op \<Rightarrow> market \<Rightarrow> 'j \<Rightarrow> (bool \<times> market \<times> 'j \<times> sink_event list) option" where
  "handle_modify log_append env o' m j =
     (let i = oID (opOrder o') in
      case log_append env (mkSymbol m) (modify_record (mkSymbol m) i (opNewPrice o') (opNewVolume o')) j of
        (Some e, j1) \<Rightarrow> Some (False, m, j1, [])
      | (None, j1) \<Rightarrow> do {
          (res, book1) \<leftarrow> ModifyOrder (mkBook m) i (opNewPrice o') (opNewVolume o');
          Some (True, m\<lparr>mkBook := book1\<rparr>, j1,
            if \<not> rAccepted res
            then (if optOnReject (mkOpts m) then [RejectSink (mkSymbol m) (opOrder o') (rReason res)] else [])
            else if rMatches res \<noteq> [] \<and> optOnMatch (mkOpts m)
            then [MatchSink (mkSymbol m) (rMatches res)] else [])
        })"

definition handle :: "('env \<Rightarrow> string \<Rightarrow> journal_record \<Rightarrow> 'j \<Rightarrow> journal_error option \<times> 'j)
    \<Rightarrow> (orderbook \<Rightarrow> 'r \<Rightarrow> 'r option) \<Rightarrow> 'env \<Rightarrow> op \<Rightarrow> market \<Rightarrow> 'j \<Rightarrow> 'r
    \<Rightarrow> (market \<times> 'j \<times> 'r \<times> sink_event list) option" where
  "handle log_append commit env o' m j db =
     do {
       (goes_on, m1, j1, evs) \<leftarrow> (case opKind o' of
            opNewOrder \<Rightarrow> handle_new log_append env o' m j
          | opCancel \<Rightarrow> handle_cancel log_append env o' m j
          | opModify \<Rightarrow> handle_modify log_append env o' m j);
       if \<not> goes_on then Some (m1, j1, db, evs)
       else do {
         db1 \<leftarrow> (if optPersist (mkOpts m1) then commit (mkBook m1) db else Some db);
         Some (m1, j1, db1, evs @ (if optOnBook (mkOpts m1) then [BookSink (mkBook m1)] else []))
       }
     }"

section \<open>The goroutine\<close>

text \<open>
  \<^verbatim>\<open>run\<close> is a loop around a \<^verbatim>\<open>select\<close> of two ready cases, the cancelled context and the
  inbox; when both are ready Go takes either. Producers send concurrently. A step is
  labelled with what happens; \<open>handle\<close> reads neither the inbox nor the context, so it
  is one step.
\<close>

record ('j, 'r) config =
  cfMarket :: market
  cfJournal :: 'j
  cfStore :: 'r
  cfCancelled :: bool
  cfRunning :: bool

datatype 'env label = Sent op | Handled 'env op "sink_event list" | ContextDone | Stopped

inductive run_step :: "('env \<Rightarrow> string \<Rightarrow> journal_record \<Rightarrow> 'j \<Rightarrow> journal_error option \<times> 'j)
    \<Rightarrow> (orderbook \<Rightarrow> 'r \<Rightarrow> 'r option) \<Rightarrow> ('j, 'r) config \<Rightarrow> 'env label \<Rightarrow> ('j, 'r) config \<Rightarrow> bool"
  for log_append commit where
  send: "send_op o' (cfMarket c) = Some m \<Longrightarrow> run_step log_append commit c (Sent o') (c\<lparr>cfMarket := m\<rparr>)"
| receive: "cfRunning c \<Longrightarrow> mkInbox (cfMarket c) = o' # os \<Longrightarrow>
    handle log_append commit env o' ((cfMarket c)\<lparr>mkInbox := os\<rparr>) (cfJournal c) (cfStore c) = Some (m, j, db, evs) \<Longrightarrow>
    run_step log_append commit c (Handled env o' evs) (c\<lparr>cfMarket := m, cfJournal := j, cfStore := db\<rparr>)"
| context_done: "run_step log_append commit c ContextDone (c\<lparr>cfCancelled := True\<rparr>)"
| stop: "cfRunning c \<Longrightarrow> cfCancelled c \<Longrightarrow> run_step log_append commit c Stopped (c\<lparr>cfRunning := False\<rparr>)"

inductive run_trace :: "('env \<Rightarrow> string \<Rightarrow> journal_record \<Rightarrow> 'j \<Rightarrow> journal_error option \<times> 'j)
    \<Rightarrow> (orderbook \<Rightarrow> 'r \<Rightarrow> 'r option) \<Rightarrow> ('j, 'r) config \<Rightarrow> 'env label list \<Rightarrow> ('j, 'r) config \<Rightarrow> bool"
  for log_append commit where
  start: "run_trace log_append commit c [] c"
| extend: "run_trace log_append commit c ls c1 \<Longrightarrow> run_step log_append commit c1 l c2 \<Longrightarrow>
    run_trace log_append commit c (ls @ [l]) c2"

definition start_config :: "market \<Rightarrow> 'j \<Rightarrow> 'r \<Rightarrow> ('j, 'r) config" where
  "start_config m j db = \<lparr>cfMarket = m, cfJournal = j, cfStore = db, cfCancelled = False, cfRunning = True\<rparr>"

end
