(* ===== verification/Metrics.thy ===== *)
theory Metrics
  imports Market
begin

text \<open>
  \<^verbatim>\<open>metrics/metrics.go\<close> and the calls \<^verbatim>\<open>market.go\<close> makes to it. The Prometheus client is not
  part of the repository: what is modelled is which collector is called, with which
  labels and which value, in order. The two durations of an operation, measured with the
  clock, are inputs in nanoseconds; the conversion of values to \<^verbatim>\<open>float64\<close> is left out.
\<close>

section \<open>The collectors\<close>

datatype collector = ordersTotal | matchesTotal | opDuration | journalAppendDuration | bookLevels | bookOrders | activeMarkets

datatype vec_kind = CounterVec | GaugeVec | HistogramVec

fun collector_name :: "collector \<Rightarrow> string" where
  "collector_name ordersTotal = ''gun_orders_total''"
| "collector_name matchesTotal = ''gun_matches_total''"
| "collector_name opDuration = ''gun_op_duration_seconds''"
| "collector_name journalAppendDuration = ''gun_journal_append_duration_seconds''"
| "collector_name bookLevels = ''gun_book_levels''"
| "collector_name bookOrders = ''gun_book_orders''"
| "collector_name activeMarkets = ''gun_active_markets''"

text \<open>The kind of each collector and its label names; \<^verbatim>\<open>WithLabelValues\<close> wants one value for each.\<close>

fun collector_kind :: "collector \<Rightarrow> vec_kind" where
  "collector_kind ordersTotal = CounterVec"
| "collector_kind matchesTotal = CounterVec"
| "collector_kind opDuration = HistogramVec"
| "collector_kind journalAppendDuration = HistogramVec"
| "collector_kind bookLevels = GaugeVec"
| "collector_kind bookOrders = GaugeVec"
| "collector_kind activeMarkets = GaugeVec"

fun collector_labels :: "collector \<Rightarrow> string list" where
  "collector_labels ordersTotal = [''symbol'', ''result'']"
| "collector_labels matchesTotal = [''symbol'']"
| "collector_labels opDuration = [''symbol'', ''op'']"
| "collector_labels journalAppendDuration = []"
| "collector_labels bookLevels = [''symbol'', ''side'']"
| "collector_labels bookOrders = [''symbol'', ''side'']"
| "collector_labels activeMarkets = []"

datatype metric_call =
    Inc collector "string list"
  | AddTo collector "string list" int
  | SetTo collector "string list" int
  | Observe collector "string list" int64

definition metrics_Order :: "string \<Rightarrow> string \<Rightarrow> metric_call list" where
  "metrics_Order symbol res = [Inc ordersTotal [symbol, res]]"

definition metrics_Matches :: "string \<Rightarrow> int \<Rightarrow> metric_call list" where
  "metrics_Matches symbol n = (if n \<le> 0 then [] else [AddTo matchesTotal [symbol] n])"

definition metrics_OpDuration :: "string \<Rightarrow> string \<Rightarrow> int64 \<Rightarrow> metric_call list" where
  "metrics_OpDuration symbol opName d = [Observe opDuration [symbol, opName] d]"

definition metrics_JournalAppendDuration :: "int64 \<Rightarrow> metric_call list" where
  "metrics_JournalAppendDuration d = [Observe journalAppendDuration [] d]"

definition metrics_BookDepth :: "string \<Rightarrow> int \<Rightarrow> int \<Rightarrow> int \<Rightarrow> int \<Rightarrow> metric_call list" where
  "metrics_BookDepth symbol buyLevels buyOrders sellLevels sellOrders =
     [SetTo bookLevels [symbol, ''buy''] buyLevels,
      SetTo bookLevels [symbol, ''sell''] sellLevels,
      SetTo bookOrders [symbol, ''buy''] buyOrders,
      SetTo bookOrders [symbol, ''sell''] sellOrders]"

definition metrics_MarketCount :: "int \<Rightarrow> metric_call list" where
  "metrics_MarketCount n = [SetTo activeMarkets [] n]"

section \<open>What the handler measures\<close>

text \<open>
  The branches of \<^verbatim>\<open>handle\<close> with the calls they make; \<open>jd\<close> is the duration of the journal
  append and \<open>d\<close> that of the operation.
\<close>

definition new_metrics :: "('env \<Rightarrow> string \<Rightarrow> journal_record \<Rightarrow> 'j \<Rightarrow> journal_error option \<times> 'j)
    \<Rightarrow> 'env \<Rightarrow> int64 \<Rightarrow> op \<Rightarrow> market \<Rightarrow> 'j \<Rightarrow> metric_call list option" where
  "new_metrics log_append env jd o' m j =
     (let ord = opOrder o' in
      if Validate ord \<noteq> None then Some (metrics_Order (mkSymbol m) (''rejected_'' @ RejectInvalidOrder))
      else case log_append env (mkSymbol m) (new_record ord) j of
        (Some e, j1) \<Rightarrow> Some (metrics_Order (mkSymbol m) ''rejected_journal_append_failed'')
      | (None, j1) \<Rightarrow> do {
          (res, book1) \<leftarrow> MatchAndAddNewOrder (mkBook m) ord;
          if \<not> rAccepted res
          then Some (metrics_JournalAppendDuration jd @ metrics_Order (mkSymbol m) (''rejected_'' @ rReason res))
          else if rMatches res = []
          then Some (metrics_JournalAppendDuration jd @ metrics_Order (mkSymbol m) ''accepted'')
          else do {
            (promoted, book2) \<leftarrow> HandleConditionalOrders book1 (rMatches res);
            Some (metrics_JournalAppendDuration jd @ metrics_Order (mkSymbol m) ''accepted'' @
              metrics_Matches (mkSymbol m) (int (length (rMatches res @ promoted))))
          }
        })"

definition cancel_metrics :: "('env \<Rightarrow> string \<Rightarrow> journal_record \<Rightarrow> 'j \<Rightarrow> journal_error option \<times> 'j)
    \<Rightarrow> 'env \<Rightarrow> int64 \<Rightarrow> op \<Rightarrow> market \<Rightarrow> 'j \<Rightarrow> metric_call list option" where
  "cancel_metrics log_append env jd o' m j =
     (case log_append env (mkSymbol m) (cancel_record (mkSymbol m) (oID (opOrder o'))) j of
        (Some e, j1) \<Rightarrow> Some []
      | (None, j1) \<Rightarrow> Some (metrics_JournalAppendDuration jd))"

definition modify_metrics :: "('env \<Rightarrow> string \<Rightarrow> journal_record \<Rightarrow> 'j \<Rightarrow> journal_error option \<times> 'j)
    \<Rightarrow> 'env \<Rightarrow> int64 \<Rightarrow> op \<Rightarrow> market \<Rightarrow> 'j \<Rightarrow> metric_call list option" where
  "modify_metrics log_append env jd o' m j =
     (let i = oID (opOrder o') in
      case log_append env (mkSymbol m) (modify_record (mkSymbol m) i (opNewPrice o') (opNewVolume o')) j of
        (Some e, j1) \<Rightarrow> Some []
      | (None, j1) \<Rightarrow> do {
          (res, book1) \<leftarrow> ModifyOrder (mkBook m) i (opNewPrice o') (opNewVolume o');
          Some (metrics_JournalAppendDuration jd @
            (if rAccepted res then metrics_Matches (mkSymbol m) (int (length (rMatches res))) else []))
        })"

text \<open>The calls behind the switch are made when the branch has not returned.\<close>

definition op_name :: "op_kind \<Rightarrow> string" where
  "op_name k = (case k of opNewOrder \<Rightarrow> ''new'' | opCancel \<Rightarrow> ''cancel'' | opModify \<Rightarrow> ''modify'')"

definition behind_switch :: "int64 \<Rightarrow> op \<Rightarrow> market \<Rightarrow> metric_call list" where
  "behind_switch d o' m =
     metrics_OpDuration (mkSymbol m) (op_name (opKind o')) d @
     metrics_BookDepth (mkSymbol m) (LevelCount BUY (mkBook m)) (OrderCount BUY (mkBook m))
       (LevelCount SELL (mkBook m)) (OrderCount SELL (mkBook m))"

definition handle_metrics :: "('env \<Rightarrow> string \<Rightarrow> journal_record \<Rightarrow> 'j \<Rightarrow> journal_error option \<times> 'j)
    \<Rightarrow> 'env \<Rightarrow> int64 \<Rightarrow> int64 \<Rightarrow> op \<Rightarrow> market \<Rightarrow> 'j \<Rightarrow> metric_call list option" where
  "handle_metrics log_append env jd d o' m j =
     (case opKind o' of
        opNewOrder \<Rightarrow> do {
          calls \<leftarrow> new_metrics log_append env jd o' m j;
          (goes_on, m1, j1, evs) \<leftarrow> handle_new log_append env o' m j;
          Some (calls @ (if goes_on then behind_switch d o' m1 else []))
        }
      | opCancel \<Rightarrow> do {
          calls \<leftarrow> cancel_metrics log_append env jd o' m j;
          (goes_on, m1, j1, evs) \<leftarrow> handle_cancel log_append env o' m j;
          Some (calls @ (if goes_on then behind_switch d o' m1 else []))
        }
      | opModify \<Rightarrow> do {
          calls \<leftarrow> modify_metrics log_append env jd o' m j;
          (goes_on, m1, j1, evs) \<leftarrow> handle_modify log_append env o' m j;
          Some (calls @ (if goes_on then behind_switch d o' m1 else []))
        })"

end
