(* ===== verification/MarketSpec.thy ===== *)
theory MarketSpec
  imports Market EngineInv
begin

text \<open>
  What a market keeps: every operation it handles returns and preserves each
  invariant of the book that the engine preserves, and the goroutine handles the
  operations in the order in which they were sent.
\<close>

section \<open>One operation\<close>

definition book_only :: "market \<Rightarrow> market \<Rightarrow> bool" where
  "book_only m m' \<longleftrightarrow> mkSymbol m' = mkSymbol m \<and> mkInbox m' = mkInbox m \<and> mkCapacity m' = mkCapacity m \<and>
     mkOpts m' = mkOpts m"

lemma book_only_simps [simp]: "book_only m m" "book_only m (m\<lparr>mkBook := b\<rparr>)"
  by (simp_all add: book_only_def)

context unconditional_invariant
begin

lemma handle_new_keeps:
  assumes I: "I (mkBook m)"
  shows "\<exists>go m' j' evs. handle_new log_append env o' m j = Some (go, m', j', evs) \<and> I (mkBook m') \<and> book_only m m'"
proof -
  obtain err j1 where a: "log_append env (mkSymbol m) (new_record (opOrder o')) j = (err, j1)" by fastforce
  obtain r b1 where r: "MatchAndAddNewOrder (mkBook m) (opOrder o') = Some (r, b1)" "I b1"
    using new_order_keeps [OF I always_fresh] by blast
  obtain ms b2 where c: "HandleConditionalOrders b1 (rMatches r) = Some (ms, b2)" "I b2"
    using conditional_keeps [OF r(2)] by blast
  show ?thesis using I a r c by (cases err) (auto simp: handle_new_def Let_def)
qed

lemma handle_cancel_keeps:
  assumes I: "I (mkBook m)"
  shows "\<exists>go m' j' evs. handle_cancel log_append env o' m j = Some (go, m', j', evs) \<and> I (mkBook m') \<and> book_only m m'"
  using I cancel_order_keeps [OF I] by (auto simp: handle_cancel_def split: prod.split option.split)

lemma handle_modify_keeps:
  assumes I: "I (mkBook m)" and v: "amount (opNewVolume o')"
  shows "\<exists>go m' j' evs. handle_modify log_append env o' m j = Some (go, m', j', evs) \<and> I (mkBook m') \<and> book_only m m'"
proof -
  obtain r b1 where r: "ModifyOrder (mkBook m) (oID (opOrder o')) (opNewPrice o') (opNewVolume o') = Some (r, b1)" "I b1"
    using modify_keeps [OF I v] by blast
  then show ?thesis using I by (auto simp: handle_modify_def Let_def split: prod.split option.split)
qed

lemma handle_keeps:
  assumes I: "I (mkBook m)" and v: "amount (opNewVolume o')"
    and commit: "\<And>ob db. I ob \<Longrightarrow> commit ob db \<noteq> None"
  shows "\<exists>m' j' db' evs. handle log_append commit env o' m j db = Some (m', j', db', evs) \<and> I (mkBook m') \<and> book_only m m'"
proof -
  let ?h = "case opKind o' of
      opNewOrder \<Rightarrow> handle_new log_append env o' m j
    | opCancel \<Rightarrow> handle_cancel log_append env o' m j
    | opModify \<Rightarrow> handle_modify log_append env o' m j"
  have "\<exists>go m' j' evs. ?h = Some (go, m', j', evs) \<and> I (mkBook m') \<and> book_only m m'"
  proof (cases "opKind o'")
    case opNewOrder
    then show ?thesis using handle_new_keeps [OF I] by simp
  next
    case opCancel
    then show ?thesis using handle_cancel_keeps [OF I] by simp
  next
    case opModify
    then show ?thesis using handle_modify_keeps [OF I v] by simp
  qed
  then obtain go m1 j1 evs where h: "?h = Some (go, m1, j1, evs)" and I1: "I (mkBook m1)" "book_only m m1"
    by blast
  obtain db1 where "(if optPersist (mkOpts m1) then commit (mkBook m1) db else Some db) = Some db1"
    using commit [OF I1(1), of db] by (cases "optPersist (mkOpts m1)") auto
  then show ?thesis using h I1 by (auto simp: handle_def)
qed

end

section \<open>The goroutine\<close>

inductive_cases run_stepE: "run_step log_append commit c l c'"

lemma send_op_Some:
  "send_op o' m = Some m' \<longleftrightarrow> length (mkInbox m) < mkCapacity m \<and> m' = m\<lparr>mkInbox := mkInbox m @ [o']\<rparr>"
  by (auto simp: send_op_def)

fun sent :: "'env label list \<Rightarrow> op list" where
  "sent [] = []"
| "sent (Sent o' # ls) = o' # sent ls"
| "sent (l # ls) = sent ls"

fun handled :: "'env label list \<Rightarrow> op list" where
  "handled [] = []"
| "handled (Handled env o' evs # ls) = o' # handled ls"
| "handled (l # ls) = handled ls"

lemma sent_append [simp]: "sent (a @ b) = sent a @ sent b"
  by (induction a rule: sent.induct) simp_all

lemma handled_append [simp]: "handled (a @ b) = handled a @ handled b"
  by (induction a rule: handled.induct) simp_all

text \<open>\<open>P\<close> is any property of the book that every handled operation keeps.\<close>

lemma trace_invariant:
  assumes "run_trace log_append commit (start_config m j db) ls c" and "P (mkBook m)"
    and "mkInbox m = []"
    and keeps: "\<And>env o' m j db m' j' db' evs. P (mkBook m) \<Longrightarrow>
      handle log_append commit env o' m j db = Some (m', j', db', evs) \<Longrightarrow> P (mkBook m') \<and> book_only m m'"
  shows "P (mkBook (cfMarket c)) \<and> sent ls = handled ls @ mkInbox (cfMarket c) \<and>
    length (mkInbox (cfMarket c)) \<le> mkCapacity (cfMarket c) \<and> mkCapacity (cfMarket c) = mkCapacity m \<and>
    mkSymbol (cfMarket c) = mkSymbol m \<and> mkOpts (cfMarket c) = mkOpts m"
  using assms(1)
proof (induction "start_config m j db" ls c rule: run_trace.induct)
  case start
  then show ?case using assms(2,3) by (simp add: start_config_def)
next
  case (extend ls c1 l c2)
  from extend.hyps(3) show ?case
  proof (cases rule: run_step.cases)
    case (send o' m')
    then show ?thesis using extend.hyps(2) by (auto simp: send_op_Some)
  next
    case (receive o' os env m' j' db' evs)
    have p: "P (mkBook ((cfMarket c1)\<lparr>mkInbox := os\<rparr>))" using extend.hyps(2) by simp
    have "P (mkBook m') \<and> book_only ((cfMarket c1)\<lparr>mkInbox := os\<rparr>) m'" by (rule keeps [OF p receive(5)])
    then show ?thesis using extend.hyps(2) receive(1,2,4) by (simp add: book_only_def)
  qed (use extend.hyps(2) in simp_all)
qed

end
