(* ===== verification/Recovery.thy ===== *)
theory Recovery
  imports MarketSpec JournalSpec Reference
begin

text \<open>
  Crash recovery: what the journal holds after a market has handled a series of
  operations, and what a market started from that journal makes of it.
\<close>

section \<open>Handling a series of operations\<close>

fun handle_all :: "('env \<Rightarrow> string \<Rightarrow> journal_record \<Rightarrow> 'j \<Rightarrow> journal_error option \<times> 'j)
    \<Rightarrow> (orderbook \<Rightarrow> 'r \<Rightarrow> 'r option) \<Rightarrow> ('env \<times> op) list \<Rightarrow> market \<Rightarrow> 'j \<Rightarrow> 'r
    \<Rightarrow> (market \<times> 'j \<times> 'r \<times> sink_event list) option" where
  "handle_all log_append commit [] m j db = Some (m, j, db, [])"
| "handle_all log_append commit ((env, o') # eos) m j db =
     do {
       (m1, j1, db1, evs1) \<leftarrow> handle log_append commit env o' m j db;
       (m2, j2, db2, evs2) \<leftarrow> handle_all log_append commit eos m1 j1 db1;
       Some (m2, j2, db2, evs1 @ evs2)
     }"

text \<open>No conditional order is queued, before or during the series.\<close>

fun quiet :: "('env \<Rightarrow> string \<Rightarrow> journal_record \<Rightarrow> 'j \<Rightarrow> journal_error option \<times> 'j)
    \<Rightarrow> (orderbook \<Rightarrow> 'r \<Rightarrow> 'r option) \<Rightarrow> ('env \<times> op) list \<Rightarrow> market \<Rightarrow> 'j \<Rightarrow> 'r \<Rightarrow> bool" where
  "quiet log_append commit [] m j db = (obConditional (mkBook m) = [])"
| "quiet log_append commit ((env, o') # eos) m j db =
     (obConditional (mkBook m) = [] \<and>
      (case handle log_append commit env o' m j db of
         None \<Rightarrow> True
       | Some (m1, j1, db1, evs1) \<Rightarrow> quiet log_append commit eos m1 j1 db1))"

lemma quiet_start: "quiet log_append commit eos m j db \<Longrightarrow> obConditional (mkBook m) = []"
  by (cases "(log_append, commit, eos, m, j, db)" rule: quiet.cases) auto

text \<open>The record an operation is journaled as; an invalid order is not journaled.\<close>

definition record_of_op :: "string \<Rightarrow> op \<Rightarrow> journal_record" where
  "record_of_op symbol o' =
     (case opKind o' of
        opNewOrder \<Rightarrow> new_record (opOrder o')
      | opCancel \<Rightarrow> cancel_record symbol (oID (opOrder o'))
      | opModify \<Rightarrow> modify_record symbol (oID (opOrder o')) (opNewPrice o') (opNewVolume o'))"

definition journaled :: "op \<Rightarrow> bool" where
  "journaled o' \<longleftrightarrow> (opKind o' = opNewOrder \<longrightarrow> Validate (opOrder o') = None)"

definition entries :: "string \<Rightarrow> ('env \<times> op) list \<Rightarrow> ('env \<times> journal_record) list" where
  "entries symbol eos = map (\<lambda>(e, o'). (e, record_of_op symbol o')) (filter (\<lambda>(e, o'). journaled o') eos)"

lemma entries_simps [simp]:
  "entries symbol [] = []"
  "entries symbol ((e, o') # eos) =
     (if journaled o' then (e, record_of_op symbol o') # entries symbol eos else entries symbol eos)"
  by (simp_all add: entries_def)

lemma record_sel [simp]:
  "jrKind (new_record x) = RecNew" "jrOrder (new_record x) = x"
  "jrKind (cancel_record s i) = RecCancel" "jrOrderID (cancel_record s i) = i"
  "jrKind (modify_record s i p v) = RecModify" "jrOrderID (modify_record s i p v) = i"
  "jrNewPrice (modify_record s i p v) = p" "jrNewVolume (modify_record s i p v) = v"
  "jrTimestamp (new_record x) = 0" "jrTimestamp (cancel_record s i) = 0" "jrTimestamp (modify_record s i p v) = 0"
  by (simp_all add: new_record_def cancel_record_def modify_record_def zero_record_def)

lemma applyJournalRecord_stamp [simp]: "applyJournalRecord b (stamp now r) = applyJournalRecord b r"
  by (simp add: applyJournalRecord_def stamp_def)

lemma replay_callback_stamp [simp]: "replay_callback (stamp now r) b = replay_callback r b"
  by (simp add: replay_callback_def)

lemma HandleConditionalOrders_none: "obConditional b = [] \<Longrightarrow> HandleConditionalOrders b ms = Some ([], b)"
  by (simp add: HandleConditionalOrders_def)

lemma HandleConditionalOrders_queue:
  assumes "book_wf b" and "HandleConditionalOrders b ms = Some (ms', b')"
  shows "obConditional b' = obConditional b"
proof -
  have keep: "rConditional (snd (ref_limit t rb)) = rConditional rb" for t rb
    by (auto simp: ref_limit_def ref_match_def ref_add_def split: option.splits prod.splits if_splits)
  have one: "rConditional (snd (ref_promote t lms rb)) = rConditional rb" for t lms rb
  proof (induction lms arbitrary: rb)
    case (Cons m lms)
    then show ?case using keep [of t rb] by (simp add: case_prod_beta)
  qed simp
  have "rConditional (snd (ref_promote_all ts lms rb)) = rConditional rb" for ts lms rb
  proof (induction ts arbitrary: rb)
    case (Cons t ts)
    then show ?case using one [of t lms rb] by (simp add: case_prod_beta)
  qed simp
  moreover have "ref_of b' = snd (ref_conditional ms (ref_of b))"
    using HandleConditionalOrders_ref [OF assms(1), of ms] assms(2) by (simp add: runs_as_def)
  ultimately have "rConditional (ref_of b') = rConditional (ref_of b)" by (simp only: ref_conditional_def)
  then show ?thesis by simp
qed

section \<open>The conditional queue only grows\<close>

lemma MatchAndAddNewOrder_grows:
  assumes "book_wf b" and "MatchAndAddNewOrder b t = Some (r, b')"
  shows "book_wf b' \<and> prefix (obConditional b) (obConditional b')"
proof -
  have keep: "rConditional (snd (ref_limit t rb)) = rConditional rb" "rConditional (snd (ref_market t rb)) = rConditional rb" for t rb
    by (auto simp: ref_limit_def ref_market_def ref_match_def ref_add_def split: option.splits prod.splits if_splits)
  have b': "book_wf b'" "ref_of b' = snd (ref_submit t (ref_of b))"
    using MatchAndAddNewOrder_ref [OF assms(1), of t] assms(2) by (auto simp: runs_as_def)
  have "prefix (rConditional (ref_of b)) (rConditional (ref_of b'))"
    unfolding b'(2) ref_submit_def by (simp add: Let_def keep)
  then show ?thesis using b'(1) by simp
qed

lemma ModifyOrder_grows:
  assumes "book_wf b" and run: "ModifyOrder b i p v = Some (r, b')"
  shows "book_wf b' \<and> prefix (obConditional b) (obConditional b')"
proof (cases "LookupOrder i b")
  case None
  then show ?thesis using assms by (simp add: ModifyOrder_def)
next
  case (Some x)
  note c = Cancel_wf(1,3) [OF assms(1), where i = i] and rv = ReduceVolume_wf(1,3) [OF assms(1), where i = i and v = v]
  consider "v = 0" | "v \<noteq> 0" "p = oPrice x" "v < oVolume x" | "v \<noteq> 0" "\<not> (p = oPrice x \<and> v < oVolume x)" by blast
  then show ?thesis
  proof cases
    case 1
    then show ?thesis using run Some c by (auto simp: ModifyOrder_def px_qty_simps)
  next
    case 2
    then show ?thesis
      using run Some rv by (cases "ReduceVolume i v b"; cases "fst (ReduceVolume i v b)") (auto simp: ModifyOrder_def px_qty_simps)
  next
    case 3
    obtain e b1 where cb: "Cancel i b = (e, b1)" by fastforce
    have b1: "book_wf b1" "obConditional b1 = obConditional b" using c cb by simp_all
    show ?thesis
    proof (cases e)
      case None
      then have "MatchAndAddNewOrder b1 (x\<lparr>oPrice := p, oVolume := v\<rparr>) = Some (r, b')"
        using run Some 3 cb by (simp add: ModifyOrder_def px_qty_simps Let_def)
      from MatchAndAddNewOrder_grows [OF b1(1) this] show ?thesis using b1(2) by simp
    next
      case (Some e')
      then show ?thesis
        using run \<open>LookupOrder i b = Some x\<close> 3 cb b1 by (simp add: ModifyOrder_def px_qty_simps Let_def)
    qed
  qed
qed

lemma handle_grows:
  assumes run: "handle log_append commit env o' m j db = Some (m', j', db', evs)" and wf: "book_wf (mkBook m)"
  shows "book_wf (mkBook m') \<and> prefix (obConditional (mkBook m)) (obConditional (mkBook m'))"
proof (cases "opKind o'")
  case opNewOrder
  obtain err j1 where a: "log_append env (mkSymbol m) (new_record (opOrder o')) j = (err, j1)" by fastforce
  obtain res b1 where s: "MatchAndAddNewOrder (mkBook m) (opOrder o') = Some (res, b1)"
    using runs_asE [OF MatchAndAddNewOrder_ref [OF wf]] by blast
  note g = MatchAndAddNewOrder_grows [OF wf s]
  obtain ms b2 where c: "HandleConditionalOrders b1 (rMatches res) = Some (ms, b2)" and b2: "book_wf b2"
    using runs_asE [OF HandleConditionalOrders_ref [of b1]] g by metis
  have "mkBook m' \<in> {mkBook m, b1, b2}"
    using run a s c
    by (cases err) (auto simp: handle_def handle_new_def opNewOrder Let_def bind_eq_Some_conv split: if_splits)
  moreover have "obConditional b2 = obConditional b1" using HandleConditionalOrders_queue [OF _ c] g by blast
  ultimately show ?thesis using wf g b2 by auto
next
  case opCancel
  then have "mkBook m' \<in> {mkBook m, snd (CancelOrder (mkBook m) (oID (opOrder o')))}"
    using run by (auto simp: handle_def handle_cancel_def bind_eq_Some_conv split: if_splits option.splits prod.splits)
  then show ?thesis using Cancel_wf [OF wf] wf by (auto simp: CancelOrder_def)
next
  case opModify
  obtain err j1 where a: "log_append env (mkSymbol m)
      (modify_record (mkSymbol m) (oID (opOrder o')) (opNewPrice o') (opNewVolume o')) j = (err, j1)" by fastforce
  obtain res b1 where md: "ModifyOrder (mkBook m) (oID (opOrder o')) (opNewPrice o') (opNewVolume o') = Some (res, b1)"
    using wf.modify_keeps [OF wf TrueI] by blast
  have "mkBook m' = (case err of None \<Rightarrow> b1 | Some _ \<Rightarrow> mkBook m)"
  proof (cases err)
    case None
    then show ?thesis
      using run a md
      by (cases "optPersist (mkOpts m)") (auto simp: handle_def handle_modify_def opModify Let_def bind_eq_Some_conv)
  next
    case (Some e)
    then show ?thesis using run a by (simp add: handle_def handle_modify_def opModify Let_def)
  qed
  then show ?thesis using ModifyOrder_grows [OF wf md] wf by (cases err) simp_all
qed

lemma quiet_at_the_end:
  "handle_all log_append commit eos m j db = Some (m', j', db', evs) \<Longrightarrow> book_wf (mkBook m) \<Longrightarrow>
   obConditional (mkBook m') = [] \<Longrightarrow> quiet log_append commit eos m j db"
proof -
  assume "handle_all log_append commit eos m j db = Some (m', j', db', evs)" "book_wf (mkBook m)"
    "obConditional (mkBook m') = []"
  then have "quiet log_append commit eos m j db \<and> prefix (obConditional (mkBook m)) (obConditional (mkBook m'))"
  proof (induction eos arbitrary: m j db evs)
    case (Cons eo eos)
    obtain env o' where eo: "eo = (env, o')" by fastforce
    from Cons.prems(1) obtain m1 j1 db1 evs1 evs2 where h: "handle log_append commit env o' m j db = Some (m1, j1, db1, evs1)"
      and rest: "handle_all log_append commit eos m1 j1 db1 = Some (m', j', db', evs2)"
      by (auto simp: eo bind_eq_Some_conv)
    note g = handle_grows [OF h Cons.prems(2)]
    show ?case using Cons.IH [OF rest _ Cons.prems(3)] g h Cons.prems(3) by (auto simp: eo)
  qed simp
  then show ?thesis ..
qed

section \<open>Replaying an operation is handling it\<close>

lemma handle_journaled:
  assumes run: "handle log_append commit env o' m j db = Some (m', j', db', evs)" and jd: "journaled o'"
    and a: "log_append env (mkSymbol m) (record_of_op (mkSymbol m) o') j = (None, j1)"
    and wf: "book_wf (mkBook m)" and quiet: "obConditional (mkBook m') = []"
  shows "j' = j1 \<and> applyJournalRecord (mkBook m) (record_of_op (mkSymbol m) o') = Some (mkBook m') \<and> book_only m m'"
proof (cases "opKind o'")
  case opNewOrder
  then have v: "Validate (opOrder o') = None" and rc: "record_of_op (mkSymbol m) o' = new_record (opOrder o')"
    using jd by (simp_all add: journaled_def record_of_op_def)
  obtain res b1 where s: "MatchAndAddNewOrder (mkBook m) (opOrder o') = Some (res, b1)"
    using runs_asE [OF MatchAndAddNewOrder_ref [OF wf]] by blast
  have wf1: "book_wf b1" using MatchAndAddNewOrder_ref [OF wf, of "opOrder o'"] s by (simp add: runs_as_def)
  obtain ms b2 where c: "HandleConditionalOrders b1 (rMatches res) = Some (ms, b2)"
    using runs_asE [OF HandleConditionalOrders_ref [OF wf1]] by blast
  have q: "obConditional b2 = [] \<Longrightarrow> b2 = b1"
    using HandleConditionalOrders_queue [OF wf1 c] HandleConditionalOrders_none [of b1] c by simp
  have "mkBook m' = b1 \<and> j' = j1 \<and> book_only m m'"
    using run quiet q s c v a
    by (auto simp: handle_def handle_new_def opNewOrder rc Let_def bind_eq_Some_conv split: if_splits)
  then show ?thesis using s by (simp add: rc applyJournalRecord_def)
next
  case opCancel
  have rc: "record_of_op (mkSymbol m) o' = cancel_record (mkSymbol m) (oID (opOrder o'))"
    by (simp add: record_of_op_def opCancel)
  have "mkBook m' = snd (CancelOrder (mkBook m) (oID (opOrder o'))) \<and> j' = j1 \<and> book_only m m'"
    using run a by (auto simp: handle_def handle_cancel_def opCancel rc bind_eq_Some_conv split: if_splits)
  then show ?thesis by (simp add: rc applyJournalRecord_def)
next
  case opModify
  have rc: "record_of_op (mkSymbol m) o' =
      modify_record (mkSymbol m) (oID (opOrder o')) (opNewPrice o') (opNewVolume o')"
    by (simp add: record_of_op_def opModify)
  let ?mod = "ModifyOrder (mkBook m) (oID (opOrder o')) (opNewPrice o') (opNewVolume o')"
  have "?mod = None \<Longrightarrow> False" using run a by (simp add: handle_def handle_modify_def opModify rc Let_def)
  then obtain res b1 where md: "?mod = Some (res, b1)" by (cases ?mod) auto
  have "mkBook m' = b1 \<and> j' = j1 \<and> book_only m m'"
    using run a md
    by (cases "optPersist (mkOpts m)") (auto simp: handle_def handle_modify_def opModify rc Let_def bind_eq_Some_conv)
  then have "?mod = Some (res, mkBook m')" "j' = j1" "book_only m m'" using md by simp_all
  then show ?thesis by (simp add: rc applyJournalRecord_def)
qed

lemma handle_unjournaled:
  assumes "handle log_append commit env o' m j db = Some (m', j', db', evs)" and "\<not> journaled o'"
  shows "m' = m \<and> j' = j"
  using assms by (auto simp: handle_def handle_new_def journaled_def Let_def split: if_splits)
lemma applyJournalRecord_returns:
  assumes "book_wf b"
  shows "\<exists>b'. applyJournalRecord b r = Some b' \<and> book_wf b'"
  using wf.new_order_keeps [OF assms TrueI, of "jrOrder r"] wf.cancel_order_keeps [OF assms, of "jrOrderID r"]
    wf.modify_keeps [OF assms TrueI, of "jrOrderID r" "jrNewPrice r" "jrNewVolume r"] assms
  by (auto simp: applyJournalRecord_def)

context append_log
begin

text \<open>
  If every append succeeds and no conditional order is queued, the journal has been
  given one record for each journaled operation, and replaying those records over the
  book the series started from gives the book it ended with.
\<close>

lemma handle_all_replays:
  "handle_all append commit eos m j db = Some (m', j', db', evs) \<Longrightarrow>
   \<forall>err \<in> set (fst (appends (mkSymbol m) (entries (mkSymbol m) eos) j)). err = None \<Longrightarrow>
   quiet append commit eos m j db \<Longrightarrow> book_wf (mkBook m) \<Longrightarrow>
   j' = snd (appends (mkSymbol m) (entries (mkSymbol m) eos) j) \<and>
   feed replay_callback (map snd (entries (mkSymbol m) eos)) (mkBook m) = Some (None, mkBook m')"
proof (induction eos arbitrary: m j db evs)
  case (Cons eo eos)
  obtain env o' where eo: "eo = (env, o')" by fastforce
  from Cons.prems(1) obtain m1 j1 db1 evs1 evs2 where h: "handle append commit env o' m j db = Some (m1, j1, db1, evs1)"
    and rest: "handle_all append commit eos m1 j1 db1 = Some (m', j', db', evs2)"
    by (auto simp: eo bind_eq_Some_conv)
  have q: "quiet append commit eos m1 j1 db1" using Cons.prems(3) h by (simp add: eo)
  show ?case
  proof (cases "journaled o'")
    case False
    then have same: "m1 = m" "j1 = j" using handle_unjournaled [OF h] by simp_all
    show ?thesis
      using Cons.IH [OF rest _ q] Cons.prems(2,4) False unfolding same by (simp add: eo)
  next
    case True
    let ?r = "record_of_op (mkSymbol m) o'"
    obtain err j2 where a: "append env (mkSymbol m) ?r j = (err, j2)" by fastforce
    have err: "err = None" and errs: "\<forall>err \<in> set (fst (appends (mkSymbol m) (entries (mkSymbol m) eos) j2)). err = None"
      using Cons.prems(2) a True by (simp_all add: eo case_prod_beta)
    note hj = handle_journaled [OF h True a [unfolded err] Cons.prems(4) quiet_start [OF q]]
    have sy: "mkSymbol m1 = mkSymbol m" and j1: "j1 = j2" using hj by (simp_all add: book_only_def)
    have wf1: "book_wf (mkBook m1)" using applyJournalRecord_returns [OF Cons.prems(4), of ?r] hj by (metis option.inject)
    have f: "replay_callback ?r (mkBook m) = Some (None, mkBook m1)" using hj by (simp add: replay_callback_def)
    show ?thesis
      using Cons.IH [OF rest _ q wf1] errs f a True unfolding sy j1 by (simp add: eo case_prod_beta)
  qed
qed simp

end

section \<open>The file journal\<close>

lemma Append_succeeds:
  assumes "io_ok (snd e)" and "no_failed st"
  shows "fst (file_append marshal e s r st) = None \<and> no_failed (snd (file_append marshal e s r st))"
proof -
  obtain j dk where st: "st = (j, dk)" by fastforce
  show ?thesis
  proof (cases "fjFiles j s")
    case None
    then show ?thesis
      using assms by (auto simp: st file_append_def Append_def openLocked_def write_line_def io_ok_def no_failed_def Let_def)
  next
    case (Some w)
    moreover have "\<not> wFailed w" using assms(2) Some by (auto simp: no_failed_def st)
    ultimately show ?thesis
      using assms by (auto simp: st file_append_def Append_def openLocked_def write_line_def io_ok_def no_failed_def Let_def)
  qed
qed

lemma appends_succeed:
  "\<forall>(e, r) \<in> set ers. io_ok (snd e) \<Longrightarrow> no_failed st \<Longrightarrow>
   \<forall>err \<in> set (fst (file_log.appends marshal s ers st)). err = None"
proof (induction ers arbitrary: st)
  case (Cons er ers)
  obtain e r where er: "er = (e, r)" by fastforce
  have k: "fst (file_append marshal e s r st) = None" "no_failed (snd (file_append marshal e s r st))"
    using Append_succeeds [of e st marshal s r] Cons.prems er by simp_all
  show ?case using Cons.IH [OF _ k(2)] Cons.prems(1) k(1) by (simp add: er case_prod_beta)
qed simp

text \<open>The directory of a journal never changes, and a replay depends on nothing else of it.\<close>

lemma feed_stamp:
  "feed replay_callback (map (\<lambda>(e, r). stamp (fst e) r) ers) b = feed replay_callback (map snd ers) b"
  by (induction ers arbitrary: b) (auto split: option.splits)

lemma appends_dir: "handles_ok st \<Longrightarrow> pathFor (fst (snd (file_log.appends marshal s ers st))) = pathFor (fst st)"
proof (induction ers arbitrary: st)
  case (Cons er ers)
  obtain e r where er: "er = (e, r)" by fastforce
  have "handles_ok (snd (file_append marshal e s r st)) \<and>
    pathFor (fst (snd (file_append marshal e s r st))) = pathFor (fst st)"
    using Append_cases [of "fst st" "snd st" marshal "fst e" "snd e" s r, OF _ surjective_pairing] Cons.prems
    by (simp add: file_append_def)
  then show ?case using Cons.IH [of "snd (file_append marshal e s r st)"] by (simp add: er case_prod_beta)
qed simp

lemma journal_log_dir: "pathFor j = pathFor (fst st) \<Longrightarrow> journal_log s (j, snd st) = journal_log s st"
  by (simp add: journal_log_def)

lemma entries_set: "(e, r) \<in> set (entries symbol eos) \<Longrightarrow> \<exists>o'. (e, o') \<in> set eos \<and> r = record_of_op symbol o'"
  by (auto simp: entries_def)

text \<open>
  \<open>codec_reads\<close>: the codec gives back the record of every operation of the series, on
  one line that is not too long.
\<close>

definition codec_reads :: "(journal_record \<Rightarrow> string) \<Rightarrow> (string \<Rightarrow> journal_record option) \<Rightarrow> string
    \<Rightarrow> ((int64 \<times> io) \<times> op) list \<Rightarrow> bool" where
  "codec_reads marshal unmarshal symbol eos \<longleftrightarrow>
     (\<forall>(e, o') \<in> set eos. let r = stamp (fst e) (record_of_op symbol o') in line_reads unmarshal (marshal r) r)"

lemma replay_recovers:
  assumes ok: "handles_ok st0" "no_failed st0" and new: "journal_log (mkSymbol m0) st0 = []"
    and run: "handle_all (file_append marshal) commit eos m0 st0 db = Some (m1, st1, db1, evs)"
    and wf: "book_wf (mkBook m0)" and q: "quiet (file_append marshal) commit eos m0 st0 db"
    and io: "\<forall>(e, o') \<in> set eos. io_ok (snd e)" and codec: "codec_reads marshal unmarshal (mkSymbol m0) eos"
    and dir: "pathFor j2 = pathFor (fst st0)"
  shows "Replay unmarshal True (mkSymbol m0) replay_callback (j2, snd st1) (mkBook m0) = Some (None, mkBook m1)"
proof -
  let ?s = "mkSymbol m0" and ?ers = "entries (mkSymbol m0) eos"
  have "\<forall>(e, r) \<in> set ?ers. io_ok (snd e)" using io entries_set by fastforce
  note good = appends_succeed [OF this ok(2)]
  note h = file_log.handle_all_replays [OF run good q wf]
  have reads: "\<forall>(e, r) \<in> set ?ers. line_reads unmarshal (marshal (stamp (fst e) r)) (stamp (fst e) r)"
    using codec entries_set unfolding codec_reads_def Let_def by fastforce
  have "log_holds unmarshal (journal_log ?s st0) [] []" using new log_holds_empty by simp
  from appends_hold [OF ok(1) this good reads]
  have hold: "log_holds unmarshal (journal_log ?s st1) (map (\<lambda>(e, r). stamp (fst e) r) ?ers) []"
    using h by simp
  have "pathFor j2 = pathFor (fst st1)" using appends_dir [OF ok(1)] dir h by simp
  from journal_log_dir [OF this, of ?s] hold
  have "log_holds unmarshal (journal_log ?s (j2, snd st1)) (map (\<lambda>(e, r). stamp (fst e) r) ?ers) []" by simp
  from Replay_log [OF this, of replay_callback "mkBook m0"] h show ?thesis
    by (simp add: feed_stamp)
qed

end
