(* ===== verification/RefMarket.thy ===== *)
theory RefMarket
  imports Recovery Samples
begin

text \<open>
  A reference market: what a market makes of the operations it is given, over the plain
  lists of the reference engine, with no journal, no index, no addresses and no
  goroutine. \<open>ref_handle\<close> gives the trades to report and the next book; the lemmas say
  that the handler of the code refines it.
\<close>

section \<open>The reference\<close>

definition ref_new :: "string \<Rightarrow> refbook" where
  "ref_new symbol = \<lparr>rLadder = (\<lambda>d. []), rConditional = [], rSeq = 0, rSymbol = symbol, rL2 = False, rDeltas = []\<rparr>"

definition ref_handle :: "op \<Rightarrow> refbook \<Rightarrow> match list \<times> refbook" where
  "ref_handle o' rb =
     (case opKind o' of
        opNewOrder \<Rightarrow>
          if Validate (opOrder o') \<noteq> None then ([], rb)
          else (case ref_submit (opOrder o') rb of (r, rb1) \<Rightarrow>
            if rMatches r = [] then ([], rb1)
            else (case ref_conditional (rMatches r) rb1 of (ms, rb2) \<Rightarrow> (rMatches r @ ms, rb2)))
      | opCancel \<Rightarrow> ([], snd (ref_cancel (oID (opOrder o')) rb))
      | opModify \<Rightarrow>
          (case ref_modify (oID (opOrder o')) (opNewPrice o') (opNewVolume o') rb of (r, rb1) \<Rightarrow> (rMatches r, rb1)))"

fun ref_run :: "op list \<Rightarrow> refbook \<Rightarrow> match list \<times> refbook" where
  "ref_run [] rb = ([], rb)"
| "ref_run (o' # os) rb =
     (case ref_handle o' rb of (ms, rb1) \<Rightarrow> (case ref_run os rb1 of (ms2, rb2) \<Rightarrow> (ms @ ms2, rb2)))"

lemma ref_run_append:
  "ref_run (a @ b) rb = (fst (ref_run a rb) @ fst (ref_run b (snd (ref_run a rb))), snd (ref_run b (snd (ref_run a rb))))"
  by (induction a arbitrary: rb) (simp_all add: case_prod_beta)

lemma ref_of_new: "ref_of (NewOrderbook symbol) = ref_new symbol"
  unfolding ref_new_def
  by (intro ref_of_eqI) simp_all

text \<open>The IDs of the orders submitted, and the trades reported.\<close>

definition new_ids :: "op list \<Rightarrow> order_id list" where
  "new_ids os = map (\<lambda>o'. oID (opOrder o')) (filter (\<lambda>o'. opKind o' = opNewOrder) os)"

lemma new_ids_simps [simp]:
  "new_ids [] = []" "new_ids (a @ b) = new_ids a @ new_ids b"
  "new_ids (o' # os) = (if opKind o' = opNewOrder then oID (opOrder o') # new_ids os else new_ids os)"
  by (simp_all add: new_ids_def)

fun reported :: "sink_event list \<Rightarrow> match list" where
  "reported [] = []"
| "reported (MatchSink s ms # evs) = ms @ reported evs"
| "reported (e # evs) = reported evs"

lemma reported_append [simp]: "reported (a @ b) = reported a @ reported b"
  by (induction a rule: reported.induct) simp_all

section \<open>Which IDs a book knows\<close>

lemma ReduceVolume_dom:
  assumes "book_wf ob" "book_indexed ob"
  shows "dom (obIndex (snd (ReduceVolume i v ob))) \<subseteq> dom (obIndex ob)"
proof -
  have c: "dom (obIndex (snd (Cancel i ob))) \<subseteq> dom (obIndex ob)"
  proof (cases "LookupOrder i ob")
    case None
    then show ?thesis by (simp add: LookupOrder_None Cancel_missing)
  next
    case (Some x)
    show ?thesis by (rule Cancel_refines [OF assms Some]) auto
  qed
  consider "v = 0" | "v \<noteq> 0" "LookupOrder i ob = None \<or> (\<exists>x. LookupOrder i ob = Some x \<and> \<not> v < oVolume x)"
    | x where "v \<noteq> 0" "LookupOrder i ob = Some x" "v < oVolume x"
    by (metis not_None_eq)
  then show ?thesis
  proof cases
    case 1
    then show ?thesis using c by (simp add: ReduceVolume_def px_qty_simps)
  next
    case 2
    then show ?thesis using ReduceVolume_unless by simp
  next
    case 3
    show ?thesis by (rule ReduceVolume_refines [OF assms 3(2,1,3)]) simp
  qed
qed

interpretation known: book_invariant "\<lambda>ob. book_wf ob \<and> book_indexed ob \<and> dom (obIndex ob) \<subseteq> S"
  "\<lambda>i ob. obIndex ob i = None \<and> i \<in> S" "\<lambda>_. True" for S
proof unfold_locales
  fix ob t ac ms rem ob'
  assume "book_wf ob \<and> book_indexed ob \<and> dom (obIndex ob) \<subseteq> S" and run: "MatchTaker t ac ob = Some (ms, rem, ob')"
  then show "book_wf ob' \<and> book_indexed ob' \<and> dom (obIndex ob') \<subseteq> S"
    using MatchTaker_wf [OF _ run] MatchTaker_index(1,2) [OF _ run] by (metis map_le_implies_dom_le subset_trans)
next
  fix ob t ms rem ob'
  assume I: "book_wf ob \<and> book_indexed ob \<and> dom (obIndex ob) \<subseteq> S" and f: "obIndex ob (oID t) = None \<and> oID t \<in> S"
    and run: "MatchTaker t False ob = Some (ms, rem, ob')"
  have I': "book_wf ob'" "book_indexed ob'" "dom (obIndex ob') \<subseteq> S"
    using I MatchTaker_wf [OF _ run] MatchTaker_index(1,2) [OF _ run] by (metis map_le_implies_dom_le subset_trans)+
  let ?o = "t\<lparr>oVolume := rem\<rparr>"
  have fr: "obIndex ob' (oID ?o) = None" using rest_fresh [OF _ _ run] I f by (simp add: LookupOrder_None)
  show "book_wf (snd (Add ?o ob')) \<and> book_indexed (snd (Add ?o ob')) \<and> dom (obIndex (snd (Add ?o ob'))) \<subseteq> S"
  proof (cases "oSide ?o" rule: side_cases)
    case other
    then show ?thesis using I' by (simp add: Add_other_side)
  next
    case (side d)
    show ?thesis by (rule Add_refines [OF I'(1) side]) (use fr I' f in \<open>simp split: if_splits\<close>)
  qed
next
  fix ob i
  assume I: "book_wf ob \<and> book_indexed ob \<and> dom (obIndex ob) \<subseteq> S"
  then have ii: "book_wf ob" "book_indexed ob" by simp_all
  show "book_wf (snd (Cancel i ob)) \<and> book_indexed (snd (Cancel i ob)) \<and> dom (obIndex (snd (Cancel i ob))) \<subseteq> S"
  proof (cases "LookupOrder i ob")
    case None
    then show ?thesis using I by (simp add: LookupOrder_None Cancel_missing)
  next
    case (Some x)
    show ?thesis by (rule Cancel_refines [OF ii Some]) (use I in auto)
  qed
next
  fix ob v i
  assume I: "book_wf ob \<and> book_indexed ob \<and> dom (obIndex ob) \<subseteq> S"
  then show "book_wf (snd (ReduceVolume i v ob)) \<and> book_indexed (snd (ReduceVolume i v ob)) \<and>
      dom (obIndex (snd (ReduceVolume i v ob))) \<subseteq> S"
    using ReduceVolume_wf(1) ReduceVolume_ok(1) ReduceVolume_dom by (meson subset_trans)
next
  fix ob i x
  assume I: "book_wf ob \<and> book_indexed ob \<and> dom (obIndex ob) \<subseteq> S" and x: "LookupOrder i ob = Some x"
  then have "obIndex (snd (Cancel i ob)) (oID x) = None" using Cancel_frees by (simp add: LookupOrder_None)
  moreover have "oID x = i" using LookupOrder_resting(2) [OF book_wf_ghost x] I by simp
  moreover have "i \<in> dom (obIndex ob)" using x LookupOrder_None [of i ob] by auto
  ultimately show "obIndex (snd (Cancel i ob)) (oID x) = None \<and> oID x \<in> S" using I by blast
next
  fix ob t
  assume "book_wf ob \<and> book_indexed ob \<and> dom (obIndex ob) \<subseteq> S"
  moreover have "obIndex (AddConditionalOrder t ob) = obIndex ob" by (simp add: AddConditionalOrder_def)
  ultimately show "book_wf (AddConditionalOrder t ob) \<and> book_indexed (AddConditionalOrder t ob) \<and>
      dom (obIndex (AddConditionalOrder t ob)) \<subseteq> S" by simp
qed simp_all

section \<open>The handler refines the reference\<close>

lemma CancelOrder_reads:
  "book_wf ob \<Longrightarrow> book_indexed ob \<Longrightarrow> ref_of (snd (CancelOrder ob i)) = snd (ref_cancel i (ref_of ob))"
  by (simp add: CancelOrder_def Cancel_ref)

lemma handle_ref:
  assumes run: "handle log_append commit env o' m j db = Some (m', j', db', evs)"
    and a: "journaled o' \<Longrightarrow> fst (log_append env (mkSymbol m) (record_of_op (mkSymbol m) o') j) = None"
    and wf: "book_wf (mkBook m)" and ix: "book_indexed (mkBook m)"
  shows "ref_of (mkBook m') = snd (ref_handle o' (ref_of (mkBook m))) \<and>
    (optOnMatch (mkOpts m) \<longrightarrow> reported evs = fst (ref_handle o' (ref_of (mkBook m))))"
proof (cases "journaled o'")
  case False
  then show ?thesis
    using run by (auto simp: journaled_def handle_def handle_new_def ref_handle_def Let_def split: if_splits)
next
  case jd: True
  then obtain j1 where a1: "log_append env (mkSymbol m) (record_of_op (mkSymbol m) o') j = (None, j1)"
    using a by (metis prod.collapse)
  show ?thesis
  proof (cases "opKind o'")
    case opNewOrder
    then have v: "Validate (opOrder o') = None" and rc: "record_of_op (mkSymbol m) o' = new_record (opOrder o')"
      using jd by (simp_all add: journaled_def record_of_op_def)
    obtain r rb1 where s: "ref_submit (opOrder o') (ref_of (mkBook m)) = (r, rb1)" by fastforce
    obtain b1 where b1: "MatchAndAddNewOrder (mkBook m) (opOrder o') = Some (r, b1)" "ref_of b1 = rb1" "book_wf b1"
      by (rule runs_asE [OF MatchAndAddNewOrder_ref [OF wf, of "opOrder o'", unfolded s]]) simp
    obtain ms rb2 where c: "ref_conditional (rMatches r) rb1 = (ms, rb2)" by fastforce
    obtain b2 where b2: "HandleConditionalOrders b1 (rMatches r) = Some (ms, b2)" "ref_of b2 = rb2"
      by (rule runs_asE [OF HandleConditionalOrders_ref [OF b1(3), of "rMatches r", unfolded b1(2) c]]) simp
    have rej: "\<not> rAccepted r \<Longrightarrow> rMatches r = []"
      using s by (auto simp: ref_submit_def ref_limit_def ref_market_def accepted_def rejected_def Let_def
          split: if_splits prod.splits)
    show ?thesis
      using run a1 v s b1 c b2 rej
      by (auto simp: handle_def handle_new_def opNewOrder rc Let_def ref_handle_def bind_eq_Some_conv split: if_splits)
  next
    case opCancel
    have rc: "record_of_op (mkSymbol m) o' = cancel_record (mkSymbol m) (oID (opOrder o'))"
      by (simp add: record_of_op_def opCancel)
    show ?thesis
      using run a1 CancelOrder_reads [OF wf ix]
      by (auto simp: handle_def handle_cancel_def opCancel rc ref_handle_def bind_eq_Some_conv split: if_splits)
  next
    case opModify
    let ?i = "oID (opOrder o')"
    have rc: "record_of_op (mkSymbol m) o' = modify_record (mkSymbol m) ?i (opNewPrice o') (opNewVolume o')"
      by (simp add: record_of_op_def opModify)
    obtain r rb1 where s: "ref_modify ?i (opNewPrice o') (opNewVolume o') (ref_of (mkBook m)) = (r, rb1)" by fastforce
    obtain b1 where b1: "ModifyOrder (mkBook m) ?i (opNewPrice o') (opNewVolume o') = Some (r, b1)" "ref_of b1 = rb1"
      by (rule runs_asE [OF ModifyOrder_ref [OF wf ix, of ?i "opNewPrice o'" "opNewVolume o'", unfolded s]]) simp
    have rej: "\<not> rAccepted r \<Longrightarrow> rMatches r = []"
      using s by (auto simp: ref_modify_def ref_submit_def ref_limit_def ref_market_def accepted_def rejected_def Let_def
          split: if_splits prod.splits option.splits)
    show ?thesis
      using run a1 s b1 rej
      by (cases "optPersist (mkOpts m)")
        (auto simp: handle_def handle_modify_def opModify rc Let_def ref_handle_def bind_eq_Some_conv split: if_splits)
  qed
qed

text \<open>As long as no conditional order is queued, the handler only adds the ID it is given.\<close>

lemma applyJournalRecord_known:
  assumes I: "book_wf b \<and> book_indexed b \<and> dom (obIndex b) \<subseteq> S"
    and f: "jrKind r = RecNew \<Longrightarrow> obIndex b (oID (jrOrder r)) = None \<and> oID (jrOrder r) \<in> S"
    and run: "applyJournalRecord b r = Some b'"
  shows "book_wf b' \<and> book_indexed b' \<and> dom (obIndex b') \<subseteq> S"
proof -
  note K = known.cancel_order_keeps [OF I, of "jrOrderID r"]
    known.modify_keeps [OF I TrueI, of "jrOrderID r" "jrNewPrice r" "jrNewVolume r"]
  have "\<exists>x b'. MatchAndAddNewOrder b (jrOrder r) = Some (x, b') \<and> book_wf b' \<and> book_indexed b' \<and> dom (obIndex b') \<subseteq> S"
    if "jrKind r = RecNew"
    using known.new_order_keeps [OF I f [OF that]] by blast
  then show ?thesis using run I K by (auto simp: applyJournalRecord_def split: if_splits)
qed

end
