(* ===== verification/MarketProps.thy ===== *)
theory MarketProps
  imports Recovery EngineProps JournalProps
begin

text \<open>
  What holds of a running market: the goroutine, its write-ahead discipline, and what it
  does when it is told to stop.
\<close>

section \<open>The goroutine\<close>

lemma handle_safe:
  assumes "book_wf (mkBook m) \<and> uncrossed (mkBook m)"
    and "\<forall>ob db. book_wf ob \<longrightarrow> commit ob db \<noteq> None"
  shows "\<exists>m' j' db' evs. handle log_append commit env o' m j db = Some (m', j', db', evs) \<and>
    (book_wf (mkBook m') \<and> uncrossed (mkBook m')) \<and> book_only m m'"
  by (rule uncrossed.handle_keeps [OF assms(1) TrueI]) (use assms(2) in blast)

text \<open>
  A market at run time: from a well-formed, uncrossed book, and whatever the journal,
  the snapshot store and the producers do, every reachable state has a well-formed,
  uncrossed book; the operations sent are the ones handled, in the order of the sends,
  followed by those still in the inbox, which never exceeds its capacity; and while the
  goroutine runs and the inbox is not empty, it can handle the oldest operation: the
  handler always returns.
\<close>

theorem market_runs_in_order:
  assumes "run_trace log_append commit (start_config m j db) ls c"
    and "book_wf (mkBook m)" and "uncrossed (mkBook m)" and "mkInbox m = []"
    and cm: "\<forall>ob db. book_wf ob \<longrightarrow> commit ob db \<noteq> None"
  shows "book_wf (mkBook (cfMarket c)) \<and> uncrossed (mkBook (cfMarket c)) \<and>
    sent ls = handled ls @ mkInbox (cfMarket c) \<and> length (mkInbox (cfMarket c)) \<le> mkCapacity m \<and>
    (cfRunning c \<longrightarrow> mkInbox (cfMarket c) \<noteq> [] \<longrightarrow>
       (\<exists>evs c'. run_step log_append commit c (Handled env (hd (mkInbox (cfMarket c))) evs) c'))"
proof -
  let ?P = "\<lambda>b. book_wf b \<and> uncrossed b"
  have keep: "?P (mkBook m') \<and> book_only m m'"
    if p: "?P (mkBook m)" and h: "handle log_append commit env o' m j db = Some (m', j', db', evs)"
    for env o' m j db m' j' db' evs
    using handle_safe [OF p cm, where log_append = log_append and env = env and o' = o' and j = j and db = db] h by auto
  have inv: "?P (mkBook (cfMarket c)) \<and> sent ls = handled ls @ mkInbox (cfMarket c) \<and>
    length (mkInbox (cfMarket c)) \<le> mkCapacity (cfMarket c) \<and> mkCapacity (cfMarket c) = mkCapacity m \<and>
    mkSymbol (cfMarket c) = mkSymbol m \<and> mkOpts (cfMarket c) = mkOpts m"
    using assms(2,3) by (intro trace_invariant [OF assms(1) _ assms(4)] keep) simp_all
  have "\<exists>evs c'. run_step log_append commit c (Handled env (hd (mkInbox (cfMarket c))) evs) c'"
    if run: "cfRunning c" and ne: "mkInbox (cfMarket c) \<noteq> []"
  proof -
    obtain o' os where io: "mkInbox (cfMarket c) = o' # os" using ne by (cases "mkInbox (cfMarket c)") simp_all
    have "?P (mkBook ((cfMarket c)\<lparr>mkInbox := os\<rparr>))" using inv by simp
    from handle_safe [OF this cm, where log_append = log_append and env = env and o' = o' and j = "cfJournal c" and db = "cfStore c"]
    obtain m' j' db' evs where "handle log_append commit env o' ((cfMarket c)\<lparr>mkInbox := os\<rparr>) (cfJournal c) (cfStore c) =
      Some (m', j', db', evs)" by blast
    from run_step.receive [OF run io this] show ?thesis unfolding io list.sel by blast
  qed
  then show ?thesis using inv by simp
qed

definition sample_opts :: options where
  "sample_opts = \<lparr>optInboxSize = 2, optOnMatch = True, optOnBook = False, optOnReject = True,
     optOnL2 = False, optPersist = False\<rparr>"

definition sample_market :: market where
  "sample_market = \<lparr>mkSymbol = ''BTC'', mkInbox = [], mkCapacity = 2, mkBook = sample_book, mkOpts = sample_opts\<rparr>"

lemma sample_market_sel [simp]:
  "mkSymbol sample_market = ''BTC''" "mkInbox sample_market = []" "mkCapacity sample_market = 2"
  "mkBook sample_market = sample_book" "mkOpts sample_market = sample_opts"
  by (simp_all add: sample_market_def)

abbreviation no_store :: "orderbook \<Rightarrow> unit \<Rightarrow> unit option" where
  "no_store \<equiv> \<lambda>_ db. Some db"

lemma run_traceI: "run_trace log_append commit c [] c"
  by (rule run_trace.start)

lemma sent_trace:
  "run_trace discard_append no_store (start_config sample_market () ()) [Sent (cancel_op 1), Sent (cancel_op 2)]
     ((start_config sample_market () ())\<lparr>cfMarket := sample_market\<lparr>mkInbox := [cancel_op 1, cancel_op 2]\<rparr>\<rparr>)"
proof -
  let ?c = "start_config sample_market () ()"
  let ?m = "\<lambda>os. ?c\<lparr>cfMarket := sample_market\<lparr>mkInbox := os\<rparr>\<rparr>"
  have s: "send_op o' (sample_market\<lparr>mkInbox := os\<rparr>) = Some (sample_market\<lparr>mkInbox := os @ [o']\<rparr>)" if "length os < 2" for o' os
    using that by (simp add: send_op_def sample_market_def)
  have st: "run_step discard_append no_store (?m os) (Sent o') (?m (os @ [o']))" if "length os < 2" for o' os
    using run_step.send [of o' "?m os" "sample_market\<lparr>mkInbox := os @ [o']\<rparr>" discard_append no_store] s [OF that] by simp
  have "?c = ?m []" by (simp add: start_config_def sample_market_def)
  then have "run_trace discard_append no_store ?c [] (?m [])" by (simp only: run_trace.start)
  from run_trace.extend [OF this st [of "[]" "cancel_op 1"]]
  have "run_trace discard_append no_store ?c [Sent (cancel_op 1)] (?m [cancel_op 1])" by simp
  from run_trace.extend [OF this st [of "[cancel_op 1]" "cancel_op 2"]] show ?thesis by simp
qed

theorem market_runs_in_order_witness:
  "\<exists>evs c'. run_step discard_append no_store
     ((start_config sample_market () ())\<lparr>cfMarket := sample_market\<lparr>mkInbox := [cancel_op 1, cancel_op 2]\<rparr>\<rparr>)
     (Handled () (cancel_op 1) evs) c'"
proof -
  have cm: "\<forall>ob db. book_wf ob \<longrightarrow> no_store ob db \<noteq> None" by simp
  have "\<exists>evs c'. run_step discard_append no_store
     ((start_config sample_market () ())\<lparr>cfMarket := sample_market\<lparr>mkInbox := [cancel_op 1, cancel_op 2]\<rparr>\<rparr>)
     (Handled () (hd [cancel_op 1, cancel_op 2]) evs) c'"
    using market_runs_in_order [OF sent_trace _ _ _ cm, of "()"] sample_book_wf(1) sample_book_uncrossed
    by (simp add: start_config_def)
  then show ?thesis by simp
qed


lemma stopped_handles_nothing:
  assumes "run_trace log_append commit c ls c'" and "\<not> cfRunning c"
  shows "\<not> cfRunning c' \<and> handled ls = [] \<and> mkBook (cfMarket c') = mkBook (cfMarket c) \<and>
    cfJournal c' = cfJournal c \<and> cfStore c' = cfStore c"
  using assms
proof (induction c ls c' rule: run_trace.induct)
  case (extend c ls c1 l c2)
  from extend.hyps(2) show ?case
    by (cases rule: run_step.cases) (use extend.IH extend.prems in \<open>auto simp: send_op_Some\<close>)
qed simp

lemma run_trace_append:
  assumes "run_trace log_append commit c1 ls2 c2"
  shows "run_trace log_append commit c ls1 c1 \<Longrightarrow> run_trace log_append commit c (ls1 @ ls2) c2"
  using assms
proof (induction c1 ls2 c2 rule: run_trace.induct)
  case (extend c1 ls2 c2 l c3)
  then show ?case using run_trace.extend [of log_append commit c "ls1 @ ls2" c2 l c3] by simp
qed simp

lemma run_trace_stop:
  assumes "cfRunning c"
  shows "run_trace log_append commit c [ContextDone, Stopped] (c\<lparr>cfCancelled := True, cfRunning := False\<rparr>)"
proof -
  let ?c = "c\<lparr>cfCancelled := True\<rparr>"
  have "run_trace log_append commit c [ContextDone] ?c"
    using run_trace.extend [OF run_trace.start run_step.context_done [of log_append commit c]] by simp
  moreover have "run_step log_append commit ?c Stopped (?c\<lparr>cfRunning := False\<rparr>)"
    by (rule run_step.stop) (use assms in simp_all)
  ultimately show ?thesis using run_trace.extend by fastforce
qed

text \<open>
  Stopping does not drain: once the context is cancelled the goroutine may return with
  operations in its inbox, whatever was sent; nothing is handled after that, so those
  operations, accepted by \<^verbatim>\<open>Submit\<close>, reach neither the journal nor the book.
\<close>

theorem stopping_leaves_the_inbox:
  assumes "run_trace log_append commit (start_config m j db) ls c" and "cfRunning c"
  shows "\<exists>c'. run_trace log_append commit (start_config m j db) (ls @ [ContextDone, Stopped]) c' \<and> \<not> cfRunning c' \<and>
    cfMarket c' = cfMarket c \<and>
    (\<forall>ls' c''. run_trace log_append commit c' ls' c'' \<longrightarrow>
       handled ls' = [] \<and> mkBook (cfMarket c'') = mkBook (cfMarket c) \<and> cfJournal c'' = cfJournal c)"
proof -
  let ?c = "c\<lparr>cfCancelled := True, cfRunning := False\<rparr>"
  have "run_trace log_append commit (start_config m j db) (ls @ [ContextDone, Stopped]) ?c"
    by (rule run_trace_append [OF run_trace_stop [OF assms(2)] assms(1)])
  moreover have "handled ls' = [] \<and> mkBook (cfMarket c'') = mkBook (cfMarket c) \<and> cfJournal c'' = cfJournal c"
    if "run_trace log_append commit ?c ls' c''" for ls' c''
    using stopped_handles_nothing [OF that] by simp
  ultimately show ?thesis by (intro exI [of _ ?c]) simp
qed

theorem stopping_leaves_the_inbox_witness:
  "\<exists>c'. run_trace discard_append no_store (start_config sample_market () ())
     [Sent (cancel_op 1), Sent (cancel_op 2), ContextDone, Stopped] c' \<and>
     \<not> cfRunning c' \<and> mkInbox (cfMarket c') = [cancel_op 1, cancel_op 2]"
  using stopping_leaves_the_inbox [OF sent_trace] by (fastforce simp: start_config_def)

section \<open>Write-ahead\<close>

lemma handle_refused:
  assumes "\<not> journaled o' \<and> j1 = j \<and> why = RejectInvalidOrder \<or>
    journaled o' \<and> log_append env (mkSymbol m) (record_of_op (mkSymbol m) o') j = (Some err, j1) \<and>
      why = journal_append_failed"
  shows "handle log_append commit env o' m j db =
    Some (m, j1, db, if opKind o' = opNewOrder \<and> optOnReject (mkOpts m)
                     then [RejectSink (mkSymbol m) (opOrder o') why] else [])"
proof (cases "opKind o'")
  case opNewOrder
  then show ?thesis
    using assms by (auto simp: handle_def handle_new_def journaled_def record_of_op_def Let_def)
next
  case opCancel
  then show ?thesis using assms by (auto simp: handle_def handle_cancel_def journaled_def record_of_op_def)
next
  case opModify
  then show ?thesis using assms by (auto simp: handle_def handle_modify_def journaled_def record_of_op_def Let_def)
qed

text \<open>
  Refusals leave no trace: an order that is not valid, and any operation whose journal
  append fails, changes neither the market nor the snapshot store; the only event is the
  rejection of an order, when the market reports rejections. An invalid order does not
  reach the journal either.
\<close>

theorem refused_operation_changes_nothing:
  assumes "\<not> journaled o' \<and> j1 = j \<and> why = RejectInvalidOrder \<or>
    journaled o' \<and> log_append env (mkSymbol m) (record_of_op (mkSymbol m) o') j = (Some err, j1) \<and>
      why = journal_append_failed"
  shows "handle log_append commit env o' m j db =
    Some (m, j1, db, if opKind o' = opNewOrder \<and> optOnReject (mkOpts m)
                     then [RejectSink (mkSymbol m) (opOrder o') why] else [])"
  by (rule handle_refused) (fact assms)

definition full_disk :: "unit \<Rightarrow> string \<Rightarrow> journal_record \<Rightarrow> unit \<Rightarrow> journal_error option \<times> unit" where
  "full_disk env symbol r j = (Some (WriteFailed symbol), j)"

theorem refused_operation_changes_nothing_witness:
  "handle full_disk no_store () (new_op (sample_order 9 1 SELL 99 6)) sample_market () () =
     Some (sample_market, (), (), [RejectSink ''BTC'' (sample_order 9 1 SELL 99 6) journal_append_failed])"
proof -
  have "journaled (new_op (sample_order 9 1 SELL 99 6))" by code_simp
  then show ?thesis
    using refused_operation_changes_nothing [of "new_op (sample_order 9 1 SELL 99 6)" "()" "()" journal_append_failed
        full_disk "()" sample_market "WriteFailed ''BTC''"]
    by (simp add: full_disk_def new_op_def sample_opts_def)
qed

lemma handle_appends:
  assumes "handle log_append commit env o' m j db = Some (m', j', db', evs)" and "journaled o'"
  shows "j' = snd (log_append env (mkSymbol m) (record_of_op (mkSymbol m) o') j)"
proof -
  obtain err j1 where a: "log_append env (mkSymbol m) (record_of_op (mkSymbol m) o') j = (err, j1)" by fastforce
  show ?thesis
  proof (cases err)
    case None
    show ?thesis
    proof (cases "opKind o'")
      case opNewOrder
      then show ?thesis
        using assms a None
        by (auto simp: handle_def handle_new_def record_of_op_def journaled_def Let_def bind_eq_Some_conv split: if_splits)
    next
      case opCancel
      then show ?thesis
        using assms a None by (auto simp: handle_def handle_cancel_def record_of_op_def bind_eq_Some_conv split: if_splits)
    next
      case opModify
      then show ?thesis
        using assms a None
        by (cases "optPersist (mkOpts m)")
          (auto simp: handle_def handle_modify_def record_of_op_def Let_def bind_eq_Some_conv)
    qed
  next
    case (Some e)
    show ?thesis
    proof (cases "opKind o'")
      case opNewOrder
      then show ?thesis
        using assms a Some by (auto simp: handle_def handle_new_def record_of_op_def journaled_def Let_def)
    next
      case opCancel
      then show ?thesis using assms a Some by (auto simp: handle_def handle_cancel_def record_of_op_def)
    next
      case opModify
      then show ?thesis using assms a Some by (auto simp: handle_def handle_modify_def record_of_op_def Let_def)
    qed
  qed
qed


text \<open>
  C11. No effect without a record: when an operation handled over the file journal changes
  the book or reports trades, the journal of its symbol has been extended by exactly one
  complete entry, the operation's record stamped with the time of the append; and no
  other symbol's file has changed.
\<close>

theorem no_effect_without_record:
  assumes "handles_ok st" and run: "handle (file_append record_JSON) commit env o' m st db = Some (m', st', db', evs)"
    and effect: "mkBook m' \<noteq> mkBook m \<or> (\<exists>s ms. MatchSink s ms \<in> set evs)"
  shows "journal_log (mkSymbol m) st' =
      journal_log (mkSymbol m) st @ record_JSON (stamp (fst env) (record_of_op (mkSymbol m) o')) @ [newline] \<and>
    (\<forall>s. sanitize s \<noteq> sanitize (mkSymbol m) \<longrightarrow> journal_log s st' = journal_log s st)"
proof -
  let ?r = "record_of_op (mkSymbol m) o'"
  obtain err st1 where a: "file_append record_JSON env (mkSymbol m) ?r st = (err, st1)" by (rule prod.exhaust)
  have jd: "journaled o'"
  proof (rule ccontr)
    assume "\<not> journaled o'"
    then show False
      using handle_refused [of o' st st RejectInvalidOrder "file_append record_JSON" env m undefined commit db] run effect
      by (auto split: if_splits)
  qed
  have none: "err = None"
  proof (cases err)
    case (Some e)
    then show ?thesis
      using handle_refused [of o' st1 st journal_append_failed "file_append record_JSON" env m e commit db] run effect jd a
      by (auto split: if_splits)
  qed
  have "st' = st1" using handle_appends [OF run jd] a by simp
  then show ?thesis
    using Append_cases [of "fst st" "snd st" record_JSON "fst env" "snd env" "mkSymbol m" ?r None st'] assms(1) a none
    by (auto simp: file_append_def journal_entry_def other_file_def)
qed

lemma sample_journal_empty: "journal_log s sample_journal = []" "handles_ok sample_journal" "no_failed sample_journal"
  using sample_journal_ok by (simp_all add: no_failed_def sample_journal_def)

theorem no_effect_without_record_witness:
  "journal_log ''BTC'' (snd (file_append record_JSON (17, good_io) ''BTC'' (cancel_record ''BTC'' 1) sample_journal)) =
     record_JSON (stamp 17 (cancel_record ''BTC'' 1)) @ [newline]"
proof -
  let ?a = "file_append record_JSON (17, good_io) ''BTC'' (cancel_record ''BTC'' 1) sample_journal"
  have "fst ?a = None" using Append_succeeds [of "(17, good_io)" sample_journal record_JSON] sample_journal_empty
    by (simp add: io_ok_def good_io_def)
  then obtain st where a: "?a = (None, st)" by (cases ?a) simp
  have "handle (file_append record_JSON) no_store (17, good_io) (cancel_op 1) sample_market sample_journal () =
      Some (sample_market\<lparr>mkBook := snd (CancelOrder sample_book 1)\<rparr>, st, (), [])"
    using a by (simp add: handle_def handle_cancel_def cancel_op_def sample_opts_def)
  moreover have "snd (CancelOrder sample_book 1) \<noteq> sample_book"
  proof
    assume "snd (CancelOrder sample_book 1) = sample_book"
    moreover have "LookupOrder 1 (snd (CancelOrder sample_book 1)) = None" by code_simp
    moreover have "LookupOrder 1 sample_book \<noteq> None" by code_simp
    ultimately show False by simp
  qed
  moreover have "record_of_op ''BTC'' (cancel_op 1) = cancel_record ''BTC'' 1" by (simp add: record_of_op_def cancel_op_def)
  ultimately show ?thesis
    using no_effect_without_record [OF sample_journal_empty(2), of no_store "(17, good_io)" "cancel_op 1" sample_market "()"] a
    by (simp add: sample_journal_empty(1))
qed

end
