(* ===== verification/MetricsProps.thy ===== *)
theory MetricsProps
  imports Metrics RefMarket MarketProps
begin

text \<open>
  What a dashboard reads off the collectors: the gauges show the book, the counters count
  the orders and the trades.
\<close>

section \<open>Reading the collectors\<close>

fun gauge :: "collector \<Rightarrow> string list \<Rightarrow> metric_call list \<Rightarrow> int option" where
  "gauge c ls [] = None"
| "gauge c ls (SetTo c' ls' v # calls) =
     (case gauge c ls calls of Some w \<Rightarrow> Some w | None \<Rightarrow> if c' = c \<and> ls' = ls then Some v else None)"
| "gauge c ls (call # calls) = gauge c ls calls"

fun counter :: "collector \<Rightarrow> string list \<Rightarrow> metric_call list \<Rightarrow> int" where
  "counter c ls [] = 0"
| "counter c ls (Inc c' ls' # calls) = (if c' = c \<and> ls' = ls then 1 else 0) + counter c ls calls"
| "counter c ls (AddTo c' ls' n # calls) = (if c' = c \<and> ls' = ls then n else 0) + counter c ls calls"
| "counter c ls (call # calls) = counter c ls calls"

text \<open>All orders counted for a symbol, whatever their outcome.\<close>

fun orders_counted :: "string \<Rightarrow> metric_call list \<Rightarrow> nat" where
  "orders_counted s [] = 0"
| "orders_counted s (Inc c ls # calls) = (if c = ordersTotal \<and> ls \<noteq> [] \<and> hd ls = s then 1 else 0) + orders_counted s calls"
| "orders_counted s (call # calls) = orders_counted s calls"

lemma gauge_append: "gauge c ls (a @ b) = (case gauge c ls b of Some v \<Rightarrow> Some v | None \<Rightarrow> gauge c ls a)"
  by (induction c ls a rule: gauge.induct) (simp_all split: option.split)

lemma counter_append [simp]: "counter c ls (a @ b) = counter c ls a + counter c ls b"
  by (induction c ls a rule: counter.induct) simp_all

lemma orders_counted_append [simp]: "orders_counted s (a @ b) = orders_counted s a + orders_counted s b"
  by (induction s a rule: orders_counted.induct) simp_all

definition shows_book :: "metric_call list \<Rightarrow> market \<Rightarrow> bool" where
  "shows_book calls m \<longleftrightarrow>
     gauge bookLevels [mkSymbol m, ''buy''] calls = Some (LevelCount BUY (mkBook m)) \<and>
     gauge bookLevels [mkSymbol m, ''sell''] calls = Some (LevelCount SELL (mkBook m)) \<and>
     gauge bookOrders [mkSymbol m, ''buy''] calls = Some (OrderCount BUY (mkBook m)) \<and>
     gauge bookOrders [mkSymbol m, ''sell''] calls = Some (OrderCount SELL (mkBook m))"

lemmas metrics_defs = metrics_Order_def metrics_Matches_def metrics_OpDuration_def
  metrics_JournalAppendDuration_def metrics_BookDepth_def

lemma behind_switch_shows: "shows_book (past @ behind_switch d o' m) m"
  by (simp add: shows_book_def gauge_append behind_switch_def metrics_defs)

lemma behind_switch_counts [simp]:
  "counter matchesTotal ls (behind_switch d o' m) = 0" "orders_counted s (behind_switch d o' m) = 0"
  by (simp_all add: behind_switch_def metrics_defs)

text \<open>Calls that set no gauge.\<close>

definition gaugeless :: "metric_call list \<Rightarrow> bool" where
  "gaugeless calls \<longleftrightarrow> (\<forall>c ls. gauge c ls calls = None)"

lemma gaugeless_append [simp]: "gaugeless a \<Longrightarrow> gaugeless b \<Longrightarrow> gaugeless (a @ b)"
  by (simp add: gaugeless_def gauge_append)

lemma gaugeless_calls [simp]:
  "gaugeless []" "gaugeless (metrics_Order s r)" "gaugeless (metrics_Matches s n)" "gaugeless (metrics_JournalAppendDuration d)"
  by (simp_all add: gaugeless_def metrics_defs)

lemma call_counts [simp]:
  "0 \<le> n \<Longrightarrow> counter matchesTotal [s] (metrics_Matches s n) = n"
  "counter matchesTotal ls (metrics_Order s r) = 0" "counter matchesTotal ls (metrics_JournalAppendDuration d) = 0"
  "orders_counted s (metrics_Order s r) = 1" "orders_counted s (metrics_Matches s' k) = 0"
  "orders_counted s (metrics_JournalAppendDuration d) = 0"
  by (simp_all add: metrics_defs)

section \<open>One operation\<close>

lemma handle_split:
  assumes "handle log_append commit env o' m j db = Some (m', j', db', evs)"
  obtains goes_on evs1 where "(case opKind o' of
        opNewOrder \<Rightarrow> handle_new log_append env o' m j
      | opCancel \<Rightarrow> handle_cancel log_append env o' m j
      | opModify \<Rightarrow> handle_modify log_append env o' m j) = Some (goes_on, m', j', evs1)"
    "reported evs = reported evs1"
  using assms by (auto simp: handle_def bind_eq_Some_conv split: if_splits)

lemma new_measured:
  assumes run: "handle_new log_append env o' m j = Some (goes_on, m', j', evs)"
    and wf: "book_wf (mkBook m)" and on: "optOnMatch (mkOpts m)"
  shows "\<exists>calls. new_metrics log_append env jd o' m j = Some calls \<and> gaugeless calls \<and>
    counter matchesTotal [mkSymbol m] calls = int (length (reported evs)) \<and> orders_counted (mkSymbol m) calls = 1 \<and>
    (\<not> goes_on \<longrightarrow> m' = m)"
proof (cases "Validate (opOrder o')")
  case (Some e)
  then show ?thesis using run by (auto simp: handle_new_def new_metrics_def Let_def)
next
  case v: None
  obtain err j1 where a: "log_append env (mkSymbol m) (new_record (opOrder o')) j = (err, j1)" by fastforce
  obtain r b1 where s: "MatchAndAddNewOrder (mkBook m) (opOrder o') = Some (r, b1)" and wf1: "book_wf b1"
    using wf.new_order_keeps [OF wf TrueI] by blast
  obtain ms b2 where c: "HandleConditionalOrders b1 (rMatches r) = Some (ms, b2)"
    using wf.conditional_keeps [OF wf1] by blast
  have same: "\<not> rAccepted r \<Longrightarrow> b1 = mkBook m"
    using s by (auto simp: MatchAndAddNewOrder_def handleLimitOrder_def handleMarketOrder_def handleStopLimitOrder_def
        accepted_def Let_def bind_eq_Some_conv split: if_splits)
  show ?thesis
    using run v a s c same on
    by (cases err) (auto simp: handle_new_def new_metrics_def Let_def  split: if_splits)
qed

lemma cancel_measured:
  assumes run: "handle_cancel log_append env o' m j = Some (goes_on, m', j', evs)"
  shows "\<exists>calls. cancel_metrics log_append env jd o' m j = Some calls \<and> gaugeless calls \<and>
    counter matchesTotal [mkSymbol m] calls = int (length (reported evs)) \<and> orders_counted (mkSymbol m) calls = 0 \<and>
    (\<not> goes_on \<longrightarrow> m' = m)"
  using run by (auto simp: handle_cancel_def cancel_metrics_def split: prod.splits option.splits)

lemma modify_measured:
  assumes run: "handle_modify log_append env o' m j = Some (goes_on, m', j', evs)" and on: "optOnMatch (mkOpts m)"
  shows "\<exists>calls. modify_metrics log_append env jd o' m j = Some calls \<and> gaugeless calls \<and>
    counter matchesTotal [mkSymbol m] calls = int (length (reported evs)) \<and> orders_counted (mkSymbol m) calls = 0 \<and>
    (\<not> goes_on \<longrightarrow> m' = m)"
proof -
  let ?i = "oID (opOrder o')"
  obtain err j1 where a: "log_append env (mkSymbol m)
      (modify_record (mkSymbol m) ?i (opNewPrice o') (opNewVolume o')) j = (err, j1)" by fastforce
  show ?thesis
  proof (cases err)
    case (Some e)
    then show ?thesis using run a by (simp add: handle_modify_def modify_metrics_def Let_def)
  next
    case None
    then obtain r b1 where md: "ModifyOrder (mkBook m) ?i (opNewPrice o') (opNewVolume o') = Some (r, b1)"
      using run a by (auto simp: handle_modify_def Let_def bind_eq_Some_conv)
    show ?thesis
      using run a None md on by (auto simp: handle_modify_def modify_metrics_def Let_def split: if_splits)
  qed
qed

lemma handle_measured:
  assumes run: "handle log_append commit env o' m j db = Some (m', j', db', evs)"
    and wf: "book_wf (mkBook m)" and on: "optOnMatch (mkOpts m)"
  shows "\<exists>calls. handle_metrics log_append env jd d o' m j = Some calls \<and>
    counter matchesTotal [mkSymbol m] calls = int (length (reported evs)) \<and>
    orders_counted (mkSymbol m) calls = (if opKind o' = opNewOrder then 1 else 0) \<and>
    (\<forall>past. shows_book past m \<longrightarrow> shows_book (past @ calls) m')"
proof -
  let ?branch = "case opKind o' of
      opNewOrder \<Rightarrow> handle_new log_append env o' m j
    | opCancel \<Rightarrow> handle_cancel log_append env o' m j
    | opModify \<Rightarrow> handle_modify log_append env o' m j"
  let ?calls = "case opKind o' of
      opNewOrder \<Rightarrow> new_metrics log_append env jd o' m j
    | opCancel \<Rightarrow> cancel_metrics log_append env jd o' m j
    | opModify \<Rightarrow> modify_metrics log_append env jd o' m j"
  obtain goes_on evs1 where b: "?branch = Some (goes_on, m', j', evs1)" and evs: "reported evs = reported evs1"
    by (rule handle_split [OF run])
  have "\<exists>calls. ?calls = Some calls \<and> gaugeless calls \<and>
      counter matchesTotal [mkSymbol m] calls = int (length (reported evs1)) \<and>
      orders_counted (mkSymbol m) calls = (if opKind o' = opNewOrder then 1 else 0) \<and> (\<not> goes_on \<longrightarrow> m' = m)"
    using b new_measured [OF _ wf on] cancel_measured modify_measured [OF _ on]
    by (cases "opKind o'") simp_all
  then obtain calls where calls: "?calls = Some calls" "gaugeless calls"
      "counter matchesTotal [mkSymbol m] calls = int (length (reported evs))"
      "orders_counted (mkSymbol m) calls = (if opKind o' = opNewOrder then 1 else 0)" "\<not> goes_on \<longrightarrow> m' = m"
    using evs by auto
  let ?all = "calls @ (if goes_on then behind_switch d o' m' else [])"
  have "handle_metrics log_append env jd d o' m j = Some ?all"
    using b calls(1) by (cases "opKind o'") (simp_all add: handle_metrics_def)
  moreover have "shows_book (past @ ?all) m'" if "shows_book past m" for past
  proof (cases goes_on)
    case True
    then show ?thesis using behind_switch_shows [of "past @ calls" d o' m'] by simp
  next
    case False
    then show ?thesis using that calls(2,5) by (simp add: shows_book_def gauge_append gaugeless_def)
  qed
  ultimately show ?thesis using calls(3,4) by simp
qed

section \<open>A series of operations\<close>

fun measure_all :: "('env \<Rightarrow> string \<Rightarrow> journal_record \<Rightarrow> 'j \<Rightarrow> journal_error option \<times> 'j)
    \<Rightarrow> (orderbook \<Rightarrow> 'r \<Rightarrow> 'r option) \<Rightarrow> (('env \<times> int64 \<times> int64) \<times> op) list \<Rightarrow> market \<Rightarrow> 'j \<Rightarrow> 'r
    \<Rightarrow> (metric_call list \<times> market \<times> sink_event list) option" where
  "measure_all log_append commit [] m j db = Some ([], m, [])"
| "measure_all log_append commit (((env, jd, d), o') # eos) m j db =
     do {
       calls1 \<leftarrow> handle_metrics log_append env jd d o' m j;
       (m1, j1, db1, evs1) \<leftarrow> handle log_append commit env o' m j db;
       (calls2, m2, evs2) \<leftarrow> measure_all log_append commit eos m1 j1 db1;
       Some (calls1 @ calls2, m2, evs1 @ evs2)
     }"

text \<open>
  C35. The metrics tell the truth about a market. Whatever series of operations it handles and
  whatever its journal does, handling and measuring return; the trade counter of its
  symbol has gone up by the number of trades reported to subscribers, one order has been
  counted for each order submitted, accepted or not; and the depth gauges, if they showed
  the levels and the resting orders of both sides before, show them afterwards.
\<close>

theorem metrics_follow_the_market:
  assumes "book_wf (mkBook m)" and "optOnMatch (mkOpts m)" and "\<forall>ob db. book_wf ob \<longrightarrow> commit ob db \<noteq> None"
  shows "\<exists>calls m' evs. measure_all log_append commit eos m j db = Some (calls, m', evs) \<and>
    counter matchesTotal [mkSymbol m] calls = int (length (reported evs)) \<and>
    orders_counted (mkSymbol m) calls = length (filter (\<lambda>(e, o'). opKind o' = opNewOrder) eos) \<and>
    (\<forall>past. shows_book past m \<longrightarrow> shows_book (past @ calls) m')"
  using assms(1,2)
proof (induction eos arbitrary: m j db)
  case (Cons eo eos)
  obtain env jd d o' where eo: "eo = ((env, jd, d), o')" by (metis prod.collapse)
  obtain m1 j1 db1 evs1 where h: "handle log_append commit env o' m j db = Some (m1, j1, db1, evs1)"
    and m1: "book_wf (mkBook m1)" "book_only m m1"
  proof -
    have "\<exists>m' j' db' evs. handle log_append commit env o' m j db = Some (m', j', db', evs) \<and> book_wf (mkBook m') \<and> book_only m m'"
      by (rule wf.handle_keeps [OF Cons.prems(1) TrueI]) (use assms(3) in blast)
    then show thesis using that by blast
  qed
  obtain calls1 where c1: "handle_metrics log_append env jd d o' m j = Some calls1"
    "counter matchesTotal [mkSymbol m] calls1 = int (length (reported evs1))"
    "orders_counted (mkSymbol m) calls1 = (if opKind o' = opNewOrder then 1 else 0)"
    "\<forall>past. shows_book past m \<longrightarrow> shows_book (past @ calls1) m1"
    using handle_measured [OF h Cons.prems, of jd d] by blast
  have sy: "mkSymbol m1 = mkSymbol m" and on: "optOnMatch (mkOpts m1)"
    using m1(2) Cons.prems(2) by (simp_all add: book_only_def)
  from Cons.IH [OF m1(1) on, of j1 db1, unfolded sy] obtain calls2 m2 evs2 where
    c2: "measure_all log_append commit eos m1 j1 db1 = Some (calls2, m2, evs2)"
    "counter matchesTotal [mkSymbol m] calls2 = int (length (reported evs2))"
    "orders_counted (mkSymbol m) calls2 = length (filter (\<lambda>(e, o'). opKind o' = opNewOrder) eos)"
    "\<forall>past. shows_book past m1 \<longrightarrow> shows_book (past @ calls2) m2" by blast
  have "shows_book (past @ (calls1 @ calls2)) m2" if "shows_book past m" for past
    using c1(4) c2(4) that by (metis append.assoc)
  then show ?case using h c1 c2 by (simp add: eo)
qed simp

theorem metrics_follow_the_market_witness:
  "\<exists>calls m' evs. measure_all discard_append no_store [(((), 5, 6), cancel_op 1), (((), 5, 7), new_op sample_own_fok)]
     sample_market () () = Some (calls, m', evs) \<and> orders_counted ''BTC'' calls = 1 \<and>
   counter matchesTotal [''BTC''] calls = int (length (reported evs)) \<and>
   shows_book (behind_switch 0 (cancel_op 9) sample_market @ calls) m'"
proof -
  have on: "book_wf (mkBook sample_market)" "optOnMatch (mkOpts sample_market)"
    using sample_book_wf(1) by (simp_all add: sample_opts_def)
  have db: "\<forall>ob (db :: unit). book_wf ob \<longrightarrow> no_store ob db \<noteq> None" by simp
  have past: "shows_book (behind_switch 0 (cancel_op 9) sample_market) sample_market"
    using behind_switch_shows [of "[]"] by simp
  from metrics_follow_the_market [OF on db, of discard_append
      "[(((), 5, 6), cancel_op 1), (((), 5, 7), new_op sample_own_fok)]" "()" "()"] past
  show ?thesis by (auto simp: cancel_op_def new_op_def)
qed

section \<open>No call panics\<close>

text \<open>
  The client panics when the number of label values is not that of the label names, and
  when a counter is given a negative amount.
\<close>

fun well_typed :: "metric_call \<Rightarrow> bool" where
  "well_typed (Inc c ls) \<longleftrightarrow> collector_kind c = CounterVec \<and> length ls = length (collector_labels c)"
| "well_typed (AddTo c ls n) \<longleftrightarrow> collector_kind c = CounterVec \<and> length ls = length (collector_labels c) \<and> 0 \<le> n"
| "well_typed (SetTo c ls n) \<longleftrightarrow> collector_kind c = GaugeVec \<and> length ls = length (collector_labels c)"
| "well_typed (Observe c ls d) \<longleftrightarrow> collector_kind c = HistogramVec \<and> length ls = length (collector_labels c)"

lemma well_typed_calls [simp]:
  "list_all well_typed (metrics_Order s r)" "list_all well_typed (metrics_Matches s n)"
  "list_all well_typed (metrics_JournalAppendDuration d)" "list_all well_typed (behind_switch d o' m)"
  by (simp_all add: metrics_defs behind_switch_def)



end
