(* ===== verification/Registry.thy ===== *)
theory Registry
  imports Market "HOL-Library.AList"
begin

text \<open>
  \<^verbatim>\<open>market/registry.go\<close>: the markets of the process, one per symbol, created on first
  contact. A market is kept with the state of its goroutine; the journal, the snapshot
  store and the context are shared. \<^verbatim>\<open>newMarket\<close> enters as an argument \<open>create\<close> over the
  shared state, and \<^verbatim>\<open>handle\<close> through the arguments of the market's model. The mutex
  makes \<^verbatim>\<open>getOrCreate\<close> one step; the send behind it happens outside the lock and may
  block.
\<close>

section \<open>State\<close>

record proc =
  pcMarket :: market
  pcRunning :: bool

record ('j, 'r) registry =
  rgOpts :: options
  rgMarkets :: "(string \<times> proc) list"
  rgWaiting :: nat
  rgCancelled :: bool
  rgJournal :: 'j
  rgStore :: 'r

datatype registry_panic = NilJournal | LoadPanic proto_panic

text \<open>The journal is an interface value, so it may be nil.\<close>

definition NewRegistry :: "options \<Rightarrow> 'j option \<Rightarrow> 'r \<Rightarrow> registry_panic + ('j, 'r) registry" where
  "NewRegistry opts journal db =
     (case journal of
        None \<Rightarrow> Inl NilJournal
      | Some j \<Rightarrow> Inr \<lparr>rgOpts = opts, rgMarkets = [], rgWaiting = 0, rgCancelled = False,
                      rgJournal = j, rgStore = db\<rparr>)"

type_synonym ('j, 'r) maker = "'j \<Rightarrow> 'r \<Rightarrow> string \<Rightarrow> options \<Rightarrow> (proto_panic + market) option"

section \<open>Routing\<close>

definition getOrCreate :: "('j, 'r) maker \<Rightarrow> string \<Rightarrow> ('j, 'r) registry \<Rightarrow> (registry_panic + ('j, 'r) registry) option" where
  "getOrCreate create symbol r =
     (case map_of (rgMarkets r) symbol of
        Some p \<Rightarrow> Some (Inr r)
      | None \<Rightarrow>
          (case create (rgJournal r) (rgStore r) symbol (rgOpts r) of
             None \<Rightarrow> None
           | Some (Inl e) \<Rightarrow> Some (Inl (LoadPanic e))
           | Some (Inr m) \<Rightarrow>
               Some (Inr (r\<lparr>rgMarkets := AList.update symbol \<lparr>pcMarket = m, pcRunning = True\<rparr> (rgMarkets r),
                            rgWaiting := rgWaiting r + 1\<rparr>))))"

definition Registry_Get :: "('j, 'r) maker \<Rightarrow> string \<Rightarrow> ('j, 'r) registry \<Rightarrow> (registry_panic + ('j, 'r) registry) option" where
  "Registry_Get create symbol r = getOrCreate create symbol r"

definition Registry_Count :: "('j, 'r) registry \<Rightarrow> nat" where
  "Registry_Count r = length (rgMarkets r)"

text \<open>
  The send of an operation to a market that exists. The flag is whether it went through;
  if not, the caller is blocked and sends again when there is room.
\<close>

definition send_to :: "string \<Rightarrow> (market \<Rightarrow> market option) \<Rightarrow> ('j, 'r) registry \<Rightarrow> bool \<times> ('j, 'r) registry" where
  "send_to symbol send r =
     (case map_of (rgMarkets r) symbol of
        None \<Rightarrow> (False, r)
      | Some p \<Rightarrow>
          (case send (pcMarket p) of
             None \<Rightarrow> (False, r)
           | Some m \<Rightarrow> (True, r\<lparr>rgMarkets := AList.update symbol (p\<lparr>pcMarket := m\<rparr>) (rgMarkets r)\<rparr>)))"

definition route :: "('j, 'r) maker \<Rightarrow> string \<Rightarrow> (market \<Rightarrow> market option) \<Rightarrow> ('j, 'r) registry
    \<Rightarrow> (registry_panic + bool \<times> ('j, 'r) registry) option" where
  "route create symbol send r =
     (case getOrCreate create symbol r of
        None \<Rightarrow> None
      | Some (Inl e) \<Rightarrow> Some (Inl e)
      | Some (Inr r1) \<Rightarrow> Some (Inr (send_to symbol send r1)))"

definition Registry_Submit :: "('j, 'r) maker \<Rightarrow> order \<Rightarrow> ('j, 'r) registry \<Rightarrow> (registry_panic + bool \<times> ('j, 'r) registry) option" where
  "Registry_Submit create ord r = route create (oSymbol ord) (Market_Submit ord) r"

definition Registry_Cancel :: "('j, 'r) maker \<Rightarrow> order \<Rightarrow> ('j, 'r) registry \<Rightarrow> (registry_panic + bool \<times> ('j, 'r) registry) option" where
  "Registry_Cancel create ord r = route create (oSymbol ord) (Market_Cancel (oID ord)) r"

definition Registry_Modify :: "('j, 'r) maker \<Rightarrow> string \<Rightarrow> order_id \<Rightarrow> px \<Rightarrow> qty \<Rightarrow> ('j, 'r) registry
    \<Rightarrow> (registry_panic + bool \<times> ('j, 'r) registry) option" where
  "Registry_Modify create symbol orderID newPrice newVolume r =
     route create symbol (Market_Modify orderID newPrice newVolume) r"

section \<open>The running process\<close>

text \<open>
  What producers ask for, and the steps: a request is routed (and its operation enqueued,
  or its sender blocked), a goroutine handles the oldest operation of its market, the
  context is cancelled, a goroutine returns.
\<close>

datatype request = Submit order | CancelOf order | Modify string order_id px qty

fun request_symbol :: "request \<Rightarrow> string" where
  "request_symbol (Submit ord) = oSymbol ord"
| "request_symbol (CancelOf ord) = oSymbol ord"
| "request_symbol (Modify symbol i p v) = symbol"

fun request_op :: "request \<Rightarrow> op" where
  "request_op (Submit ord) = new_op ord"
| "request_op (CancelOf ord) = cancel_op (oID ord)"
| "request_op (Modify symbol i p v) = modify_op i p v"

fun serve :: "('j, 'r) maker \<Rightarrow> request \<Rightarrow> ('j, 'r) registry \<Rightarrow> (registry_panic + bool \<times> ('j, 'r) registry) option" where
  "serve create (Submit ord) r = Registry_Submit create ord r"
| "serve create (CancelOf ord) r = Registry_Cancel create ord r"
| "serve create (Modify symbol i p v) r = Registry_Modify create symbol i p v r"

datatype 'env event = Routed request | Waits request | Ran string 'env op "sink_event list" | Cancelled | Exited string

inductive reg_step :: "('j, 'r) maker \<Rightarrow> ('env \<Rightarrow> string \<Rightarrow> journal_record \<Rightarrow> 'j \<Rightarrow> journal_error option \<times> 'j)
    \<Rightarrow> (orderbook \<Rightarrow> 'r \<Rightarrow> 'r option) \<Rightarrow> ('j, 'r) registry \<Rightarrow> 'env event \<Rightarrow> ('j, 'r) registry \<Rightarrow> bool"
  for create log_append commit where
  routed: "serve create q r = Some (Inr (True, r')) \<Longrightarrow> reg_step create log_append commit r (Routed q) r'"
| waits: "serve create q r = Some (Inr (False, r')) \<Longrightarrow> reg_step create log_append commit r (Waits q) r'"
| ran: "map_of (rgMarkets r) symbol = Some p \<Longrightarrow> pcRunning p \<Longrightarrow> mkInbox (pcMarket p) = o' # os \<Longrightarrow>
    handle log_append commit env o' ((pcMarket p)\<lparr>mkInbox := os\<rparr>) (rgJournal r) (rgStore r) = Some (m, j, db, evs) \<Longrightarrow>
    reg_step create log_append commit r (Ran symbol env o' evs)
      (r\<lparr>rgMarkets := AList.update symbol (p\<lparr>pcMarket := m\<rparr>) (rgMarkets r), rgJournal := j, rgStore := db\<rparr>)"
| cancelled: "reg_step create log_append commit r Cancelled (r\<lparr>rgCancelled := True\<rparr>)"
| exited: "map_of (rgMarkets r) symbol = Some p \<Longrightarrow> pcRunning p \<Longrightarrow> rgCancelled r \<Longrightarrow>
    reg_step create log_append commit r (Exited symbol)
      (r\<lparr>rgMarkets := AList.update symbol (p\<lparr>pcRunning := False\<rparr>) (rgMarkets r), rgWaiting := rgWaiting r - 1\<rparr>)"

inductive reg_run :: "('j, 'r) maker \<Rightarrow> ('env \<Rightarrow> string \<Rightarrow> journal_record \<Rightarrow> 'j \<Rightarrow> journal_error option \<times> 'j)
    \<Rightarrow> (orderbook \<Rightarrow> 'r \<Rightarrow> 'r option) \<Rightarrow> ('j, 'r) registry \<Rightarrow> 'env event list \<Rightarrow> ('j, 'r) registry \<Rightarrow> bool"
  for create log_append commit where
  none: "reg_run create log_append commit r [] r"
| step: "reg_run create log_append commit r ls r1 \<Longrightarrow> reg_step create log_append commit r1 l r2 \<Longrightarrow>
    reg_run create log_append commit r (ls @ [l]) r2"

end
