(* ===== verification/Process.thy ===== *)
theory Process
  imports Registry JsonRecords
begin

text \<open>
  \<^verbatim>\<open>kafka.go\<close>, \<^verbatim>\<open>instruments.go\<close>, \<^verbatim>\<open>main.go\<close> and the environment helper of
  \<^verbatim>\<open>utils/utils.go\<close>: from a message on the Kafka topic to a request to the registry, and
  the main loop with its shutdown. What the Kafka client returns is an input, message by
  message; the metrics server, the gauge ticker and logging are left out.
\<close>

section \<open>Environment\<close>

text \<open>\<^verbatim>\<open>os.Getenv\<close> gives the empty string for a variable that is not set.\<close>

definition GetEnvOrDefault :: "(string \<Rightarrow> string) \<Rightarrow> string \<Rightarrow> string \<Rightarrow> string" where
  "GetEnvOrDefault getenv key defaultVal = (let val = getenv key in if val = '''' then defaultVal else val)"

text \<open>\<^verbatim>\<open>strconv.ParseBool\<close>.\<close>

definition ParseBool :: "string \<Rightarrow> bool option" where
  "ParseBool s =
     (if s \<in> {''1'', ''t'', ''T'', ''TRUE'', ''true'', ''True''} then Some True
      else if s \<in> {''0'', ''f'', ''F'', ''FALSE'', ''false'', ''False''} then Some False
      else None)"

definition journal_dir :: "(string \<Rightarrow> string) \<Rightarrow> string" where
  "journal_dir getenv = GetEnvOrDefault getenv ''GUN_JOURNAL_DIR'' ''./data/journal''"

definition fsync_on_append :: "(string \<Rightarrow> string) \<Rightarrow> bool" where
  "fsync_on_append getenv =
     (let v = GetEnvOrDefault getenv ''GUN_JOURNAL_FSYNC'' ''true'' in
      if v \<noteq> '''' then (case ParseBool v of Some b \<Rightarrow> b | None \<Rightarrow> True) else True)"

definition main_options :: options where
  "main_options = \<lparr>optInboxSize = 4096, optOnMatch = True, optOnBook = True, optOnReject = False,
     optOnL2 = False, optPersist = True\<rparr>"

section \<open>From messages to instruments\<close>

type_synonym command = string

definition NEW_ORDER_CMD :: command where "NEW_ORDER_CMD = ''new_order''"
definition CANCEL_ORDER_CMD :: command where "CANCEL_ORDER_CMD = ''cancel_order''"
definition START_LOADTEST_CMD :: command where "START_LOADTEST_CMD = ''start_loadtest''"
definition END_LOADTEST_CMD :: command where "END_LOADTEST_CMD = ''end_loadtest''"

record instrument =
  inCommand :: command
  inValue :: order

record message =
  msKey :: string
  msValue :: string

definition HasPrefix :: "string \<Rightarrow> string \<Rightarrow> bool" where
  "HasPrefix s p = (take (length p) s = p)"

text \<open>
  One turn of the consumer loop: \<open>None\<close> is a read error. What is sent on the channel, if
  anything.
\<close>

definition consume :: "message option \<Rightarrow> instrument option" where
  "consume read =
     (case read of
        None \<Rightarrow> None
      | Some msg \<Rightarrow>
          let key = msKey msg in
          if HasPrefix key ''create_'' then
            map_option (\<lambda>ord. \<lparr>inCommand = NEW_ORDER_CMD, inValue = ord\<rparr>) (Unmarshal_order (msValue msg))
          else if HasPrefix key ''cancel_'' then
            map_option (\<lambda>ord. \<lparr>inCommand = CANCEL_ORDER_CMD, inValue = ord\<rparr>) (Unmarshal_order (msValue msg))
          else if key = ''start_loadtest'' then Some \<lparr>inCommand = START_LOADTEST_CMD, inValue = zero_order\<rparr>
          else if key = ''end_loadtest'' then Some \<lparr>inCommand = END_LOADTEST_CMD, inValue = zero_order\<rparr>
          else None)"

section \<open>The main loop\<close>

text \<open>What the switch on the command asks the registry for; the load-test marks only log.\<close>

definition dispatch :: "instrument \<Rightarrow> request option" where
  "dispatch inst =
     (if inCommand inst = NEW_ORDER_CMD then Some (Submit (inValue inst))
      else if inCommand inst = CANCEL_ORDER_CMD then Some (CancelOf (inValue inst))
      else None)"

definition channel_capacity :: nat where "channel_capacity = 4096"

text \<open>
  The process: the consumer and the dispatcher are goroutines with the channel between
  them; \<open>prBlocked\<close> is the request the dispatcher is blocked on, \<open>prConsumers\<close> what the
  consumer has added to the wait group and not taken back.
\<close>

record ('j, 'r) process =
  prRegistry :: "('j, 'r) registry"
  prChannel :: "instrument list"
  prDispatching :: bool
  prBlocked :: "request option"
  prConsumers :: nat

definition start_process :: "('j, 'r) registry \<Rightarrow> ('j, 'r) process" where
  "start_process r = \<lparr>prRegistry = r, prChannel = [], prDispatching = True, prBlocked = None, prConsumers = 1\<rparr>"

text \<open>\<^verbatim>\<open>wg.Wait()\<close> returns when the count is zero.\<close>

definition wait_count :: "('j, 'r) process \<Rightarrow> nat" where
  "wait_count pr = rgWaiting (prRegistry pr) + prConsumers pr"

fun background :: "'env event \<Rightarrow> bool" where
  "background (Ran s env o' evs) = True"
| "background (Exited s) = True"
| "background Cancelled = True"
| "background l = False"

datatype 'env activity = Read "message option" | Took instrument "'env event list" | Resumed request
  | Background "'env event" | Drained

inductive proc_step :: "('j, 'r) maker \<Rightarrow> ('env \<Rightarrow> string \<Rightarrow> journal_record \<Rightarrow> 'j \<Rightarrow> journal_error option \<times> 'j)
    \<Rightarrow> (orderbook \<Rightarrow> 'r \<Rightarrow> 'r option) \<Rightarrow> ('j, 'r) process \<Rightarrow> 'env activity \<Rightarrow> ('j, 'r) process \<Rightarrow> bool"
  for create log_append commit where
  skipped: "consume rd = None \<Longrightarrow> proc_step create log_append commit pr (Read rd) pr"
| delivered: "consume rd = Some i \<Longrightarrow> length (prChannel pr) < channel_capacity \<Longrightarrow>
    proc_step create log_append commit pr (Read rd) (pr\<lparr>prChannel := prChannel pr @ [i]\<rparr>)"
| ignored: "prDispatching pr \<Longrightarrow> prBlocked pr = None \<Longrightarrow> prChannel pr = i # ch \<Longrightarrow> dispatch i = None \<Longrightarrow>
    proc_step create log_append commit pr (Took i []) (pr\<lparr>prChannel := ch\<rparr>)"
| routed: "prDispatching pr \<Longrightarrow> prBlocked pr = None \<Longrightarrow> prChannel pr = i # ch \<Longrightarrow> dispatch i = Some q \<Longrightarrow>
    reg_step create log_append commit (prRegistry pr) (Routed q) r \<Longrightarrow>
    proc_step create log_append commit pr (Took i [Routed q]) (pr\<lparr>prChannel := ch, prRegistry := r\<rparr>)"
| blocked: "prDispatching pr \<Longrightarrow> prBlocked pr = None \<Longrightarrow> prChannel pr = i # ch \<Longrightarrow> dispatch i = Some q \<Longrightarrow>
    reg_step create log_append commit (prRegistry pr) (Waits q) r \<Longrightarrow>
    proc_step create log_append commit pr (Took i [Waits q]) (pr\<lparr>prChannel := ch, prRegistry := r, prBlocked := Some q\<rparr>)"
| resumed: "prBlocked pr = Some q \<Longrightarrow> reg_step create log_append commit (prRegistry pr) (Routed q) r \<Longrightarrow>
    proc_step create log_append commit pr (Resumed q) (pr\<lparr>prRegistry := r, prBlocked := None\<rparr>)"
| worked: "background l \<Longrightarrow> reg_step create log_append commit (prRegistry pr) l r \<Longrightarrow>
    proc_step create log_append commit pr (Background l) (pr\<lparr>prRegistry := r\<rparr>)"
| drained: "prDispatching pr \<Longrightarrow> prBlocked pr = None \<Longrightarrow> rgCancelled (prRegistry pr) \<Longrightarrow>
    proc_step create log_append commit pr Drained (pr\<lparr>prDispatching := False\<rparr>)"

inductive proc_run :: "('j, 'r) maker \<Rightarrow> ('env \<Rightarrow> string \<Rightarrow> journal_record \<Rightarrow> 'j \<Rightarrow> journal_error option \<times> 'j)
    \<Rightarrow> (orderbook \<Rightarrow> 'r \<Rightarrow> 'r option) \<Rightarrow> ('j, 'r) process \<Rightarrow> 'env activity list \<Rightarrow> ('j, 'r) process \<Rightarrow> bool"
  for create log_append commit where
  idle: "proc_run create log_append commit pr [] pr"
| acts: "proc_run create log_append commit pr as pr1 \<Longrightarrow> proc_step create log_append commit pr1 a pr2 \<Longrightarrow>
    proc_run create log_append commit pr (as @ [a]) pr2"

section \<open>Per-symbol locks\<close>

text \<open>
  \<^verbatim>\<open>utils.SymbolMutex\<close>: mutexes are numbered by their creation; \<^verbatim>\<open>Get\<close> loads the
  symbol's or stores a new one.
\<close>

type_synonym symbol_mutex = "(string \<times> nat) list"

definition SymbolMutex_Get :: "string \<Rightarrow> symbol_mutex \<Rightarrow> nat \<times> symbol_mutex" where
  "SymbolMutex_Get symbol m =
     (case map_of m symbol of
        Some k \<Rightarrow> (k, m)
      | None \<Rightarrow> (length m, m @ [(symbol, length m)]))"

end
