(* ===== verification/RegistrySpec.thy ===== *)
theory RegistrySpec
  imports Registry Recovery JsonSpec Samples
begin

text \<open>
  What the registry relies on when it creates a market, stated as an interface that
  \<^verbatim>\<open>newMarket\<close> over the file journal and the Redis snapshot provides, and what the
  registry keeps through every interleaving of producers, goroutines and shutdown.
\<close>

section \<open>Creating a market\<close>

locale market_maker =
  fixes create :: "('j, 'r) maker"
  assumes create_returns: "\<exists>out. create j db s opts = Some out"
    and create_symbol: "create j db s opts = Some (Inr m) \<Longrightarrow> mkSymbol m = s"
    and create_inbox: "create j db s opts = Some (Inr m) \<Longrightarrow> mkInbox m = [] \<and> 0 < mkCapacity m"
    and create_book: "create j db s opts = Some (Inr m) \<Longrightarrow> book_wf (mkBook m)"

definition file_market :: "string \<Rightarrow> (string \<Rightarrow> proto_book option) \<Rightarrow> bool \<Rightarrow> bool \<Rightarrow> (file_journal \<times> disk, redis) maker" where
  "file_market supportedSymbols decode getOk readable st rdb symbol opts =
     newMarket supportedSymbols (LoadOrderbook decode getOk rdb symbol)
       (\<lambda>s f b. Replay Unmarshal_record readable s f st b) symbol opts"

lemma add_protos_wf: "book_wf ob \<Longrightarrow> add_protos ps ob = Inr ob' \<Longrightarrow> book_wf ob'"
proof (induction ps arbitrary: ob)
  case (Cons p ps)
  then show ?case using Add_wf by (auto split: sum.splits)
qed simp

lemma add_levels_wf: "book_wf ob \<Longrightarrow> add_levels ls ob = Inr ob' \<Longrightarrow> book_wf ob'"
proof (induction ls arbitrary: ob)
  case (Cons l ls)
  then show ?case using add_protos_wf by (auto split: sum.splits)
qed simp

lemma queue_protos_wf: "book_wf ob \<Longrightarrow> queue_protos ps ob = Inr ob' \<Longrightarrow> book_wf ob'"
proof (induction ps arbitrary: ob)
  case (Cons p ps)
  have "book_wf (ob\<lparr>obConditional := c\<rparr>)" for c using Cons.prems(1) by (simp add: snapshot_conditional_keeps)
  then show ?case using Cons.IH Cons.prems(2) by (auto split: sum.splits)
qed simp

lemma OrderbookFromProto_wf:
  assumes "OrderbookFromProto pb = Inr ob"
  shows "book_wf ob"
proof -
  obtain ob1 ob2 where "add_levels (pbBuy pb) (SetSeq (pbSeq pb) (NewOrderbook (pbSymbol pb))) = Inr ob1"
    "add_levels (pbSell pb) ob1 = Inr ob2" "queue_protos (pbConditional pb) ob2 = Inr ob"
    using assms by (auto simp: OrderbookFromProto_def split: sum.splits)
  then show ?thesis using SetSeq_new(1) add_levels_wf queue_protos_wf by blast
qed

lemma LoadOrderbook_wf: "LoadOrderbook decode getOk rdb symbol = Inr (Some ob) \<Longrightarrow> book_wf ob"
  using OrderbookFromProto_wf by (auto simp: LoadOrderbook_def split: option.splits if_splits sum.splits)

lemma replay_lines_wf:
  "book_wf b \<Longrightarrow> \<exists>err b'. replay_lines unmarshal p replay_callback n ls b = Some (err, b') \<and> book_wf b'"
proof (induction ls arbitrary: n b)
  case (Cons l ls)
  show ?case
  proof (cases "unmarshal (dropCR l)")
    case (Some r)
    obtain b1 where "replay_callback r b = Some (None, b1)" "book_wf b1"
      using applyJournalRecord_returns [OF Cons.prems, of r] by (auto simp: replay_callback_def)
    then show ?thesis using Cons.IH Cons.prems Some by simp
  qed (use Cons in simp)
qed simp

lemma Replay_wf:
  "book_wf b \<Longrightarrow> \<exists>err b'. Replay unmarshal readable symbol replay_callback st b = Some (err, b') \<and> book_wf b'"
  using replay_lines_wf by (auto simp: Replay_def Let_def split: prod.split option.split)

lemma file_market_cases:
  assumes "file_market supportedSymbols decode getOk readable st rdb symbol opts = out"
  obtains e where "LoadOrderbook decode getOk rdb symbol = Inl e" "out = Some (Inl e)"
    | m b0 err b1 where "out = Some (Inr m)" "mkSymbol m = symbol" "mkInbox m = []" "0 < mkCapacity m" "book_wf (mkBook m)"
      "book_wf b0" "Replay Unmarshal_record readable symbol replay_callback st b0 = Some (err, b1)"
      "mkBook m = (if optOnL2 opts then SetL2Sink True b1 else b1)"
      "LoadOrderbook decode getOk rdb symbol = Inr None \<and> b0 = NewOrderbook symbol \<or>
       LoadOrderbook decode getOk rdb symbol = Inr (Some b0)"
      "optOnL2 (mkOpts m) = optOnL2 opts" "optPersist (mkOpts m) = optPersist opts"
proof (cases "LoadOrderbook decode getOk rdb symbol")
  case (Inl e)
  then show thesis using assms that(1) by (simp add: file_market_def newMarket_def Let_def)
next
  case (Inr snap)
  let ?b0 = "case LoadOrFetchOrderbook supportedSymbols snap symbol of Inl _ \<Rightarrow> NewOrderbook symbol | Inr b \<Rightarrow> b"
  have snap: "snap = None \<and> ?b0 = NewOrderbook symbol \<or> snap = Some ?b0"
    by (cases snap) (simp_all add: LoadOrFetchOrderbook_def createOrderbook_def)
  have wf0: "book_wf ?b0"
  proof (cases snap)
    case None
    then show ?thesis using snap NewOrderbook_ok by (simp add: book_ok_def)
  next
    case (Some b)
    then show ?thesis using LoadOrderbook_wf Inr by (simp add: LoadOrFetchOrderbook_def)
  qed
  obtain err b1 where r: "Replay Unmarshal_record readable symbol replay_callback st ?b0 = Some (err, b1)" "book_wf b1"
    using Replay_wf [OF wf0] by blast
  have "book_wf (SetL2Sink True b1)" using r(2) by (simp add: SetL2Sink_sound)
  define opts1 where "opts1 = (if optInboxSize opts \<le> 0 then opts\<lparr>optInboxSize := inboxDefault\<rparr> else opts)"
  have o1: "optOnL2 opts1 = optOnL2 opts" "optPersist opts1 = optPersist opts" "0 < optInboxSize opts1"
    by (simp_all add: opts1_def inboxDefault_def)
  define m where "m = \<lparr>mkSymbol = symbol, mkInbox = [], mkCapacity = nat (optInboxSize opts1),
    mkBook = (if optOnL2 opts then SetL2Sink True b1 else b1), mkOpts = opts1\<rparr>"
  have out: "out = Some (Inr m)"
    using assms Inr r(1) o1(1) by (simp add: file_market_def newMarket_def m_def Let_def flip: opts1_def)
  have "book_wf (mkBook m)" using r(2) \<open>book_wf (SetL2Sink True b1)\<close> by (simp add: m_def)
  moreover have "LoadOrderbook decode getOk rdb symbol = Inr None \<and> ?b0 = NewOrderbook symbol \<or>
      LoadOrderbook decode getOk rdb symbol = Inr (Some ?b0)"
    using snap Inr by metis
  ultimately show thesis
    by (intro that(2) [OF out _ _ _ _ wf0 r(1)]) (simp_all add: m_def o1)
qed

interpretation file_maker: market_maker "file_market supportedSymbols decode getOk readable"
  for supportedSymbols decode getOk readable
proof unfold_locales
  fix j db s opts
  show "\<exists>out. file_market supportedSymbols decode getOk readable j db s opts = Some out"
    by (rule file_market_cases [OF refl, where supportedSymbols = supportedSymbols and decode = decode and getOk = getOk
        and readable = readable and st = j and rdb = db and symbol = s and opts = opts]) blast+
next
  fix j db s opts m
  assume "file_market supportedSymbols decode getOk readable j db s opts = Some (Inr m)"
  then show "mkSymbol m = s" "mkInbox m = [] \<and> 0 < mkCapacity m" "book_wf (mkBook m)"
    by (rule file_market_cases; simp)+
qed


section \<open>Association lists\<close>

lemma update_new: "map_of al k = None \<Longrightarrow> AList.update k v al = al @ [(k, v)]"
  by (induction al) auto

lemma count_update:
  "distinct (map fst al) \<Longrightarrow> map_of al k = Some w \<Longrightarrow>
   length (filter P (AList.update k v al)) + (if P (k, w) then 1 else 0) = length (filter P al) + (if P (k, v) then 1 else 0)"
  by (induction al) auto

lemma map_of_entries: "distinct (map fst al) \<Longrightarrow> (\<forall>(k, v) \<in> set al. P k v) \<longleftrightarrow> (\<forall>k v. map_of al k = Some v \<longrightarrow> P k v)"
  using map_of_eq_Some_iff by fastforce

section \<open>The invariant of the registry\<close>

definition registry_ok :: "('j, 'r) registry \<Rightarrow> bool" where
  "registry_ok r \<longleftrightarrow> distinct (map fst (rgMarkets r)) \<and>
     (\<forall>s p. map_of (rgMarkets r) s = Some p \<longrightarrow> mkSymbol (pcMarket p) = s \<and>
        length (mkInbox (pcMarket p)) \<le> mkCapacity (pcMarket p) \<and> 0 < mkCapacity (pcMarket p) \<and>
        book_wf (mkBook (pcMarket p))) \<and>
     rgWaiting r = length (filter (\<lambda>(s, p). pcRunning p) (rgMarkets r))"

definition inbox_at :: "string \<Rightarrow> ('j, 'r) registry \<Rightarrow> op list" where
  "inbox_at s r = (case map_of (rgMarkets r) s of None \<Rightarrow> [] | Some p \<Rightarrow> mkInbox (pcMarket p))"

fun routed_to :: "string \<Rightarrow> 'env event list \<Rightarrow> op list" where
  "routed_to s [] = []"
| "routed_to s (Routed q # ls) = (if request_symbol q = s then request_op q # routed_to s ls else routed_to s ls)"
| "routed_to s (l # ls) = routed_to s ls"

fun ran_at :: "string \<Rightarrow> 'env event list \<Rightarrow> ('env \<times> op) list" where
  "ran_at s [] = []"
| "ran_at s (Ran s' env o' evs # ls) = (if s' = s then (env, o') # ran_at s ls else ran_at s ls)"
| "ran_at s (l # ls) = ran_at s ls"

lemma routed_to_append [simp]: "routed_to s (a @ b) = routed_to s a @ routed_to s b"
  by (induction s a rule: routed_to.induct) simp_all

lemma ran_at_append [simp]: "ran_at s (a @ b) = ran_at s a @ ran_at s b"
  by (induction s a rule: ran_at.induct) simp_all

lemma serve_route: "serve create q r = route create (request_symbol q) (send_op (request_op q)) r"
proof -
  have "Market_Submit x = send_op (new_op x)" "Market_Cancel i = send_op (cancel_op i)"
    "Market_Modify i p v = send_op (modify_op i p v)" for x i p v
    by (simp_all add: fun_eq_iff Market_Submit_def Market_Cancel_def Market_Modify_def)
  then show ?thesis
    by (cases q) (simp_all add: Registry_Submit_def Registry_Cancel_def Registry_Modify_def)
qed

lemma handle_book_only:
  assumes "handle log_append commit env o' m j db = Some (m', j', db', evs)"
  shows "book_only m m'"
proof -
  let ?h = "case opKind o' of
      opNewOrder \<Rightarrow> handle_new log_append env o' m j
    | opCancel \<Rightarrow> handle_cancel log_append env o' m j
    | opModify \<Rightarrow> handle_modify log_append env o' m j"
  obtain go m1 j1 evs1 where h: "?h = Some (go, m1, j1, evs1)" and m1: "m1 = m'"
    using assms by (auto simp: handle_def bind_eq_Some_conv split: if_splits)
  have "book_only m m1"
  proof (cases "opKind o'")
    case opNewOrder
    then have "handle_new log_append env o' m j = Some (go, m1, j1, evs1)" using h by simp
    then show ?thesis
      by (auto simp: handle_new_def Let_def bind_eq_Some_conv split: if_splits option.splits prod.splits)
  next
    case opCancel
    then show ?thesis using h by (auto simp: handle_cancel_def split: option.splits prod.splits)
  next
    case opModify
    then have "handle_modify log_append env o' m j = Some (go, m1, j1, evs1)" using h by simp
    then show ?thesis
      by (auto simp: handle_modify_def Let_def bind_eq_Some_conv split: option.splits prod.splits)
  qed
  then show ?thesis using m1 by simp
qed

lemma registry_ok_update:
  assumes ok: "registry_ok r" and p: "map_of (rgMarkets r) s = Some p"
    and m: "mkSymbol m = s" "length (mkInbox m) \<le> mkCapacity m" "0 < mkCapacity m" "book_wf (mkBook m)"
    and w: "w + (if pcRunning p then 1 else 0) = rgWaiting r + (if b then 1 else 0)"
  shows "registry_ok (r\<lparr>rgMarkets := AList.update s (p\<lparr>pcMarket := m, pcRunning := b\<rparr>) (rgMarkets r), rgWaiting := w,
    rgJournal := j, rgStore := db\<rparr>)"
  using assms count_update [of "rgMarkets r" s p "\<lambda>(s, p). pcRunning p" "p\<lparr>pcMarket := m, pcRunning := b\<rparr>"]
  by (auto simp: registry_ok_def update_conv' distinct_update split: if_splits)


context market_maker
begin

lemma getOrCreate_keeps:
  assumes ok: "registry_ok r" and go: "getOrCreate create s r = Some (Inr r1)"
  shows "registry_ok r1 \<and> (\<exists>p. map_of (rgMarkets r1) s = Some p) \<and>
    (\<forall>s'. s' \<noteq> s \<longrightarrow> map_of (rgMarkets r1) s' = map_of (rgMarkets r) s') \<and>
    (map_of (rgMarkets r) s \<noteq> None \<longrightarrow> r1 = r) \<and> (\<forall>s'. inbox_at s' r1 = inbox_at s' r) \<and>
    rgJournal r1 = rgJournal r \<and> rgStore r1 = rgStore r \<and> rgOpts r1 = rgOpts r \<and> rgCancelled r1 = rgCancelled r"
proof (cases "map_of (rgMarkets r) s")
  case (Some p)
  then show ?thesis using ok go by (simp add: getOrCreate_def)
next
  case None
  then obtain m where m: "create (rgJournal r) (rgStore r) s (rgOpts r) = Some (Inr m)"
    and r1: "r1 = r\<lparr>rgMarkets := rgMarkets r @ [(s, \<lparr>pcMarket = m, pcRunning = True\<rparr>)], rgWaiting := rgWaiting r + 1\<rparr>"
    using go by (auto simp: getOrCreate_def update_new split: option.splits sum.splits)
  note new = create_symbol [OF m] create_inbox [OF m] create_book [OF m]
  have "s \<notin> fst ` set (rgMarkets r)" using None by (simp add: map_of_eq_None_iff)
  then have "registry_ok r1"
    using ok new by (auto simp: registry_ok_def r1 map_add_def split: option.splits if_splits)
  then show ?thesis
    using None new by (auto simp: r1 inbox_at_def map_add_def split: option.splits)
qed

lemma serve_keeps:
  assumes ok: "registry_ok r" and go: "serve create q r = Some (Inr (through, r2))"
  shows "registry_ok r2 \<and> (\<forall>s. inbox_at s r2 =
      inbox_at s r @ (if through \<and> request_symbol q = s then [request_op q] else [])) \<and>
    rgJournal r2 = rgJournal r \<and> rgStore r2 = rgStore r"
proof -
  let ?s = "request_symbol q" and ?o = "request_op q"
  obtain r1 where g: "getOrCreate create ?s r = Some (Inr r1)" and st: "(through, r2) = send_to ?s (send_op ?o) r1"
    using go by (auto simp: serve_route route_def split: option.splits sum.splits)
  note k = getOrCreate_keeps [OF ok g]
  obtain p where p: "map_of (rgMarkets r1) ?s = Some p" using k by blast
  have mo: "mkSymbol (pcMarket p) = ?s \<and> length (mkInbox (pcMarket p)) \<le> mkCapacity (pcMarket p) \<and>
      0 < mkCapacity (pcMarket p) \<and> book_wf (mkBook (pcMarket p))"
    using k p unfolding registry_ok_def by blast
  show ?thesis
  proof (cases "send_op ?o (pcMarket p)")
    case None
    then show ?thesis using st p k by (simp add: send_to_def)
  next
    case (Some m)
    then have m: "m = (pcMarket p)\<lparr>mkInbox := mkInbox (pcMarket p) @ [?o]\<rparr>"
      and room: "length (mkInbox (pcMarket p)) < mkCapacity (pcMarket p)" by (simp_all add: send_op_Some)
    have r2: "through" "r2 = r1\<lparr>rgMarkets := AList.update ?s (p\<lparr>pcMarket := m\<rparr>) (rgMarkets r1)\<rparr>"
      using st p Some by (simp_all add: send_to_def)
    have u: "registry_ok (r1\<lparr>rgMarkets := AList.update ?s (p\<lparr>pcMarket := m, pcRunning := pcRunning p\<rparr>) (rgMarkets r1),
        rgWaiting := rgWaiting r1, rgJournal := rgJournal r1, rgStore := rgStore r1\<rparr>)"
      by (rule registry_ok_update) (use k p mo room in \<open>simp_all add: m\<close>)
    have "registry_ok r2" using u by (simp add: r2(2))
    moreover have "inbox_at s r2 = inbox_at s r1 @ (if ?s = s then [?o] else [])" for s
      using p by (cases "?s = s") (simp_all add: inbox_at_def r2(2) update_conv' m)
    ultimately show ?thesis using k r2 by simp
  qed
qed

lemma reg_step_keeps:
  assumes step: "reg_step create log_append commit r l r'" and ok: "registry_ok r"
  shows "registry_ok r' \<and> (\<forall>s. inbox_at s r @ routed_to s [l] = map snd (ran_at s [l]) @ inbox_at s r')"
  using step
proof (cases rule: reg_step.cases)
  case (routed q)
  then show ?thesis using serve_keeps [OF ok routed(2)] by simp
next
  case (waits q)
  then show ?thesis using serve_keeps [OF ok waits(2)] by simp
next
  case (ran symbol p o' os env m j db evs)
  let ?p = "(pcMarket p)\<lparr>mkInbox := os\<rparr>"
  have mo: "mkSymbol (pcMarket p) = symbol \<and> length (mkInbox (pcMarket p)) \<le> mkCapacity (pcMarket p) \<and>
      0 < mkCapacity (pcMarket p) \<and> book_wf (mkBook (pcMarket p))"
    using ok ran(3) unfolding registry_ok_def by blast
  have b: "book_only ?p m" "book_wf (mkBook m)"
    using handle_book_only [OF ran(6)] handle_grows [OF ran(6)] mo by simp_all
  have "registry_ok (r\<lparr>rgMarkets := AList.update symbol (p\<lparr>pcMarket := m, pcRunning := pcRunning p\<rparr>) (rgMarkets r),
      rgWaiting := rgWaiting r, rgJournal := j, rgStore := db\<rparr>)"
    by (rule registry_ok_update) (use ok ran(3,5) mo b in \<open>simp_all add: book_only_def\<close>)
  moreover have "inbox_at s r = (if s = symbol then [o'] else []) @ inbox_at s r'" for s
    using ran(2,3,5) b(1) by (simp add: inbox_at_def update_conv' book_only_def)
  ultimately show ?thesis using ran(1,2) by simp
next
  case cancelled
  then show ?thesis using ok by (simp add: registry_ok_def inbox_at_def)
next
  case (exited symbol p)
  have mo: "mkSymbol (pcMarket p) = symbol \<and> length (mkInbox (pcMarket p)) \<le> mkCapacity (pcMarket p) \<and>
      0 < mkCapacity (pcMarket p) \<and> book_wf (mkBook (pcMarket p))"
    using ok exited(3) unfolding registry_ok_def by blast
  have "(symbol, p) \<in> set (rgMarkets r)" using exited(3) by (rule map_of_SomeD)
  then have "0 < rgWaiting r"
    using ok exited(4) unfolding registry_ok_def by (auto simp: filter_empty_conv)
  then have "registry_ok (r\<lparr>rgMarkets := AList.update symbol (p\<lparr>pcMarket := pcMarket p, pcRunning := False\<rparr>) (rgMarkets r),
      rgWaiting := rgWaiting r - 1, rgJournal := rgJournal r, rgStore := rgStore r\<rparr>)"
    by (intro registry_ok_update) (use ok exited(3,4) mo in simp_all)
  moreover have "inbox_at s r' = inbox_at s r" for s
    using exited(2,3) by (simp add: inbox_at_def update_conv')
  ultimately show ?thesis using exited(1,2) by simp
qed

lemma reg_run_keeps:
  assumes "reg_run create log_append commit r ls r'" and "registry_ok r" and "rgMarkets r = []"
  shows "registry_ok r' \<and> (\<forall>s. routed_to s ls = map snd (ran_at s ls) @ inbox_at s r')"
  using assms
proof (induction r ls r' rule: reg_run.induct)
  case (none r)
  then show ?case by (simp add: inbox_at_def)
next
  case (step r ls r1 l r2)
  then show ?case using reg_step_keeps [OF step.hyps(2)] by (metis append.assoc map_append routed_to_append ran_at_append)
qed

lemma reg_run_progress:
  assumes "registry_ok r" and "map_of (rgMarkets r) s = Some p" "pcRunning p" "mkInbox (pcMarket p) = o' # os"
    and "\<forall>ob db. book_wf ob \<longrightarrow> commit ob db \<noteq> None"
  shows "\<exists>evs r'. reg_step create log_append commit r (Ran s env o' evs) r'"
proof -
  have "book_wf (mkBook (pcMarket p))" using assms(1,2) unfolding registry_ok_def by blast
  then have wf: "book_wf (mkBook ((pcMarket p)\<lparr>mkInbox := os\<rparr>))" by simp
  have "\<exists>m' j' db' evs. handle log_append commit env o' ((pcMarket p)\<lparr>mkInbox := os\<rparr>) (rgJournal r) (rgStore r) =
      Some (m', j', db', evs) \<and> book_wf (mkBook m') \<and> book_only ((pcMarket p)\<lparr>mkInbox := os\<rparr>) m'"
    by (rule wf.handle_keeps [OF wf TrueI]) (use assms(5) in blast)
  then obtain m' j' db' evs where "handle log_append commit env o' ((pcMarket p)\<lparr>mkInbox := os\<rparr>) (rgJournal r) (rgStore r) =
      Some (m', j', db', evs)" by blast
  from reg_step.ran [OF assms(2-4) this] show ?thesis by blast
qed

end

end
