(* ===== verification/RecoveryProps.thy ===== *)
theory RecoveryProps
  imports MarketProps
begin

text \<open>
  Restarting: when a market built from the journal is the market that wrote it, and the
  configurations in which it is not.
\<close>

section \<open>Recovery from the journal\<close>

abbreviation file_replay :: "file_journal \<times> disk
    \<Rightarrow> string \<Rightarrow> (journal_record \<Rightarrow> orderbook \<Rightarrow> (journal_error option \<times> orderbook) option)
    \<Rightarrow> orderbook \<Rightarrow> (journal_error option \<times> orderbook) option" where
  "file_replay st \<equiv> \<lambda>symbol f b. Replay Unmarshal_record True symbol f st b"

lemma LoadOrFetch_none:
  "(case LoadOrFetchOrderbook supported None symbol of Inl _ \<Rightarrow> NewOrderbook symbol | Inr b \<Rightarrow> b) = NewOrderbook symbol"
  by (simp add: LoadOrFetchOrderbook_def createOrderbook_def)

lemma newMarket_fresh:
  assumes "journal_log symbol st = []"
  shows "\<exists>m. newMarket supported (Inr None) (file_replay st) symbol opts = Some (Inr m) \<and> mkSymbol m = symbol \<and>
    mkInbox m = [] \<and> mkBook m = (if optOnL2 opts then SetL2Sink True (NewOrderbook symbol) else NewOrderbook symbol) \<and>
    0 < mkCapacity m \<and> optOnL2 (mkOpts m) = optOnL2 opts \<and> optPersist (mkOpts m) = optPersist opts"
proof -
  have "log_holds Unmarshal_record (journal_log symbol (fst st, snd st)) [] []" using assms log_holds_empty by simp
  from Replay_log [OF this] have "Replay Unmarshal_record True symbol f st b = Some (None, b)" for f :: "journal_record \<Rightarrow> orderbook \<Rightarrow> _" and b
    by simp
  then show ?thesis by (simp add: newMarket_def Let_def LoadOrFetch_none inboxDefault_def)
qed

text \<open>
  Crash recovery: a market that starts without a snapshot on an empty journal, with no
  L2 subscriber, handles any series of operations whose appends succeed, invalid orders
  and rejected operations included, and no conditional order gets queued. However far it
  got, a market built from the journal it left, on the same directory and without a
  snapshot, has exactly the same book.
\<close>

theorem crash_recovery:
  assumes "handles_ok st0" and "no_failed st0" and "journal_log symbol st0 = []" and "\<not> optOnL2 opts"
    and m0: "newMarket supported (Inr None) (file_replay st0) symbol opts = Some (Inr m0)"
    and run: "handle_all (file_append record_JSON) commit eos m0 st0 db = Some (m1, st1, db1, evs)"
    and none: "obConditional (mkBook m1) = []"
    and io: "\<forall>(e, o') \<in> set eos. io_ok (snd e)"
    and recs: "\<forall>(e, o') \<in> set eos. record_printable (stamp (fst e) (record_of_op symbol o')) \<and>
      length (record_JSON (stamp (fst e) (record_of_op symbol o'))) < maxToken"
    and dir: "fjDir j2 = fjDir (fst st0)"
  shows "\<exists>m2. newMarket supported2 (Inr None) (file_replay (j2, snd st1)) symbol opts = Some (Inr m2) \<and> mkBook m2 = mkBook m1"
proof -
  have m: "mkSymbol m0 = symbol" "mkBook m0 = NewOrderbook symbol"
    using newMarket_fresh [OF assms(3), of supported opts] m0 assms(4) by simp_all
  have wf: "book_wf (mkBook m0)" using NewOrderbook_ok m by (simp add: book_ok_def)
  have q: "quiet (file_append record_JSON) commit eos m0 st0 db"
    by (rule quiet_at_the_end [OF run wf none])
  have codec: "codec_reads record_JSON Unmarshal_record (mkSymbol m0) eos"
    using recs record_line_reads unfolding codec_reads_def Let_def m by fastforce
  have p: "pathFor j2 = pathFor (fst st0)" using dir by (simp add: pathFor_def fun_eq_iff)
  have new: "journal_log (mkSymbol m0) st0 = []" using assms(3) m(1) by simp
  have "Replay Unmarshal_record True symbol replay_callback (j2, snd st1) (NewOrderbook symbol) = Some (None, mkBook m1)"
    using replay_recovers [OF assms(1,2) new run wf q io codec p] m by simp
  then show ?thesis using assms(4) by (simp add: newMarket_def Let_def LoadOrFetch_none)
qed

lemma rests_ref:
  assumes wf: "book_wf ob" and x: "oType x = LIMIT" "oTIF x = GTC" "oSide x = side_of d" "0 < oVolume x"
    and no: "\<forall>(p, os) \<in> set (view (\<not> d) ob). \<not> crosses (Normalize x) p"
  shows "\<exists>ob'. MatchAndAddNewOrder ob x = Some (accepted [], ob') \<and> book_wf ob' \<and>
    ref_of ob' = ref_add (Normalize x) (ref_of ob)"
proof -
  have "ref_match (Normalize x) False (ref_of ob) = ([], oVolume x, ref_of ob)"
    using ref_match_uncrossed [OF _ no] x(3) by simp
  then have "ref_submit x (ref_of ob) = (accepted [], ref_add (Normalize x) (ref_of ob))"
    using x by (simp add: ref_submit_def ref_limit_def Normalize_volume Let_def)
  then show ?thesis using MatchAndAddNewOrder_ref [OF wf, of x] by (auto simp: runs_as_def)
qed


lemma journal_after:
  assumes "handles_ok st0" and "journal_log symbol st0 = []"
    and "file_append record_JSON (now, io) symbol r st0 = (None, st1)"
    and "record_printable (stamp now r)" and "length (record_JSON (stamp now r)) < maxToken"
  shows "Replay Unmarshal_record True symbol f st1 s = feed f [stamp now r] s"
proof -
  have "journal_log symbol st1 = concat (map (\<lambda>l. l @ [newline]) [record_JSON (stamp now r)])"
    using Append_cases [of "fst st0" "snd st0" record_JSON now io symbol r None st1] assms(1-3)
    by (simp add: file_append_def journal_entry_def)
  then have "log_holds Unmarshal_record (journal_log symbol (fst st1, snd st1)) ([] @ [stamp now r]) []"
    using log_holds_append [OF log_holds_empty, of Unmarshal_record "[record_JSON (stamp now r)]" "[stamp now r]"]
      record_line_reads [OF assms(4,5)] by simp
  from Replay_log [OF this, of f s] show ?thesis by (simp split: option.split)
qed

lemma new_record_printable: "json_order x \<Longrightarrow> record_printable (stamp now (new_record x))"
  by (simp add: record_printable_def json_order_def record_decimals_def stamp_def new_record_def zero_record_def
      px_val_def qty_val_def zero_px_def zero_qty_def ascii_def RecNew_def)

definition one_order_book :: "string \<Rightarrow> order \<Rightarrow> orderbook" where
  "one_order_book symbol x = snd (Add (Normalize x) (NewOrderbook symbol))"

lemma one_order_book:
  assumes "oSide x = side_of d"
  shows "book_wf (one_order_book symbol x)" "ref_of (one_order_book symbol x) = ref_add (Normalize x) (ref_of (NewOrderbook symbol))"
    "view d (one_order_book symbol x) = [(oPrice x, [Normalize x])]" "view (\<not> d) (one_order_book symbol x) = []"
    "obConditional (one_order_book symbol x) = []" "obSymbol (one_order_book symbol x) = symbol"
proof -
  have wf: "book_wf (NewOrderbook symbol)" using NewOrderbook_ok by (simp add: book_ok_def)
  show "book_wf (one_order_book symbol x)" by (simp add: one_order_book_def Add_wf [OF wf])
  show r: "ref_of (one_order_book symbol x) = ref_add (Normalize x) (ref_of (NewOrderbook symbol))"
    by (simp add: one_order_book_def Add_ref [OF wf])
  show "view d (one_order_book symbol x) = [(oPrice x, [Normalize x])]"
    using arg_cong [OF r, of "\<lambda>rb. rLadder rb d"] assms by (simp add: ref_add_def)
  show "view (\<not> d) (one_order_book symbol x) = []"
    using arg_cong [OF r, of "\<lambda>rb. rLadder rb (\<not> d)"] assms by (simp add: ref_add_def)
  show "obConditional (one_order_book symbol x) = []" "obSymbol (one_order_book symbol x) = symbol"
    using arg_cong [OF r, of rConditional] arg_cong [OF r, of rSymbol] assms by (simp_all add: ref_add_def)
qed

text \<open>
  C29. As the service is configured (journal and snapshot both on), a restart applies the
  journal on top of the snapshot that already contains its effects: after one resting
  limit order on an empty market, the restarted market has that order twice.
\<close>

theorem restart_doubles_resting_orders:
  assumes st0: "handles_ok st0" "no_failed st0" "journal_log symbol st0 = []"
    and opts: "optPersist opts" "\<not> optOnL2 opts"
    and m0: "newMarket supported (Inr None) (file_replay st0) symbol opts = Some (Inr m0)"
    and x: "Validate x = None" "oType x = LIMIT" "oTIF x = GTC" "oSide x = side_of d" "0 < oVolume x" "json_order x"
    and short: "length (record_JSON (stamp now (new_record x))) < maxToken" and io: "io_ok io"
    and codec: "\<forall>pb. book_ToProto (one_order_book symbol x) = Some pb \<longrightarrow>
      (\<exists>content. encode pb = Some content \<and> content \<noteq> [] \<and> decode content = Some pb)"
  shows "\<exists>m1 st1 store1 evs m2.
    handle (file_append record_JSON) (CommitOrderBook encode True) (now, io) (new_op x) m0 st0 (Some store0) =
      Some (m1, st1, Some store1, evs) \<and>
    view d (mkBook m1) = [(oPrice x, [Normalize x])] \<and>
    newMarket supported2 (LoadOrderbook decode True (Some store1) symbol) (file_replay st1) symbol opts = Some (Inr m2) \<and>
    view d (mkBook m2) = [(oPrice x, [Normalize x, Normalize x])]"
proof -
  let ?r = "new_record x" and ?n = "Normalize x"
  have m: "mkSymbol m0 = symbol" "mkBook m0 = NewOrderbook symbol" "optPersist (mkOpts m0)"
    using newMarket_fresh [OF st0(3), of supported opts] m0 opts by simp_all
  have wf: "book_wf (NewOrderbook symbol)" using NewOrderbook_ok by (simp add: book_ok_def)
  note one = one_order_book [OF x(4), of symbol]
  obtain b1 where b1: "MatchAndAddNewOrder (NewOrderbook symbol) x = Some (accepted [], b1)" "book_wf b1"
    and r1: "ref_of b1 = ref_of (one_order_book symbol x)"
    using rests_ref [OF wf x(2-5)] one(2) by auto
  have v1: "view d' b1 = view d' (one_order_book symbol x)" for d'
    using arg_cong [OF r1, of "\<lambda>rb. rLadder rb d'"] by simp
  have e1: "obConditional b1 = []" "obSymbol b1 = symbol" "obSeq b1 = obSeq (one_order_book symbol x)"
    using arg_cong [OF r1, of rConditional] arg_cong [OF r1, of rSymbol] arg_cong [OF r1, of rSeq] one(5,6) by simp_all
  have pr: "printable ?n" using x(6) by (simp add: printable_def json_order_def)
  have "snapshot_printable b1"
    using pr v1 one(3,4) e1(1) by (cases d) (simp_all add: snapshot_printable_def resting_def)
  moreover have "book_ToProto b1 = book_ToProto (one_order_book symbol x)"
    using book_ToProto_view [OF b1(2)] book_ToProto_view [OF one(1)] v1 e1 one(5,6) by simp
  ultimately obtain store1 b2 where c: "CommitOrderBook encode True b1 (Some store0) = Some (Some store1)"
    and l: "LoadOrderbook decode True (Some store1) symbol = Inr (Some b2)" and b2: "book_wf b2"
    and r2: "ref_of b2 = (ref_of b1)\<lparr>rL2 := False, rDeltas := []\<rparr>"
    using commit_load [OF b1(2), of encode decode store0] codec e1(2) by auto
  obtain st1 where a: "file_append record_JSON (now, io) symbol ?r st0 = (None, st1)"
    using Append_succeeds [of "(now, io)" st0 record_JSON symbol ?r] io st0(2)
    by (cases "file_append record_JSON (now, io) symbol ?r st0") simp
  have h: "handle (file_append record_JSON) (CommitOrderBook encode True) (now, io) (new_op x) m0 st0 (Some store0) =
    Some (m0\<lparr>mkBook := b1\<rparr>, st1, Some store1, if optOnBook (mkOpts m0) then [BookSink b1] else [])"
    using x(1) a m b1(1) c by (simp add: handle_def handle_new_def new_op_def Let_def)
  have v2: "view d' b2 = view d' b1" for d' using arg_cong [OF r2, of "\<lambda>rb. rLadder rb d'"] by simp
  obtain b3 where b3: "MatchAndAddNewOrder b2 x = Some (accepted [], b3)" and r3: "ref_of b3 = ref_add ?n (ref_of b2)"
    using rests_ref [OF b2 x(2-5)] v2 v1 one(4) by auto
  have v3: "view d b3 = [(oPrice x, [?n, ?n])]"
    using arg_cong [OF r3, of "\<lambda>rb. rLadder rb d"] x(4) v2 v1 one(3) by (simp add: ref_add_def)
  have "record_printable (stamp now ?r)" using x(6) by (rule new_record_printable)
  moreover have "replay_callback ?r b2 = Some (None, b3)"
    using b3 by (simp add: replay_callback_def applyJournalRecord_def)
  ultimately have "Replay Unmarshal_record True symbol replay_callback st1 b2 = Some (None, b3)"
    using journal_after [OF st0(1,3) a _ short, of replay_callback b2] by simp
  then have "\<exists>m2. newMarket supported2 (LoadOrderbook decode True (Some store1) symbol) (file_replay st1) symbol opts =
      Some (Inr m2) \<and> mkBook m2 = b3"
    using l opts by (simp add: newMarket_def Let_def LoadOrFetchOrderbook_def)
  then show ?thesis using h v1 one(3) v3 by auto
qed


section \<open>Witnesses of the two restarts\<close>

definition sample_bid :: order where "sample_bid = sample_order 1 7 BUY 100 5"

lemma sample_bid:
  "Validate sample_bid = None" "oType sample_bid = LIMIT" "oTIF sample_bid = GTC" "oSide sample_bid = side_of True"
  "0 < oVolume sample_bid" "json_order sample_bid" "jrTimestamp (new_record sample_bid) = 0"
  "record_printable (stamp 17 (new_record sample_bid))"
  "length (record_JSON (stamp 17 (new_record sample_bid))) < maxToken"
proof -
  show "Validate sample_bid = None" by code_simp
  show b: "oType sample_bid = LIMIT" "oTIF sample_bid = GTC" "oSide sample_bid = side_of True" "0 < oVolume sample_bid"
    by (simp_all add: sample_bid_def sample_order_def less_qty_def qty_val_def zero_qty_def)
  show p: "json_order sample_bid"
    by (simp add: json_order_def printable_def sample_bid_def px_val_def qty_val_def zero_px_def)
      (simp add: sample_order_def zero_px_def ascii_def side_defs type_defs tif_defs stp_defs)
  show "jrTimestamp (new_record sample_bid) = 0" by simp
  show "record_printable (stamp 17 (new_record sample_bid))"
    using p by (rule new_record_printable)
  have "length (record_JSON (stamp 17 (new_record sample_bid))) < 1000" by code_simp
  then show "length (record_JSON (stamp 17 (new_record sample_bid))) < maxToken" by (simp add: maxToken_def)
qed

lemma sample_bid_handled:
  assumes "mkSymbol m = ''BTC''" "mkBook m = NewOrderbook ''BTC''" "\<not> optPersist (mkOpts m)"
  shows "\<exists>b1 st1 evs. handle (file_append record_JSON) commit (17, good_io) (new_op sample_bid) m sample_journal db =
      Some (m\<lparr>mkBook := b1\<rparr>, st1, db, evs) \<and>
    view True b1 = [(Px 100, [Normalize sample_bid])] \<and> obConditional b1 = []"
proof -
  have wf: "book_wf (NewOrderbook ''BTC'')" using NewOrderbook_ok by (simp add: book_ok_def)
  note one = one_order_book [OF sample_bid(4), of "''BTC''"]
  obtain b1 where b1: "MatchAndAddNewOrder (NewOrderbook ''BTC'') sample_bid = Some (accepted [], b1)"
    and r1: "ref_of b1 = ref_of (one_order_book ''BTC'' sample_bid)"
    using rests_ref [OF wf sample_bid(2-5)] one(2) by auto
  obtain st1 where a: "file_append record_JSON (17, good_io) ''BTC'' (new_record sample_bid) sample_journal = (None, st1)"
    using Append_succeeds [of "(17, good_io)" sample_journal record_JSON "''BTC''" "new_record sample_bid"] sample_journal_empty(3)
    by (cases "file_append record_JSON (17, good_io) ''BTC'' (new_record sample_bid) sample_journal")
      (simp add: io_ok_def good_io_def)
  have "\<exists>evs. handle (file_append record_JSON) commit (17, good_io) (new_op sample_bid) m sample_journal db =
      Some (m\<lparr>mkBook := b1\<rparr>, st1, db, evs)"
    using sample_bid(1) a assms b1 by (simp add: handle_def handle_new_def new_op_def Let_def)
  moreover have "view True b1 = [(Px 100, [Normalize sample_bid])]"
    using arg_cong [OF r1, of "\<lambda>rb. rLadder rb True"] one(3) by (simp add: sample_bid_def sample_order_def)
  moreover have "obConditional b1 = []" using arg_cong [OF r1, of rConditional] one(5) by simp
  ultimately show ?thesis by blast
qed

theorem crash_recovery_witness:
  "\<exists>m0 m1 st1 evs m2. newMarket '''' (Inr None) (file_replay sample_journal) ''BTC'' sample_opts = Some (Inr m0) \<and>
     handle (file_append record_JSON) no_store (17, good_io) (new_op sample_bid) m0 sample_journal () = Some (m1, st1, (), evs) \<and>
     newMarket '''' (Inr None) (file_replay (fst sample_journal, snd st1)) ''BTC'' sample_opts = Some (Inr m2) \<and>
     mkBook m2 = mkBook m1 \<and> view True (mkBook m2) = [(Px 100, [Normalize sample_bid])]"
proof -
  let ?r = "new_record sample_bid"
  have off: "\<not> optOnL2 sample_opts" "\<not> optPersist sample_opts" by (simp_all add: sample_opts_def)
  obtain m0 where new: "newMarket '''' (Inr None) (file_replay sample_journal) ''BTC'' sample_opts = Some (Inr m0)"
    and m: "mkSymbol m0 = ''BTC''" "mkBook m0 = NewOrderbook ''BTC''" "\<not> optPersist (mkOpts m0)"
    using newMarket_fresh [OF sample_journal_empty(1), where symbol = "''BTC''" and supported = "''''" and opts = sample_opts] off by auto
  have good: "io_ok good_io" by (simp add: io_ok_def good_io_def)
  obtain b1 st1 evs where h: "handle (file_append record_JSON) no_store (17, good_io) (new_op sample_bid) m0 sample_journal () =
      Some (m0\<lparr>mkBook := b1\<rparr>, st1, (), evs)"
    and b1: "view True b1 = [(Px 100, [Normalize sample_bid])]" "obConditional b1 = []"
    using sample_bid_handled [OF m, of no_store "()"] by blast
  have run: "handle_all (file_append record_JSON) no_store [((17, good_io), new_op sample_bid)] m0 sample_journal () =
      Some (m0\<lparr>mkBook := b1\<rparr>, st1, (), evs)"
    using h by simp
  have c1: "obConditional (mkBook (m0\<lparr>mkBook := b1\<rparr>)) = []" using b1(2) by simp
  have rec: "record_of_op ''BTC'' (new_op sample_bid) = ?r" by (simp add: record_of_op_def new_op_def)
  have recs: "\<forall>(e, o') \<in> set [((17, good_io), new_op sample_bid)]. record_printable (stamp (fst e) (record_of_op ''BTC'' o')) \<and>
      length (record_JSON (stamp (fst e) (record_of_op ''BTC'' o'))) < maxToken"
    using sample_bid(8,9) by (simp add: rec)
  have ios: "\<forall>(e, o') \<in> set [((17, good_io), new_op sample_bid)]. io_ok (snd e)" using good by simp
  obtain m2 where "newMarket '''' (Inr None) (file_replay (fst sample_journal, snd st1)) ''BTC'' sample_opts = Some (Inr m2)"
    "mkBook m2 = b1"
    using crash_recovery [OF sample_journal_empty(2,3,1) off(1) new run c1 ios recs refl, of "''''"] by auto
  moreover have "mkBook (m0\<lparr>mkBook := b1\<rparr>) = b1" by simp
  ultimately show ?thesis using new h b1(1) by metis
qed


theorem restart_doubles_resting_orders_witness:
  "\<exists>m0 m1 st1 store1 evs m2. newMarket '''' (Inr None) (file_replay sample_journal) ''BTC''
       (sample_opts\<lparr>optPersist := True\<rparr>) = Some (Inr m0) \<and>
     handle (file_append record_JSON) (CommitOrderBook (\<lambda>_. Some ''snapshot'') True) (17, good_io) (new_op sample_bid)
       m0 sample_journal (Some (\<lambda>_. None)) = Some (m1, st1, Some store1, evs) \<and>
     newMarket '''' (LoadOrderbook (\<lambda>_. book_ToProto (one_order_book ''BTC'' sample_bid)) True (Some store1) ''BTC'')
       (file_replay st1) ''BTC'' (sample_opts\<lparr>optPersist := True\<rparr>) = Some (Inr m2) \<and>
     view True (mkBook m1) = [(Px 100, [Normalize sample_bid])] \<and>
     view True (mkBook m2) = [(Px 100, [Normalize sample_bid, Normalize sample_bid])]"
proof -
  let ?opts = "sample_opts\<lparr>optPersist := True\<rparr>" and ?pb = "book_ToProto (one_order_book ''BTC'' sample_bid)"
  have opts: "optPersist ?opts" "\<not> optOnL2 ?opts" by (simp_all add: sample_opts_def)
  obtain m0 where new: "newMarket '''' (Inr None) (file_replay sample_journal) ''BTC'' ?opts = Some (Inr m0)"
    using newMarket_fresh [OF sample_journal_empty(1), where symbol = "''BTC''" and supported = "''''" and opts = ?opts] by blast
  have codec: "\<forall>pb. ?pb = Some pb \<longrightarrow> (\<exists>content. Some ''snapshot'' = Some content \<and> content \<noteq> [] \<and> ?pb = Some pb)"
    by simp
  have good: "io_ok good_io" by (simp add: io_ok_def good_io_def)
  have price: "oPrice sample_bid = Px 100" by (simp add: sample_bid_def sample_order_def)
  have "\<exists>m1 st1 store1 evs m2.
    handle (file_append record_JSON) (CommitOrderBook (\<lambda>_. Some ''snapshot'') True) (17, good_io) (new_op sample_bid)
       m0 sample_journal (Some (\<lambda>_. None)) = Some (m1, st1, Some store1, evs) \<and>
    view True (mkBook m1) = [(oPrice sample_bid, [Normalize sample_bid])] \<and>
    newMarket '''' (LoadOrderbook (\<lambda>_. ?pb) True (Some store1) ''BTC'') (file_replay st1) ''BTC'' ?opts = Some (Inr m2) \<and>
    view True (mkBook m2) = [(oPrice sample_bid, [Normalize sample_bid, Normalize sample_bid])]"
    by (rule restart_doubles_resting_orders [OF sample_journal_empty(2,3,1) opts new sample_bid(1-6,9) good codec])
  then obtain m1 st1 store1 evs m2 where
    "handle (file_append record_JSON) (CommitOrderBook (\<lambda>_. Some ''snapshot'') True) (17, good_io) (new_op sample_bid)
       m0 sample_journal (Some (\<lambda>_. None)) = Some (m1, st1, Some store1, evs)"
    "view True (mkBook m1) = [(Px 100, [Normalize sample_bid])]"
    "newMarket '''' (LoadOrderbook (\<lambda>_. ?pb) True (Some store1) ''BTC'') (file_replay st1) ''BTC'' ?opts = Some (Inr m2)"
    "view True (mkBook m2) = [(Px 100, [Normalize sample_bid, Normalize sample_bid])]" unfolding price by (elim exE conjE)
  with new show ?thesis by (intro exI conjI)
qed

section \<open>Promoted orders\<close>

lemma length_lad_insert: "length (concat (map snd (lad_insert d x lad))) = Suc (length (concat (map snd lad)))"
  by (induction lad) auto

lemma length_lad_inserts:
  "length (concat (map snd ((lad_insert d x ^^ n) lad))) = n + length (concat (map snd lad))"
  by (induction n) (simp_all add: length_lad_insert)

text \<open>
  C30. Replay does not promote conditional orders: when an accepted limit order trades and
  so triggers a queued stop order that comes to rest, the live market holds that order
  and the replay of the very same record does not.
\<close>

theorem replay_misses_promotions:
  assumes wf: "book_wf (mkBook m)" and q: "obConditional (mkBook m) = [q]"
    and x: "Validate x = None" "oType x = LIMIT"
    and a: "log_append env (mkSymbol m) (new_record x) j = (None, j1)"
    and go: "MatchAndAddNewOrder (mkBook m) x = Some (accepted ms, b1)" "ms \<noteq> []"
    and triggered: "oSide q = side_of d" "oTIF q = GTC" "0 < oVolume q" "\<forall>t \<in> set ms. IsTriggered q (mPrice t)"
    and no: "\<forall>(p, os) \<in> set (view (\<not> d) b1). \<not> crosses q p"
    and store: "optPersist (mkOpts m) \<longrightarrow> (\<forall>ob db. book_wf ob \<longrightarrow> commit ob db \<noteq> None)"
  shows "\<exists>m' db' evs. handle log_append commit env (new_op x) m j db = Some (m', j1, db', evs) \<and>
    view d (mkBook m') = (lad_insert d q ^^ length ms) (view d b1) \<and>
    applyJournalRecord (mkBook m) (new_record x) = Some b1 \<and> view d (mkBook m') \<noteq> view d b1"
proof -
  have b1: "book_wf b1" "ref_of b1 = snd (ref_submit x (ref_of (mkBook m)))"
    using MatchAndAddNewOrder_ref [OF wf, of x] go(1) by (auto simp: runs_as_def)
  have "rConditional (ref_of b1) = rConditional (ref_of (mkBook m))"
    unfolding b1(2) ref_submit_def using x(2) by (simp add: Let_def ref_limit_conditional)
  then have q1: "obConditional b1 = [q]" using q by simp
  have "oTIF q \<noteq> IOC" "oTIF q \<noteq> FOK" "oTIF q \<noteq> PostOnly" using triggered(2) by simp_all
  from promote_order_rests [OF triggered(1) this triggered(3,4) b1(1) no] obtain b2 where
    p: "promote_order q ms b1 = Some ([], b2)" and v: "view d b2 = (lad_insert d q ^^ length ms) (view d b1)" by blast
  have c: "HandleConditionalOrders b1 ms = Some ([], b2)" using p q1 by (simp add: HandleConditionalOrders_def)
  have b2: "book_wf b2" using HandleConditionalOrders_ref [OF b1(1), of ms] c by (simp add: runs_as_def)
  obtain db' where db': "(if optPersist (mkOpts m) then commit b2 db else Some db) = Some db'"
    using store b2 by (cases "optPersist (mkOpts m)") auto
  have "\<exists>evs. handle log_append commit env (new_op x) m j db = Some (m\<lparr>mkBook := b2\<rparr>, j1, db', evs)"
    using x(1) a go c db' by (cases "optPersist (mkOpts m)") (simp_all add: handle_def handle_new_def new_op_def Let_def)
  moreover have "applyJournalRecord (mkBook m) (new_record x) = Some b1"
    using go(1) by (simp add: applyJournalRecord_def)
  moreover have "view d b2 \<noteq> view d b1"
    using length_lad_inserts [where d = d and x = q and n = "length ms" and lad = "view d b1"] go(2) v by auto
  ultimately show ?thesis using v by auto
qed


definition sample_sale_trades :: "match list" where
  "sample_sale_trades =
     [\<lparr>mSeq = 1, mBuyId = 1, mSellId = 9, mMatchId = 0, mPrice = Px 100, mVolume = Qty 5\<rparr>,
      \<lparr>mSeq = 2, mBuyId = 2, mSellId = 9, mMatchId = 0, mPrice = Px 100, mVolume = Qty 1\<rparr>]"

theorem replay_misses_promotions_witness:
  "\<exists>m' db' evs b1. handle discard_append no_store () (new_op (sample_taker LIMIT GTC SELL 99 6))
       (sample_market\<lparr>mkBook := AddConditionalOrder sample_stop sample_book\<rparr>) () () = Some (m', (), db', evs) \<and>
     applyJournalRecord (AddConditionalOrder sample_stop sample_book) (new_record (sample_taker LIMIT GTC SELL 99 6)) = Some b1 \<and>
     view False (mkBook m') \<noteq> view False b1"
proof -
  let ?x = "sample_taker LIMIT GTC SELL 99 6" and ?ob = "AddConditionalOrder sample_stop sample_book"
  let ?m = "sample_market\<lparr>mkBook := ?ob\<rparr>" and ?ms = "sample_sale_trades"
  let ?lad = "[(Px 100, [sample_order 2 8 BUY 100 2]), (Px 99, [sample_order 3 7 BUY 99 4])]"
  have wf: "book_wf ?ob" by (simp add: sample_book_wf)
  have q: "obConditional ?ob = [sample_stop]" and c: "obConditional sample_book = []" by code_simp+
  have ref: "ref_of ?ob = (ref_of sample_book)\<lparr>rConditional := [sample_stop]\<rparr>"
    using c by (simp add: AddConditionalOrder_ref)
  have "ref_match ?x False (ref_of ?ob) = (?ms, 0,
      (ref_of ?ob)\<lparr>rLadder := (rLadder (ref_of ?ob))(True := ?lad), rSeq := 2, rDeltas := rDeltas (ref_of ?ob)\<rparr>)"
    using sample_taker_ladder
    by (simp add: ref ref_match_def ref_side_def sample_taker_stp sample_book_fields sample_sale_trades_def)
  then have "ref_submit ?x (ref_of ?ob) = (accepted ?ms,
      (ref_of ?ob)\<lparr>rLadder := (rLadder (ref_of ?ob))(True := ?lad), rSeq := 2, rDeltas := rDeltas (ref_of ?ob)\<rparr>)"
    by (simp add: ref_submit_def ref_limit_def)
  then obtain b1 where b1: "MatchAndAddNewOrder ?ob ?x = Some (accepted ?ms, b1)" and v1: "view True b1 = ?lad"
    using MatchAndAddNewOrder_ref [OF wf, of ?x] by (auto simp: runs_as_def dest: arg_cong [of _ _ "\<lambda>rb. rLadder rb True"])
  have s: "oSide sample_stop = side_of False" "oTIF sample_stop = GTC" "0 < oVolume sample_stop"
    by (simp_all add: sample_stop_def sample_order_def less_qty_def qty_val_def zero_qty_def)
  have tr: "\<forall>t \<in> set ?ms. IsTriggered sample_stop (mPrice t)" by code_simp
  have no: "\<forall>(p, os) \<in> set (view (\<not> False) b1). \<not> crosses sample_stop p"
    using v1 by (simp add: crosses_def sample_stop_def sample_order_def px_qty_simps less_eq_px_def px_val_def)
  have v: "Validate ?x = None" by code_simp
  have a: "discard_append () (mkSymbol ?m) (new_record ?x) () = (None, ())"
    by (simp add: discard_append_def Discard_Append_def)
  have ne: "?ms \<noteq> []" by (simp add: sample_sale_trades_def)
  have bk: "mkBook ?m = ?ob" by simp
  have st: "optPersist (mkOpts ?m) \<longrightarrow> (\<forall>ob (db :: unit). book_wf ob \<longrightarrow> no_store ob db \<noteq> None)" by simp
  from replay_misses_promotions [where m = ?m and x = ?x and log_append = discard_append and env = "()" and j = "()"
      and commit = no_store and db = "()", unfolded bk, OF wf q v sample_taker_sel(2) a b1 ne s tr no st]
  show ?thesis by blast
qed

end
