(* ===== verification/RegistryProps.thy ===== *)
theory RegistryProps
  imports RegistrySpec RecoveryProps
begin

text \<open>
  What the registry guarantees for all its markets together: order and well-formedness
  under every interleaving, recovery of every book from the shared journal directory, and
  the limits: unsupported symbols, and symbols that share a journal file.
\<close>

section \<open>Every market in order\<close>

lemma empty_registry:
  assumes "NewRegistry opts (Some j) db = Inr r"
  shows "registry_ok r" "rgMarkets r = []" "rgJournal r = j" "rgStore r = db" "rgOpts r = opts" "rgCancelled r = False"
  using assms by (auto simp: NewRegistry_def registry_ok_def)

text \<open>
  C9. The registry at run time, over the file journal and the Redis snapshots, whatever
  they contain: in every state reachable from the empty registry, whatever the
  interleaving of requests to any number of symbols, of the goroutines and of shutdown,
  there is at most one market per symbol, each under its own symbol with a well-formed
  book and a bounded inbox; the operations routed to a symbol are the ones its market has
  handled, in order, followed by its inbox; the wait group counts the running
  goroutines; and a running market with work can do it.
\<close>

theorem registry_runs_in_order:
  assumes new: "NewRegistry opts (Some st0) rdb0 = Inr r0"
    and run: "reg_run (file_market supported decode getOk readable) log_append commit r0 ls r"
    and cm: "\<forall>ob db. book_wf ob \<longrightarrow> commit ob db \<noteq> None"
  shows "distinct (map fst (rgMarkets r)) \<and> rgWaiting r = length (filter (\<lambda>(s, p). pcRunning p) (rgMarkets r)) \<and>
    (\<forall>s. routed_to s ls = map snd (ran_at s ls) @ inbox_at s r) \<and>
    (\<forall>(s, p) \<in> set (rgMarkets r). mkSymbol (pcMarket p) = s \<and> book_wf (mkBook (pcMarket p)) \<and>
       length (mkInbox (pcMarket p)) \<le> mkCapacity (pcMarket p) \<and>
       (pcRunning p \<longrightarrow> mkInbox (pcMarket p) \<noteq> [] \<longrightarrow>
          (\<exists>evs r'. reg_step (file_market supported decode getOk readable) log_append commit r
             (Ran s env (hd (mkInbox (pcMarket p))) evs) r')))"
proof -
  note k = file_maker.reg_run_keeps [OF run empty_registry(1,2) [OF new]]
  have ok: "registry_ok r" using k by blast
  have "mkSymbol (pcMarket p) = s \<and> book_wf (mkBook (pcMarket p)) \<and> length (mkInbox (pcMarket p)) \<le> mkCapacity (pcMarket p) \<and>
      (pcRunning p \<longrightarrow> mkInbox (pcMarket p) \<noteq> [] \<longrightarrow>
        (\<exists>evs r'. reg_step (file_market supported decode getOk readable) log_append commit r
           (Ran s env (hd (mkInbox (pcMarket p))) evs) r'))"
    if sp: "(s, p) \<in> set (rgMarkets r)" for s p
  proof -
    have m: "map_of (rgMarkets r) s = Some p" using ok sp by (simp add: registry_ok_def)
    have "\<exists>evs r'. reg_step (file_market supported decode getOk readable) log_append commit r
        (Ran s env (hd (mkInbox (pcMarket p))) evs) r'" if "pcRunning p" "mkInbox (pcMarket p) \<noteq> []"
      by (rule file_maker.reg_run_progress [OF ok m that(1) list.collapse [OF that(2), symmetric] cm])
    then show ?thesis using ok m unfolding registry_ok_def by blast
  qed
  then show ?thesis using k unfolding registry_ok_def by blast
qed

section \<open>Recovery of every market\<close>

lemma feed_append:
  "feed f rs s = Some (None, s1) \<Longrightarrow> feed f (rs @ rs') s = feed f rs' s1"
  by (induction rs arbitrary: s) (auto split: option.splits prod.splits)

definition records :: "string \<Rightarrow> ((int64 \<times> io) \<times> op) list \<Rightarrow> journal_record list" where
  "records symbol eos = map (\<lambda>(e, o'). stamp (fst e) (record_of_op symbol o')) (filter (\<lambda>(e, o'). journaled o') eos)"

lemma records_simps [simp]:
  "records s [] = []" "records s (a @ b) = records s a @ records s b"
  "records s [(e, o')] = (if journaled o' then [stamp (fst e) (record_of_op s o')] else [])"
  by (simp_all add: records_def)

text \<open>An event whose system calls succeed and whose record the codec prints on one line.\<close>

fun event_ok :: "(int64 \<times> io) event \<Rightarrow> bool" where
  "event_ok (Ran s env o' evs) \<longleftrightarrow> io_ok (snd env) \<and> record_printable (stamp (fst env) (record_of_op s o')) \<and>
     length (record_JSON (stamp (fst env) (record_of_op s o'))) < maxToken"
| "event_ok _ \<longleftrightarrow> True"

lemma handle_log:
  assumes run: "handle (file_append record_JSON) commit env o' m st db = Some (m', st', db', evs)"
    and ok: "handles_ok st" "no_failed st" "io_ok (snd env)"
  shows "handles_ok st' \<and> no_failed st' \<and> pathFor (fst st') = pathFor (fst st) \<and>
    (\<forall>s. journal_log s st' = (if journaled o' \<and> sanitize s = sanitize (mkSymbol m)
       then journal_log s st @ record_JSON (stamp (fst env) (record_of_op (mkSymbol m) o')) @ [newline]
       else journal_log s st))"
proof (cases "journaled o'")
  case False
  then show ?thesis using handle_unjournaled [OF run] ok by simp
next
  case True
  let ?r = "record_of_op (mkSymbol m) o'"
  have s: "fst (file_append record_JSON env (mkSymbol m) ?r st) = None" "no_failed (snd (file_append record_JSON env (mkSymbol m) ?r st))"
    using Append_succeeds [of env st record_JSON "mkSymbol m" ?r] ok by simp_all
  have st': "snd (file_append record_JSON env (mkSymbol m) ?r st) = st'" using handle_appends [OF run True] by simp
  then have a: "Append record_JSON (fst env) (snd env) (mkSymbol m) ?r st = (None, st')"
    using s(1) by (cases "Append record_JSON (fst env) (snd env) (mkSymbol m) ?r st") (simp add: file_append_def)
  have "handles_ok st' \<and> pathFor (fst st') = pathFor (fst st)"
    using Append_cases [of "fst st" "snd st" record_JSON "fst env" "snd env" "mkSymbol m" ?r None st'] ok(1) a by simp
  then show ?thesis using Append_log [OF ok(1) a] s(2) st' True by simp
qed

lemma handle_replayed:
  assumes run: "handle (file_append record_JSON) commit env o' m st db = Some (m', st', db', evs)"
    and ok: "no_failed st" "io_ok (snd env)" and wf: "book_wf (mkBook m)" and quiet: "obConditional (mkBook m') = []"
  shows "feed replay_callback (records (mkSymbol m) [(env, o')]) (mkBook m) = Some (None, mkBook m')"
proof (cases "journaled o'")
  case False
  then show ?thesis using handle_unjournaled [OF run] by simp
next
  case True
  let ?r = "record_of_op (mkSymbol m) o'"
  have "fst (file_append record_JSON env (mkSymbol m) ?r st) = None"
    using Append_succeeds [of env st record_JSON "mkSymbol m" ?r] ok by simp
  then obtain st1 where a: "file_append record_JSON env (mkSymbol m) ?r st = (None, st1)"
    by (cases "file_append record_JSON env (mkSymbol m) ?r st") simp
  have "replay_callback ?r (mkBook m) = Some (None, mkBook m')"
    using handle_journaled [OF run True a wf quiet] by (simp add: replay_callback_def)
  then show ?thesis using True by simp
qed

lemma handle_no_store:
  assumes "handle log_append (CommitOrderBook encode setOk) env o' m j None = Some (m', j', db', evs)"
  shows "db' = None"
  using assms by (auto simp: handle_def CommitOrderBook_def bind_eq_Some_conv split: if_splits)

definition symbols :: "('j, 'r) registry \<Rightarrow> string set" where
  "symbols r = fst ` set (rgMarkets r)"

lemma symbols_iff: "s \<in> symbols r \<longleftrightarrow> (\<exists>p. map_of (rgMarkets r) s = Some p)"
  by (metis symbols_def map_of_eq_None_iff option.exhaust option.simps(3))

text \<open>What connects the markets of a registry to the disk after the events \<open>ls\<close>.\<close>

definition recoverable :: "options \<Rightarrow> (string \<Rightarrow> filename) \<Rightarrow> (int64 \<times> io) event list
    \<Rightarrow> (file_journal \<times> disk, redis) registry \<Rightarrow> bool" where
  "recoverable opts path ls r \<longleftrightarrow>
     registry_ok r \<and> rgStore r = None \<and> rgOpts r = opts \<and> handles_ok (rgJournal r) \<and> no_failed (rgJournal r) \<and>
     pathFor (fst (rgJournal r)) = path \<and>
     (\<forall>s. (\<forall>s' \<in> symbols r. sanitize s' \<noteq> sanitize s) \<longrightarrow> journal_log s (rgJournal r) = []) \<and>
     (\<forall>s. s \<notin> symbols r \<longrightarrow> ran_at s ls = []) \<and>
     (\<forall>s p. map_of (rgMarkets r) s = Some p \<longrightarrow>
        log_holds Unmarshal_record (journal_log s (rgJournal r)) (records s (ran_at s ls)) [] \<and>
        (obConditional (mkBook (pcMarket p)) = [] \<longrightarrow>
           feed replay_callback (records s (ran_at s ls)) (NewOrderbook s) = Some (None, mkBook (pcMarket p))))"


lemma recoverable_frame:
  assumes rec: "recoverable opts path ls r" and ok: "registry_ok r'"
    and same: "rgStore r' = rgStore r" "rgOpts r' = rgOpts r" "rgJournal r' = rgJournal r" "symbols r' = symbols r"
    and books: "\<And>s p'. map_of (rgMarkets r') s = Some p' \<Longrightarrow>
      \<exists>p. map_of (rgMarkets r) s = Some p \<and> mkBook (pcMarket p') = mkBook (pcMarket p)"
    and events: "\<And>s. ran_at s ls' = ran_at s ls"
  shows "recoverable opts path ls' r'"
proof -
  have "log_holds Unmarshal_record (journal_log s (rgJournal r')) (records s (ran_at s ls')) [] \<and>
      (obConditional (mkBook (pcMarket p')) = [] \<longrightarrow>
        feed replay_callback (records s (ran_at s ls')) (NewOrderbook s) = Some (None, mkBook (pcMarket p')))"
    if "map_of (rgMarkets r') s = Some p'" for s p'
    using books [OF that] rec events [of s] same(3) unfolding recoverable_def by metis
  then show ?thesis using rec ok same events unfolding recoverable_def by simp
qed

lemma recoverable_create:
  assumes rec: "recoverable opts path ls r" and l2: "\<not> optOnL2 opts"
    and go: "getOrCreate (file_market supported decode getOk True) s r = Some (Inr r1)"
    and inj: "inj_on sanitize (symbols r1)"
  shows "recoverable opts path ls r1"
proof (cases "map_of (rgMarkets r) s")
  case (Some p)
  then show ?thesis using rec go by (simp add: getOrCreate_def)
next
  case None
  have ok: "registry_ok r" and opts: "rgOpts r = opts" "rgStore r = None" using rec by (simp_all add: recoverable_def)
  from None go opts obtain m where m: "file_market supported decode getOk True (rgJournal r) None s opts = Some (Inr m)"
    and r1: "r1 = r\<lparr>rgMarkets := rgMarkets r @ [(s, \<lparr>pcMarket = m, pcRunning = True\<rparr>)], rgWaiting := rgWaiting r + 1\<rparr>"
    by (auto simp: getOrCreate_def update_new split: option.splits sum.splits)
  have sy: "symbols r1 = insert s (symbols r)" by (auto simp: symbols_def r1)
  have new: "s \<notin> symbols r" using None by (simp add: symbols_iff)
  have "\<forall>s' \<in> symbols r. sanitize s' \<noteq> sanitize s"
    using inj new unfolding sy inj_on_def by (metis insertI1 insertI2)
  then have log: "journal_log s (rgJournal r) = []" using rec unfolding recoverable_def by blast
  then have "log_holds Unmarshal_record (journal_log s (fst (rgJournal r), snd (rgJournal r))) [] []"
    using log_holds_empty by simp
  note r = Replay_log [OF this, of replay_callback]
  have bk: "mkBook m = NewOrderbook s"
    by (rule file_market_cases [OF m]) (use r l2 in \<open>auto simp: LoadOrderbook_def\<close>)
  have ran: "ran_at s ls = []" using rec new unfolding recoverable_def by blast
  have look: "map_of (rgMarkets r1) s' = (if s' = s then Some \<lparr>pcMarket = m, pcRunning = True\<rparr> else map_of (rgMarkets r) s')" for s'
    using None by (simp add: r1 map_add_def split: option.split)
  have ok1: "registry_ok r1" using file_maker.getOrCreate_keeps [OF ok go] by blast
  have "log_holds Unmarshal_record (journal_log s' (rgJournal r)) (records s' (ran_at s' ls)) [] \<and>
      (obConditional (mkBook (pcMarket p)) = [] \<longrightarrow>
        feed replay_callback (records s' (ran_at s' ls)) (NewOrderbook s') = Some (None, mkBook (pcMarket p)))"
    if "map_of (rgMarkets r1) s' = Some p" for s' p
  proof (cases "s' = s")
    case True
    then have "p = \<lparr>pcMarket = m, pcRunning = True\<rparr>" using that look by simp
    then show ?thesis using True log log_holds_empty ran bk by simp
  next
    case False
    then show ?thesis using that look rec unfolding recoverable_def by simp
  qed
  then show ?thesis using rec ok1 sy r1 unfolding recoverable_def by simp
qed

lemma serve_symbols:
  assumes "serve create q r = Some (Inr (through, r2))"
  obtains r1 where "getOrCreate create (request_symbol q) r = Some (Inr r1)" "symbols r2 = symbols r1"
    "rgStore r2 = rgStore r1" "rgOpts r2 = rgOpts r1" "rgJournal r2 = rgJournal r1"
    "\<And>s p'. map_of (rgMarkets r2) s = Some p' \<Longrightarrow>
      \<exists>p. map_of (rgMarkets r1) s = Some p \<and> mkBook (pcMarket p') = mkBook (pcMarket p)"
proof -
  let ?s = "request_symbol q" and ?o = "request_op q"
  obtain r1 where g: "getOrCreate create ?s r = Some (Inr r1)" and st: "(through, r2) = send_to ?s (send_op ?o) r1"
    using assms by (auto simp: serve_route route_def split: option.splits sum.splits)
  show thesis
  proof (cases "map_of (rgMarkets r1) ?s")
    case None
    then show thesis using that [OF g] st by (simp add: send_to_def)
  next
    case (Some p)
    show thesis
    proof (cases "send_op ?o (pcMarket p)")
      case None
      then show thesis using that [OF g] st Some by (simp add: send_to_def)
    next
      case m: (Some m)
      then have bk: "mkBook m = mkBook (pcMarket p)" by (auto simp: send_op_Some)
      have r2: "r2 = r1\<lparr>rgMarkets := AList.update ?s (p\<lparr>pcMarket := m\<rparr>) (rgMarkets r1)\<rparr>"
        using st Some m by (simp add: send_to_def)
      have "symbols r2 = symbols r1" using Some by (auto simp: symbols_iff r2 update_conv' split: if_splits)
      show thesis
      proof (rule that [OF g \<open>symbols r2 = symbols r1\<close>])
        fix s p'
        assume "map_of (rgMarkets r2) s = Some p'"
        then show "\<exists>p. map_of (rgMarkets r1) s = Some p \<and> mkBook (pcMarket p') = mkBook (pcMarket p)"
          using Some bk by (auto simp: r2 update_conv' split: if_splits)
      qed (simp_all add: r2)
    qed
  qed
qed

lemma getOrCreate_symbols: "getOrCreate create s r = Some (Inr r1) \<Longrightarrow> symbols r \<subseteq> symbols r1"
  by (auto simp: getOrCreate_def symbols_iff update_conv' split: option.splits sum.splits)

lemma reg_step_symbols: "reg_step create log_append commit r l r' \<Longrightarrow> symbols r \<subseteq> symbols r'"
proof (induction rule: reg_step.induct)
  case (routed q r r')
  show ?case by (rule serve_symbols [OF routed]) (use getOrCreate_symbols in blast)
next
  case (waits q r r')
  show ?case by (rule serve_symbols [OF waits]) (use getOrCreate_symbols in blast)
qed (auto simp: symbols_iff update_conv')


lemma recoverable_serve:
  assumes rec: "recoverable opts path ls r" and l2: "\<not> optOnL2 opts"
    and go: "serve (file_market supported decode getOk True) q r = Some (Inr (through, r2))"
    and inj: "inj_on sanitize (symbols r2)" and events: "\<And>s. ran_at s ls' = ran_at s ls"
  shows "recoverable opts path ls' r2"
proof (rule serve_symbols [OF go])
  fix r1
  assume g: "getOrCreate (file_market supported decode getOk True) (request_symbol q) r = Some (Inr r1)"
    and same: "symbols r2 = symbols r1" "rgStore r2 = rgStore r1" "rgOpts r2 = rgOpts r1" "rgJournal r2 = rgJournal r1"
    and books: "\<And>s p'. map_of (rgMarkets r2) s = Some p' \<Longrightarrow>
      \<exists>p. map_of (rgMarkets r1) s = Some p \<and> mkBook (pcMarket p') = mkBook (pcMarket p)"
  have "registry_ok r" using rec by (simp add: recoverable_def)
  then have ok: "registry_ok r2" using file_maker.serve_keeps [OF _ go] by blast
  have r1: "recoverable opts path ls r1"
    by (rule recoverable_create [OF rec l2 g]) (use inj same(1) in simp)
  show "recoverable opts path ls' r2"
    by (rule recoverable_frame [OF r1 ok same(2,3,4,1) books events])
qed

lemma recoverable_ran:
  assumes rec: "recoverable opts path ls r" and p: "map_of (rgMarkets r) symbol = Some p"
    and inbox: "mkInbox (pcMarket p) = o' # os"
    and run: "handle (file_append record_JSON) (CommitOrderBook encode setOk) env o' ((pcMarket p)\<lparr>mkInbox := os\<rparr>)
      (rgJournal r) (rgStore r) = Some (m, j, db, evs)"
    and good: "event_ok (Ran symbol env o' evs)" and inj: "inj_on sanitize (symbols r)"
    and r': "r' = r\<lparr>rgMarkets := AList.update symbol (p\<lparr>pcMarket := m\<rparr>) (rgMarkets r), rgJournal := j, rgStore := db\<rparr>"
    and ok': "registry_ok r'"
  shows "recoverable opts path (ls @ [Ran symbol env o' evs]) r'"
proof -
  let ?m = "(pcMarket p)\<lparr>mkInbox := os\<rparr>" and ?r = "stamp (fst env) (record_of_op symbol o')"
  have R: "rgStore r = None" "handles_ok (rgJournal r)" "no_failed (rgJournal r)" "pathFor (fst (rgJournal r)) = path"
    "rgOpts r = opts" using rec by (simp_all add: recoverable_def)
  have mo: "mkSymbol ?m = symbol \<and> book_wf (mkBook ?m)"
    using rec p unfolding recoverable_def registry_ok_def by simp
  have io: "io_ok (snd env)" and codec: "line_reads Unmarshal_record (record_JSON ?r) ?r"
    using good record_line_reads by simp_all
  note h = handle_log [OF run R(2,3) io]
  have db: "db = None" using handle_no_store [OF run [unfolded R(1)]] .
  have sy: "symbols r' = symbols r" using p by (auto simp: symbols_iff r' update_conv' split: if_splits)
  have in_r: "symbol \<in> symbols r" using p by (auto simp: symbols_iff)
  have look: "map_of (rgMarkets r') s = (if s = symbol then Some (p\<lparr>pcMarket := m\<rparr>) else map_of (rgMarkets r) s)" for s
    by (simp add: r' update_conv')
  have empty: "journal_log s j = []" if "\<forall>s' \<in> symbols r. sanitize s' \<noteq> sanitize s" for s
  proof -
    have "sanitize s \<noteq> sanitize symbol" using that in_r by metis
    moreover have "journal_log s (rgJournal r) = []" using rec that unfolding recoverable_def by blast
    ultimately show ?thesis using h mo by simp
  qed
  have "log_holds Unmarshal_record (journal_log s j) (records s (ran_at s (ls @ [Ran symbol env o' evs]))) [] \<and>
      (obConditional (mkBook (pcMarket p')) = [] \<longrightarrow>
        feed replay_callback (records s (ran_at s (ls @ [Ran symbol env o' evs]))) (NewOrderbook s) =
          Some (None, mkBook (pcMarket p')))"
    if p': "map_of (rgMarkets r') s = Some p'" for s p'
  proof (cases "s = symbol")
    case False
    then have q: "map_of (rgMarkets r) s = Some p'" using p' look by simp
    then have "s \<in> symbols r" by (auto simp: symbols_iff)
    then have "sanitize s \<noteq> sanitize symbol" using inj in_r False by (metis inj_on_def)
    then show ?thesis using False q rec h mo unfolding recoverable_def by simp
  next
    case True
    have old: "log_holds Unmarshal_record (journal_log symbol (rgJournal r)) (records symbol (ran_at symbol ls)) []"
      "obConditional (mkBook ?m) = [] \<Longrightarrow>
        feed replay_callback (records symbol (ran_at symbol ls)) (NewOrderbook symbol) = Some (None, mkBook ?m)"
      using rec p unfolding recoverable_def by simp_all
    have bk: "mkBook (pcMarket p') = mkBook m" using p' look True by auto
    have "log_holds Unmarshal_record (journal_log symbol j)
        (records symbol (ran_at symbol ls) @ records symbol [(env, o')]) []"
      using log_holds_append [OF old(1), of "[record_JSON ?r]" "[?r]"] h mo old(1) codec by simp
    moreover have "feed replay_callback (records symbol (ran_at symbol ls) @ records symbol [(env, o')]) (NewOrderbook symbol) =
        Some (None, mkBook m)" if none: "obConditional (mkBook m) = []"
    proof -
      have "obConditional (mkBook ?m) = []" using handle_grows [OF run] mo none by simp
      from feed_append [OF old(2) [OF this]] show ?thesis
        using handle_replayed [OF run R(3) io _ none] mo by simp
    qed
    ultimately show ?thesis using True bk by simp
  qed
  then show ?thesis
    using rec ok' h empty sy in_r db R unfolding recoverable_def by (simp add: r')
qed


lemma recoverable_step:
  assumes step: "reg_step (file_market supported decode getOk True) (file_append record_JSON) (CommitOrderBook encode setOk) r l r'"
    and rec: "recoverable opts path ls r" and l2: "\<not> optOnL2 opts" and good: "event_ok l" and inj: "inj_on sanitize (symbols r')"
  shows "recoverable opts path (ls @ [l]) r'"
proof -
  have ok: "registry_ok r" using rec by (simp add: recoverable_def)
  have ok': "registry_ok r'" using file_maker.reg_step_keeps [OF step ok] by blast
  from step show ?thesis
  proof (cases rule: reg_step.cases)
    case (routed q)
    show ?thesis by (rule recoverable_serve [OF rec l2 routed(2) inj]) (simp add: routed(1))
  next
    case (waits q)
    show ?thesis by (rule recoverable_serve [OF rec l2 waits(2) inj]) (simp add: waits(1))
  next
    case (ran symbol p o' os env m j db evs)
    have "inj_on sanitize (symbols r)" using inj reg_step_symbols [OF step] by (rule inj_on_subset)
    then show ?thesis
      unfolding ran(1) by (rule recoverable_ran [OF rec ran(3,5,6) good [unfolded ran(1)] _ ran(2) ok'])
  next
    case cancelled
    show ?thesis
      by (rule recoverable_frame [OF rec ok']) (simp_all add: cancelled symbols_def)
  next
    case (exited symbol p)
    have "symbols r' = symbols r" using exited(3) by (auto simp: symbols_iff exited(2) update_conv' split: if_splits)
    then show ?thesis
      by (intro recoverable_frame [OF rec ok'])
        (use exited(3) in \<open>auto simp: exited(1,2) update_conv' split: if_splits\<close>)
  qed
qed

lemma recoverable_run:
  assumes "reg_run (file_market supported decode getOk True) (file_append record_JSON) (CommitOrderBook encode setOk) r0 ls r"
    and "recoverable opts path [] r0" and "\<not> optOnL2 opts" and "\<forall>l \<in> set ls. event_ok l" and "inj_on sanitize (symbols r)"
  shows "recoverable opts path ls r"
  using assms
proof (induction r0 ls r rule: reg_run.induct)
  case (step r ls r1 l r2)
  have "inj_on sanitize (symbols r1)"
    using step.prems(4) reg_step_symbols [OF step.hyps(2)] by (rule inj_on_subset)
  then have "recoverable opts path ls r1" using step.IH step.prems by simp
  then show ?case by (rule recoverable_step [OF step.hyps(2)]) (use step.prems in simp_all)
qed simp

lemma registry_log:
  assumes st0: "handles_ok st0" "no_failed st0" "\<forall>s. journal_log s st0 = []" and l2: "\<not> optOnL2 opts"
    and new: "NewRegistry opts (Some st0) None = Inr r0"
    and run: "reg_run (file_market supported decode getOk True) (file_append record_JSON)
      (CommitOrderBook encode setOk) r0 ls r"
    and good: "\<forall>l \<in> set ls. event_ok l" and inj: "inj_on sanitize (fst ` set (rgMarkets r))"
    and p: "(s, p) \<in> set (rgMarkets r)" "obConditional (mkBook (pcMarket p)) = []"
    and dir: "fjDir j2 = fjDir (fst st0)"
  shows "log_holds Unmarshal_record (journal_log s (j2, snd (rgJournal r))) (records s (ran_at s ls)) []"
    and "feed replay_callback (records s (ran_at s ls)) (NewOrderbook s) = Some (None, mkBook (pcMarket p))"
proof -
  note r0 = empty_registry [OF new]
  have "symbols r0 = {}" by (simp add: symbols_def r0(2))
  then have "recoverable opts (pathFor (fst st0)) [] r0"
    using r0 st0 by (simp add: recoverable_def)
  from recoverable_run [OF run this l2 good] have rec: "recoverable opts (pathFor (fst st0)) ls r"
    using inj by (simp add: symbols_def)
  then have m: "map_of (rgMarkets r) s = Some p" using p(1) by (simp add: recoverable_def registry_ok_def)
  have hold: "log_holds Unmarshal_record (journal_log s (rgJournal r)) (records s (ran_at s ls)) []"
    and fd: "feed replay_callback (records s (ran_at s ls)) (NewOrderbook s) = Some (None, mkBook (pcMarket p))"
    using rec m p(2) unfolding recoverable_def by simp_all
  have "pathFor j2 = pathFor (fst (rgJournal r))" using rec dir by (simp add: recoverable_def pathFor_def fun_eq_iff)
  from journal_log_dir [OF this, of s] hold
  show "log_holds Unmarshal_record (journal_log s (j2, snd (rgJournal r))) (records s (ran_at s ls)) []" by simp
  show "feed replay_callback (records s (ran_at s ls)) (NewOrderbook s) = Some (None, mkBook (pcMarket p))" by (rule fd)
qed



section \<open>A small run\<close>

definition sample_registry :: "(file_journal \<times> disk, redis) registry" where
  "sample_registry = \<lparr>rgOpts = sample_opts, rgMarkets = [], rgWaiting = 0, rgCancelled = False,
     rgJournal = sample_journal, rgStore = None\<rparr>"

lemma sample_registry: "NewRegistry sample_opts (Some sample_journal) None = Inr sample_registry"
  by (simp add: NewRegistry_def sample_registry_def)

abbreviation sample_events :: "sink_event list \<Rightarrow> (int64 \<times> io) event list" where
  "sample_events evs \<equiv> [Routed (Submit sample_bid), Ran ''BTC'' (17, good_io) (new_op sample_bid) evs]"

lemma sample_steps:
  "\<exists>r1 r p evs. reg_step (file_market '''' (\<lambda>_. None) True True) (file_append record_JSON) (CommitOrderBook (\<lambda>_. None) True)
       sample_registry (Routed (Submit sample_bid)) r1 \<and>
     reg_step (file_market '''' (\<lambda>_. None) True True) (file_append record_JSON) (CommitOrderBook (\<lambda>_. None) True)
       r1 (Ran ''BTC'' (17, good_io) (new_op sample_bid) evs) r \<and>
     rgMarkets r = [(''BTC'', p)] \<and> pcRunning p \<and> obConditional (mkBook (pcMarket p)) = [] \<and>
     view True (mkBook (pcMarket p)) = [(Px 100, [Normalize sample_bid])]"
proof -
  let ?create = "file_market '''' (\<lambda>_. None) True True" and ?commit = "CommitOrderBook (\<lambda>_. None) True"
  have off: "\<not> optOnL2 sample_opts" "\<not> optPersist sample_opts" by (simp_all add: sample_opts_def)
  have log: "log_holds Unmarshal_record (journal_log ''BTC'' (fst sample_journal, snd sample_journal)) [] []"
    by (simp add: sample_journal_ok log_holds_empty)
  obtain m where m: "?create sample_journal None ''BTC'' sample_opts = Some (Inr m)" "mkSymbol m = ''BTC''"
    "mkInbox m = []" "0 < mkCapacity m" "mkBook m = NewOrderbook ''BTC''" "\<not> optPersist (mkOpts m)"
    by (rule file_market_cases [OF refl, where supportedSymbols = "''''" and decode = "\<lambda>_. None" and getOk = True
          and readable = True and st = sample_journal and rdb = None and symbol = "''BTC''" and opts = sample_opts])
      (use Replay_log [OF log, of replay_callback] off in \<open>auto simp: LoadOrderbook_def\<close>)
  let ?m1 = "m\<lparr>mkInbox := [new_op sample_bid]\<rparr>"
  let ?r1 = "sample_registry\<lparr>rgMarkets := [(''BTC'', \<lparr>pcMarket = ?m1, pcRunning = True\<rparr>)], rgWaiting := 1\<rparr>"
  have sy: "oSymbol sample_bid = ''BTC''" by (simp add: sample_bid_def sample_order_def)
  have "serve ?create (Submit sample_bid) sample_registry = Some (Inr (True, ?r1))"
    using m sy by (simp add: serve_route route_def getOrCreate_def send_to_def send_op_def sample_registry_def)
  then have s1: "reg_step ?create (file_append record_JSON) ?commit sample_registry (Routed (Submit sample_bid)) ?r1"
    by (rule reg_step.routed)
  obtain b1 st1 evs where h: "handle (file_append record_JSON) ?commit (17, good_io) (new_op sample_bid) m sample_journal None =
      Some (m\<lparr>mkBook := b1\<rparr>, st1, None, evs)"
    and b1: "view True b1 = [(Px 100, [Normalize sample_bid])]" "obConditional b1 = []"
    using sample_bid_handled [OF m(2,5,6), of ?commit None] by blast
  have "?m1\<lparr>mkInbox := []\<rparr> = m" using m(3) by simp
  then have h1: "handle (file_append record_JSON) ?commit (17, good_io) (new_op sample_bid) (?m1\<lparr>mkInbox := []\<rparr>)
      (rgJournal ?r1) (rgStore ?r1) = Some (m\<lparr>mkBook := b1\<rparr>, st1, None, evs)"
    using h by (simp add: sample_registry_def)
  let ?p1 = "\<lparr>pcMarket = ?m1, pcRunning = True\<rparr>" and ?m2 = "m\<lparr>mkBook := b1\<rparr>"
  define r2 where "r2 = ?r1\<lparr>rgMarkets := AList.update ''BTC'' (?p1\<lparr>pcMarket := ?m2\<rparr>) (rgMarkets ?r1), rgJournal := st1, rgStore := None\<rparr>"
  have p1: "map_of (rgMarkets ?r1) ''BTC'' = Some ?p1" "pcRunning ?p1" "mkInbox (pcMarket ?p1) = new_op sample_bid # []"
    by simp_all
  have p2: "pcMarket ?p1 = ?m1" by simp
  have s2: "reg_step ?create (file_append record_JSON) ?commit ?r1 (Ran ''BTC'' (17, good_io) (new_op sample_bid) evs) r2"
    unfolding r2_def by (rule reg_step.ran [OF p1]) (use h1 in \<open>simp only: p2\<close>)
  have r2: "rgMarkets r2 = [(''BTC'', \<lparr>pcMarket = ?m2, pcRunning = True\<rparr>)]" by (simp add: r2_def)
  show ?thesis
    by (rule exI [of _ ?r1], rule exI [of _ r2], rule exI, rule exI, rule conjI [OF s1], rule conjI [OF s2], rule conjI [OF r2])
      (simp add: b1)
qed

lemma sample_run:
  "\<exists>r p evs. reg_run (file_market '''' (\<lambda>_. None) True True) (file_append record_JSON) (CommitOrderBook (\<lambda>_. None) True)
     sample_registry (sample_events evs) r \<and> rgMarkets r = [(''BTC'', p)] \<and> pcRunning p \<and>
     obConditional (mkBook (pcMarket p)) = [] \<and>
     view True (mkBook (pcMarket p)) = [(Px 100, [Normalize sample_bid])]"
proof -
  obtain r1 r p evs where s: "reg_step (file_market '''' (\<lambda>_. None) True True) (file_append record_JSON) (CommitOrderBook (\<lambda>_. None) True)
       sample_registry (Routed (Submit sample_bid)) r1"
    "reg_step (file_market '''' (\<lambda>_. None) True True) (file_append record_JSON) (CommitOrderBook (\<lambda>_. None) True)
       r1 (Ran ''BTC'' (17, good_io) (new_op sample_bid) evs) r"
    and r: "rgMarkets r = [(''BTC'', p)]" "pcRunning p" "obConditional (mkBook (pcMarket p)) = []"
      "view True (mkBook (pcMarket p)) = [(Px 100, [Normalize sample_bid])]" using sample_steps by blast
  from reg_run.step [OF reg_run.step [OF reg_run.none s(1)] s(2)] r show ?thesis by auto
qed


lemma commit_total: "\<forall>ob (db :: redis). book_wf ob \<longrightarrow> CommitOrderBook encode setOk ob db \<noteq> None"
  using commit_returns by blast

theorem registry_runs_in_order_witness:
  "\<exists>r evs. reg_run (file_market '''' (\<lambda>_. None) True True) (file_append record_JSON) (CommitOrderBook (\<lambda>_. None) True)
     sample_registry (sample_events evs) r \<and> rgWaiting r = 1 \<and> inbox_at ''BTC'' r = []"
proof -
  obtain r p evs where run: "reg_run (file_market '''' (\<lambda>_. None) True True) (file_append record_JSON)
      (CommitOrderBook (\<lambda>_. None) True) sample_registry (sample_events evs) r" and r: "rgMarkets r = [(''BTC'', p)]" "pcRunning p"
    using sample_run by blast
  have w: "routed_to s (sample_events evs) = map snd (ran_at s (sample_events evs)) @ inbox_at s r"
    "rgWaiting r = length (filter (\<lambda>(s, p). pcRunning p) (rgMarkets r))" for s
    using registry_runs_in_order [OF sample_registry run commit_total, of "(17, good_io)"] by blast+
  have sy: "oSymbol sample_bid = ''BTC''" by (simp add: sample_bid_def sample_order_def)
  have "inbox_at ''BTC'' r = []" using w(1) [of "''BTC''"] sy by simp
  moreover have "rgWaiting r = 1" using w(2) r by simp
  ultimately show ?thesis using run by blast
qed




section \<open>Limits\<close>

text \<open>
  Unsupported symbols are admitted: for a symbol that is not in \<^verbatim>\<open>SUPPORTED_SYMBOLS\<close>,
  \<^verbatim>\<open>createOrderbook\<close> reports an error, which \<^verbatim>\<open>newMarket\<close> turns into an empty book and the
  registry does not look at: it runs a market for that symbol, and the next request to
  it is enqueued like any other.
\<close>

theorem unsupported_symbol_is_admitted:
  assumes "map_of (rgMarkets r) symbol = None" and "rgStore r = None" and "journal_log symbol (rgJournal r) = []"
    and "\<not> optOnL2 (rgOpts r)" and "request_symbol q = symbol"
    and "\<not> Contains (Split_on CHR '','' supported) symbol"
  shows "createOrderbook supported symbol = Inl ErrNotValidSymbol \<and>
    (\<exists>r' m. serve (file_market supported decode getOk True) q r = Some (Inr (True, r')) \<and>
       map_of (rgMarkets r') symbol = Some \<lparr>pcMarket = m, pcRunning = True\<rparr> \<and> mkSymbol m = symbol \<and>
       mkInbox m = [request_op q] \<and> mkBook m = NewOrderbook symbol)"
proof -
  have "log_holds Unmarshal_record (journal_log symbol (fst (rgJournal r), snd (rgJournal r))) [] []"
    using assms(3) log_holds_empty by simp
  note rp = Replay_log [OF this, of replay_callback]
  obtain m where m: "file_market supported decode getOk True (rgJournal r) None symbol (rgOpts r) = Some (Inr m)"
    "mkSymbol m = symbol" "mkInbox m = []" "0 < mkCapacity m" "mkBook m = NewOrderbook symbol"
    by (rule file_market_cases [OF refl, where supportedSymbols = supported and decode = decode and getOk = getOk
          and readable = True and st = "rgJournal r" and rdb = None and symbol = symbol and opts = "rgOpts r"])
      (use rp assms(4) in \<open>auto simp: LoadOrderbook_def\<close>)
  have "serve (file_market supported decode getOk True) q r =
      Some (Inr (True, r\<lparr>rgMarkets := rgMarkets r @
        [(symbol, \<lparr>pcMarket = m\<lparr>mkInbox := [request_op q]\<rparr>, pcRunning = True\<rparr>)], rgWaiting := rgWaiting r + 1\<rparr>))"
  proof -
    have "AList.update symbol v (al @ [(symbol, w)]) = al @ [(symbol, v)]" if "map_of al symbol = None" for v w :: proc and al
      using that by (induction al) auto
    then show ?thesis
      using assms(1,2,5) m by (simp add: serve_route route_def getOrCreate_def send_to_def send_op_def update_new map_add_def)
  qed
  then show ?thesis using assms(1,6) m by (simp add: createOrderbook_def map_add_def)
qed

theorem unsupported_symbol_is_admitted_witness:
  "\<exists>r' m. serve (file_market ''ETH,SOL'' (\<lambda>_. None) True True) (Submit sample_bid) sample_registry = Some (Inr (True, r')) \<and>
     map_of (rgMarkets r') ''BTC'' = Some \<lparr>pcMarket = m, pcRunning = True\<rparr> \<and> mkInbox m = [new_op sample_bid]"
proof -
  have "\<not> Contains (Split_on CHR '','' ''ETH,SOL'') ''BTC''" by code_simp
  then show ?thesis
    using unsupported_symbol_is_admitted [of sample_registry "''BTC''" "Submit sample_bid" "''ETH,SOL''" "\<lambda>_. None" True]
    by (fastforce simp: sample_registry_def sample_journal_ok sample_opts_def sample_bid_def sample_order_def)
qed

text \<open>
  C38. Symbols that share a journal file restore each other's orders: after a market has
  accepted a resting order on an empty journal, a market created for any other symbol
  with the same sanitised name starts with that order in its book.
\<close>

theorem shared_file_leaks_orders:
  assumes st0: "handles_ok st0" "no_failed st0" "journal_log symbol st0 = []"
    and m: "mkSymbol m = symbol" "mkBook m = NewOrderbook symbol" "\<not> optPersist (mkOpts m)"
    and x: "Validate x = None" "oType x = LIMIT" "oTIF x = GTC" "oSide x = side_of d" "0 < oVolume x" "json_order x"
    and short: "length (record_JSON (stamp (fst env) (new_record x))) < maxToken" and io: "io_ok (snd env)"
    and shared: "sanitize other = sanitize symbol" and l2: "\<not> optOnL2 opts"
  shows "\<exists>m1 st1 evs m2. handle (file_append record_JSON) commit env (new_op x) m st0 db = Some (m1, st1, db, evs) \<and>
    file_market supported decode getOk True st1 None other opts = Some (Inr m2) \<and> mkSymbol m2 = other \<and>
    view d (mkBook m2) = [(oPrice x, [Normalize x])]"
proof -
  have wf: "book_wf (NewOrderbook s)" for s using NewOrderbook_ok by (simp add: book_ok_def)
  obtain b1 where b1: "MatchAndAddNewOrder (NewOrderbook symbol) x = Some (accepted [], b1)"
    using rests_ref [OF wf x(2-5)] by auto
  obtain b2 where b2: "MatchAndAddNewOrder (NewOrderbook other) x = Some (accepted [], b2)"
    and r2: "ref_of b2 = ref_of (one_order_book other x)"
    using rests_ref [OF wf x(2-5)] one_order_book(2) [OF x(4)] by auto
  have v2: "view d b2 = [(oPrice x, [Normalize x])]"
    using arg_cong [OF r2, of "\<lambda>rb. rLadder rb d"] one_order_book(3) [OF x(4), of other] by simp
  have rec: "record_of_op symbol (new_op x) = new_record x" by (simp add: record_of_op_def new_op_def)
  obtain st1 where a: "file_append record_JSON env symbol (new_record x) st0 = (None, st1)"
    using Append_succeeds [of env st0 record_JSON symbol "new_record x"] io st0(2)
    by (cases "file_append record_JSON env symbol (new_record x) st0") simp
  obtain evs where h: "handle (file_append record_JSON) commit env (new_op x) m st0 db = Some (m\<lparr>mkBook := b1\<rparr>, st1, db, evs)"
    using x(1) a m b1 by (simp add: handle_def handle_new_def new_op_def Let_def)
  have "journal_log other st0 = []"
  proof -
    have "pathFor j other = pathFor j symbol" for j using shared by simp
    then show ?thesis using st0(3) unfolding journal_log_def by metis
  qed
  then have log: "journal_log other (fst st1, snd st1) = concat (map (\<lambda>l. l @ [newline]) [record_JSON (stamp (fst env) (new_record x))])"
    using handle_log [OF h st0(1,2) io] m(1) x(1) shared rec by (simp add: journaled_def new_op_def)
  have "record_printable (stamp (fst env) (new_record x))"
    using x(6) by (rule new_record_printable)
  from record_line_reads [OF this short] log
  have "log_holds Unmarshal_record (journal_log other (fst st1, snd st1)) ([] @ [stamp (fst env) (new_record x)]) []"
    using log_holds_append [OF log_holds_empty, of Unmarshal_record "[record_JSON (stamp (fst env) (new_record x))]"
        "[stamp (fst env) (new_record x)]"] by simp
  moreover have "replay_callback (new_record x) (NewOrderbook other) = Some (None, b2)"
    using b2 by (simp add: replay_callback_def applyJournalRecord_def)
  ultimately have rp: "Replay Unmarshal_record True other replay_callback st1 (NewOrderbook other) = Some (None, b2)"
    using Replay_log [of Unmarshal_record other "fst st1" "snd st1" _ "[]" replay_callback "NewOrderbook other"] by simp
  have "\<exists>m2. file_market supported decode getOk True st1 None other opts = Some (Inr m2) \<and> mkSymbol m2 = other \<and> mkBook m2 = b2"
    by (rule file_market_cases [OF refl, where supportedSymbols = supported and decode = decode and getOk = getOk
          and readable = True and st = st1 and rdb = None and symbol = other and opts = opts])
      (use rp l2 in \<open>auto simp: LoadOrderbook_def\<close>)
  then show ?thesis using h v2 by blast
qed


theorem shared_file_leaks_orders_witness:
  "\<exists>st1 m2. file_market '''' (\<lambda>_. None) True True st1 None ''BTC/USDT'' sample_opts = Some (Inr m2) \<and>
     mkSymbol m2 = ''BTC/USDT'' \<and> view True (mkBook m2) = [(Px 100, [Normalize sample_bid])]"
proof -
  let ?m = "sample_market\<lparr>mkSymbol := ''BTC_USDT'', mkBook := NewOrderbook ''BTC_USDT''\<rparr>"
  have m: "mkSymbol ?m = ''BTC_USDT''" "mkBook ?m = NewOrderbook ''BTC_USDT''" "\<not> optPersist (mkOpts ?m)"
    by (simp_all add: sample_opts_def)
  have io: "io_ok (snd (17 :: int64, good_io))" by (simp add: io_ok_def good_io_def)
  have short: "length (record_JSON (stamp (fst (17 :: int64, good_io)) (new_record sample_bid))) < maxToken"
    using sample_bid(9) by simp
  have same: "sanitize ''BTC/USDT'' = sanitize ''BTC_USDT''" by code_simp
  have off: "\<not> optOnL2 sample_opts" by (simp add: sample_opts_def)
  have price: "oPrice sample_bid = Px 100" by (simp add: sample_bid_def sample_order_def)
  show ?thesis
    using shared_file_leaks_orders [OF sample_journal_empty(2,3,1) m sample_bid(1-6) short io same off,
        of no_store "()" "''''" "\<lambda>_. None" True] unfolding price by blast
qed

end
