(* ===== verification/ProcessProps.thy ===== *)
theory ProcessProps
  imports Process RegistryProps
begin

text \<open>
  The process around the registry: messages reach the markets in order, and what the
  shutdown does and does not do.
\<close>

section \<open>Messages\<close>

lemma consume_commands:
  "consume rd = Some i \<Longrightarrow> dispatch i = Some q \<Longrightarrow> (\<exists>x. q = Submit x) \<or> (\<exists>x. q = CancelOf x)"
  by (auto simp: dispatch_def split: if_splits)

text \<open>
  A message carries its order: the JSON of any order with ASCII strings whose
  decimals have a printed form, sent under a key that starts with \<^verbatim>\<open>create_\<close> or \<^verbatim>\<open>cancel_\<close>, reaches the registry
  as the submission or the cancellation of exactly that order; and no message at all asks
  the registry to modify an order.
\<close>

theorem message_carries_its_order:
  assumes "json_order x"
  shows "(\<exists>i. consume (Some \<lparr>msKey = ''create_'' @ k, msValue = order_JSON x\<rparr>) = Some i \<and> dispatch i = Some (Submit x)) \<and>
    (\<exists>i. consume (Some \<lparr>msKey = ''cancel_'' @ k, msValue = order_JSON x\<rparr>) = Some i \<and> dispatch i = Some (CancelOf x)) \<and>
    \<not> (\<exists>rd i s i' p v. consume rd = Some i \<and> dispatch i = Some (Modify s i' p v))"
proof -
  have "HasPrefix (''create_'' @ k) ''create_''" "HasPrefix (''cancel_'' @ k) ''cancel_''" by (simp_all add: HasPrefix_def)
  moreover have "\<not> HasPrefix (''cancel_'' @ k) ''create_''" by (simp add: HasPrefix_def)
  ultimately show ?thesis
    using json_order_reads [OF assms]
    by (auto simp: consume_def dispatch_def NEW_ORDER_CMD_def CANCEL_ORDER_CMD_def Let_def split: if_splits)
qed

theorem message_carries_its_order_witness:
  "\<exists>i. consume (Some \<lparr>msKey = ''create_1'', msValue = order_JSON sample_bid\<rparr>) = Some i \<and> dispatch i = Some (Submit sample_bid)"
  using message_carries_its_order [OF sample_bid(6), of "''1''"] by simp

section \<open>Order from the topic to the book\<close>

fun registry_events :: "'env activity list \<Rightarrow> 'env event list" where
  "registry_events [] = []"
| "registry_events (Took i ls # as) = ls @ registry_events as"
| "registry_events (Resumed q # as) = Routed q # registry_events as"
| "registry_events (Background l # as) = l # registry_events as"
| "registry_events (a # as) = registry_events as"

lemma registry_events_append [simp]: "registry_events (a @ b) = registry_events a @ registry_events b"
  by (induction a rule: registry_events.induct) simp_all

text \<open>The operations for a symbol in a list of instruments.\<close>

definition ops_for :: "string \<Rightarrow> instrument list \<Rightarrow> op list" where
  "ops_for s is = concat (map (\<lambda>i. case dispatch i of
     None \<Rightarrow> [] | Some q \<Rightarrow> if request_symbol q = s then [request_op q] else []) is)"

lemma ops_for_simps [simp]:
  "ops_for s [] = []" "ops_for s (a @ b) = ops_for s a @ ops_for s b"
  "ops_for s (i # is) = (case dispatch i of None \<Rightarrow> [] | Some q \<Rightarrow> if request_symbol q = s then [request_op q] else []) @ ops_for s is"
  by (simp_all add: ops_for_def)

fun delivered :: "'env activity list \<Rightarrow> instrument list" where
  "delivered [] = []"
| "delivered (Read rd # as) = (case consume rd of None \<Rightarrow> [] | Some i \<Rightarrow> [i]) @ delivered as"
| "delivered (a # as) = delivered as"

lemma delivered_append [simp]: "delivered (a @ b) = delivered a @ delivered b"
  by (induction a rule: delivered.induct) simp_all

definition blocked_ops :: "string \<Rightarrow> request option \<Rightarrow> op list" where
  "blocked_ops s rq = (case rq of None \<Rightarrow> [] | Some q \<Rightarrow> if request_symbol q = s then [request_op q] else [])"

lemma blocked_ops_simps [simp]:
  "blocked_ops s None = []" "blocked_ops s (Some q) = (if request_symbol q = s then [request_op q] else [])"
  by (simp_all add: blocked_ops_def)

lemma routed_background [simp]: "background l \<Longrightarrow> routed_to s [l] = []"
  by (cases l) simp_all

lemma proc_step_registry:
  assumes "proc_step create log_append commit pr a pr'"
  shows "reg_run create log_append commit (prRegistry pr) (registry_events [a]) (prRegistry pr')"
  using assms
  by cases (use reg_run.none reg_run.step [OF reg_run.none] in \<open>fastforce+\<close>)

lemma reg_run_append:
  assumes "reg_run create log_append commit r1 ls2 r2"
  shows "reg_run create log_append commit r ls1 r1 \<Longrightarrow> reg_run create log_append commit r (ls1 @ ls2) r2"
  using assms
proof (induction r1 ls2 r2 rule: reg_run.induct)
  case (step r1 ls2 r2 l r3)
  then show ?case using reg_run.step [of create log_append commit r "ls1 @ ls2" r2 l r3] by simp
qed simp

lemma proc_run_registry:
  "proc_run create log_append commit pr as pr' \<Longrightarrow>
   reg_run create log_append commit (prRegistry pr) (registry_events as) (prRegistry pr')"
proof (induction rule: proc_run.induct)
  case (idle pr)
  show ?case by (simp add: reg_run.none)
next
  case (acts pr as pr1 a pr2)
  then show ?case using reg_run_append [OF proc_step_registry [OF acts.hyps(2)]] by simp
qed

lemma proc_step_order:
  assumes "proc_step create log_append commit pr a pr'"
  shows "blocked_ops s (prBlocked pr) @ ops_for s (prChannel pr) @ ops_for s (delivered [a]) =
    routed_to s (registry_events [a]) @ blocked_ops s (prBlocked pr') @ ops_for s (prChannel pr') \<and>
    (length (prChannel pr) \<le> channel_capacity \<longrightarrow> length (prChannel pr') \<le> channel_capacity) \<and>
    prConsumers pr' = prConsumers pr"
  using assms by cases simp_all

lemma proc_run_order:
  assumes "proc_run create log_append commit pr0 as pr" and "prChannel pr0 = []" and "prBlocked pr0 = None"
  shows "ops_for s (delivered as) =
      routed_to s (registry_events as) @ blocked_ops s (prBlocked pr) @ ops_for s (prChannel pr) \<and>
    length (prChannel pr) \<le> channel_capacity \<and> prConsumers pr = prConsumers pr0"
  using assms
proof (induction pr0 as pr rule: proc_run.induct)
  case (acts pr as pr1 a pr2)
  have IH: "ops_for s (delivered as) =
      routed_to s (registry_events as) @ blocked_ops s (prBlocked pr1) @ ops_for s (prChannel pr1)"
    "length (prChannel pr1) \<le> channel_capacity" "prConsumers pr1 = prConsumers pr"
    using acts.IH acts.prems by simp_all
  note st = proc_step_order [OF acts.hyps(2), of s]
  have "ops_for s (delivered (as @ [a])) =
      routed_to s (registry_events as) @ (blocked_ops s (prBlocked pr1) @ ops_for s (prChannel pr1) @ ops_for s (delivered [a]))"
    using IH(1) by simp
  also have "\<dots> = routed_to s (registry_events (as @ [a])) @ blocked_ops s (prBlocked pr2) @ ops_for s (prChannel pr2)"
    using st by simp
  finally show ?case using IH st by simp
qed simp

text \<open>
  C10. First in, first out, from the topic to the book: at any moment of a run of the
  process, and for every symbol, the requests for it among the messages delivered so far
  are, in the order of the messages, the operations its market has handled, the ones in
  its inbox, the one the dispatcher is blocked on, and those still in the channel.
\<close>

theorem messages_reach_markets_in_order:
  assumes "NewRegistry opts (Some st0) rdb0 = Inr r0"
    and "proc_run (file_market supported decode getOk readable) log_append commit (start_process r0) as pr"
  shows "ops_for s (delivered as) =
      map snd (ran_at s (registry_events as)) @ inbox_at s (prRegistry pr) @
      blocked_ops s (prBlocked pr) @ ops_for s (prChannel pr) \<and>
    length (prChannel pr) \<le> channel_capacity"
proof -
  have start: "prRegistry (start_process r0) = r0" "prChannel (start_process r0) = []" "prBlocked (start_process r0) = None"
    by (simp_all add: start_process_def)
  have "reg_run (file_market supported decode getOk readable) log_append commit r0 (registry_events as) (prRegistry pr)"
    using proc_run_registry [OF assms(2)] start by simp
  from file_maker.reg_run_keeps [OF this empty_registry(1,2) [OF assms(1)]]
  show ?thesis using proc_run_order [OF assms(2) start(2,3), of s] by simp
qed

definition sample_message :: message where
  "sample_message = \<lparr>msKey = ''create_1'', msValue = order_JSON sample_bid\<rparr>"

definition sample_instrument :: instrument where
  "sample_instrument = \<lparr>inCommand = NEW_ORDER_CMD, inValue = sample_bid\<rparr>"

lemma sample_message: "consume (Some sample_message) = Some sample_instrument" "dispatch sample_instrument = Some (Submit sample_bid)"
  using json_order_reads [OF sample_bid(6)]
  by (simp_all add: consume_def sample_message_def sample_instrument_def HasPrefix_def dispatch_def)

text \<open>The small run of the registry, driven by a message.\<close>

lemma sample_process_run:
  "\<exists>pr p evs. proc_run (file_market '''' (\<lambda>_. None) True True) (file_append record_JSON) (CommitOrderBook (\<lambda>_. None) True)
     (start_process sample_registry) [Read (Some sample_message), Took sample_instrument [Routed (Submit sample_bid)],
        Background (Ran ''BTC'' (17, good_io) (new_op sample_bid) evs)] pr \<and>
     rgMarkets (prRegistry pr) = [(''BTC'', p)] \<and> pcRunning p \<and> obConditional (mkBook (pcMarket p)) = []"
proof -
  let ?c = "file_market '''' (\<lambda>_. None) True True" and ?a = "file_append record_JSON" and ?k = "CommitOrderBook (\<lambda>_. None) True"
  let ?pr0 = "start_process sample_registry" and ?pr1 = "(start_process sample_registry)\<lparr>prChannel := [sample_instrument]\<rparr>"
  obtain r1 r p evs where s1: "reg_step ?c ?a ?k sample_registry (Routed (Submit sample_bid)) r1"
    and s2: "reg_step ?c ?a ?k r1 (Ran ''BTC'' (17, good_io) (new_op sample_bid) evs) r"
    and r: "rgMarkets r = [(''BTC'', p)]" "pcRunning p" "obConditional (mkBook (pcMarket p)) = []" using sample_steps by blast
  have "proc_step ?c ?a ?k ?pr0 (Read (Some sample_message)) (?pr0\<lparr>prChannel := prChannel ?pr0 @ [sample_instrument]\<rparr>)"
    by (rule proc_step.delivered [OF sample_message(1)]) (simp add: start_process_def channel_capacity_def)
  then have p1: "proc_step ?c ?a ?k ?pr0 (Read (Some sample_message)) ?pr1" by (simp add: start_process_def)
  have p2: "proc_step ?c ?a ?k ?pr1 (Took sample_instrument [Routed (Submit sample_bid)]) (?pr1\<lparr>prChannel := [], prRegistry := r1\<rparr>)"
    by (rule proc_step.routed [OF _ _ _ sample_message(2)]) (use s1 in \<open>simp_all add: start_process_def\<close>)
  have p3: "proc_step ?c ?a ?k (?pr1\<lparr>prChannel := [], prRegistry := r1\<rparr>)
      (Background (Ran ''BTC'' (17, good_io) (new_op sample_bid) evs)) (?pr1\<lparr>prChannel := [], prRegistry := r\<rparr>)"
    using proc_step.worked [of "Ran ''BTC'' (17, good_io) (new_op sample_bid) evs" ?c ?a ?k "?pr1\<lparr>prChannel := [], prRegistry := r1\<rparr>" r] s2
    by simp
  have "proc_run ?c ?a ?k ?pr0 [Read (Some sample_message), Took sample_instrument [Routed (Submit sample_bid)],
        Background (Ran ''BTC'' (17, good_io) (new_op sample_bid) evs)] (?pr1\<lparr>prChannel := [], prRegistry := r\<rparr>)"
    using proc_run.acts [OF proc_run.acts [OF proc_run.acts [OF proc_run.idle p1] p2] p3] by simp
  then show ?thesis using r by (intro exI [of _ "?pr1\<lparr>prChannel := [], prRegistry := r\<rparr>"]) auto
qed

theorem messages_reach_markets_in_order_witness:
  "\<exists>pr evs. proc_run (file_market '''' (\<lambda>_. None) True True) (file_append record_JSON) (CommitOrderBook (\<lambda>_. None) True)
     (start_process sample_registry) [Read (Some sample_message), Took sample_instrument [Routed (Submit sample_bid)],
        Background (Ran ''BTC'' (17, good_io) (new_op sample_bid) evs)] pr \<and>
     inbox_at ''BTC'' (prRegistry pr) = [] \<and> ops_for ''BTC'' (prChannel pr) = []"
proof -
  obtain pr evs where run: "proc_run (file_market '''' (\<lambda>_. None) True True) (file_append record_JSON) (CommitOrderBook (\<lambda>_. None) True)
     (start_process sample_registry) [Read (Some sample_message), Took sample_instrument [Routed (Submit sample_bid)],
        Background (Ran ''BTC'' (17, good_io) (new_op sample_bid) evs)] pr" using sample_process_run by blast
  have sy: "oSymbol sample_bid = ''BTC''" by (simp add: sample_bid_def sample_order_def)
  show ?thesis
    using messages_reach_markets_in_order [OF sample_registry run, of "''BTC''"] run sy by (auto simp: sample_message)
qed


section \<open>Shutdown\<close>



lemma stuck_step:
  assumes step: "proc_step create log_append commit pr a pr'"
    and q: "prBlocked pr = Some q" and p: "map_of (rgMarkets (prRegistry pr)) (request_symbol q) = Some p"
    and stop: "\<not> pcRunning p" and full: "mkCapacity (pcMarket p) \<le> length (mkInbox (pcMarket p))"
  shows "prBlocked pr' = Some q \<and> map_of (rgMarkets (prRegistry pr')) (request_symbol q) = Some p \<and>
    prDispatching pr' = prDispatching pr \<and> a \<noteq> Drained"
proof -
  have no: "\<not> reg_step create log_append commit (prRegistry pr) (Routed q) r" for r
  proof
    assume "reg_step create log_append commit (prRegistry pr) (Routed q) r"
    then have "serve create q (prRegistry pr) = Some (Inr (True, r))" by (auto elim: reg_step.cases)
    then show False
      using p full by (simp add: serve_route route_def getOrCreate_def send_to_def send_op_def)
  qed
  have bg: "map_of (rgMarkets r) (request_symbol q) = Some p"
    if "background l" "reg_step create log_append commit (prRegistry pr) l r" for l r
    using that(2,1) p stop by cases (auto simp: update_conv')
  from step show ?thesis by cases (use q p no bg in \<open>auto\<close>)
qed

lemma stuck_run:
  assumes "proc_run create log_append commit pr as pr'"
    and "prBlocked pr = Some q" and "map_of (rgMarkets (prRegistry pr)) (request_symbol q) = Some p"
    and "\<not> pcRunning p" and "mkCapacity (pcMarket p) \<le> length (mkInbox (pcMarket p))"
  shows "prBlocked pr' = Some q \<and> map_of (rgMarkets (prRegistry pr')) (request_symbol q) = Some p \<and>
    prDispatching pr' = prDispatching pr \<and> Drained \<notin> set as"
  using assms
proof (induction pr as pr' rule: proc_run.induct)
  case (acts pr as pr1 a pr2)
  have IH: "prBlocked pr1 = Some q" "map_of (rgMarkets (prRegistry pr1)) (request_symbol q) = Some p"
    "prDispatching pr1 = prDispatching pr" "Drained \<notin> set as" using acts.IH acts.prems by simp_all
  show ?case using stuck_step [OF acts.hyps(2) IH(1,2) acts.prems(3,4)] IH by auto
qed simp

text \<open>
  C34. A full inbox at shutdown blocks the dispatcher for good: when the dispatcher waits
  to send to a market whose goroutine has returned with a full inbox, it waits in every
  later state, so the main loop never sees the cancelled context.
\<close>

theorem full_inbox_blocks_shutdown:
  assumes "prBlocked pr = Some q" and "map_of (rgMarkets (prRegistry pr)) (request_symbol q) = Some p"
    and "\<not> pcRunning p" and "length (mkInbox (pcMarket p)) = mkCapacity (pcMarket p)" and "prDispatching pr"
    and "proc_run create log_append commit pr as pr'"
  shows "prBlocked pr' = Some q \<and> prDispatching pr' \<and> Drained \<notin> set as"
  using stuck_run [OF assms(6,1-3)] assms(4,5) by simp

definition stuck_process :: "(file_journal \<times> disk, redis) process" where
  "stuck_process = (start_process (sample_registry\<lparr>rgCancelled := True,
      rgMarkets := [(''BTC'', \<lparr>pcMarket = sample_market\<lparr>mkInbox := [cancel_op 1, cancel_op 2]\<rparr>, pcRunning = False\<rparr>)]\<rparr>))
     \<lparr>prBlocked := Some (Submit sample_bid)\<rparr>"

theorem full_inbox_blocks_shutdown_witness:
  "proc_run (file_market '''' (\<lambda>_. None) True True) (file_append record_JSON) (CommitOrderBook (\<lambda>_. None) True)
     stuck_process [Background Cancelled] stuck_process \<and> prBlocked stuck_process = Some (Submit sample_bid)"
proof -
  let ?c = "file_market '''' (\<lambda>_. None) True True" and ?a = "file_append record_JSON" and ?k = "CommitOrderBook (\<lambda>_. None) True"
  have "proc_step ?c ?a ?k stuck_process (Background Cancelled)
      (stuck_process\<lparr>prRegistry := (prRegistry stuck_process)\<lparr>rgCancelled := True\<rparr>\<rparr>)"
    by (rule proc_step.worked [OF _ reg_step.cancelled]) simp
  moreover have "stuck_process\<lparr>prRegistry := (prRegistry stuck_process)\<lparr>rgCancelled := True\<rparr>\<rparr> = stuck_process"
    by (simp add: stuck_process_def start_process_def)
  ultimately have run: "proc_run ?c ?a ?k stuck_process [Background Cancelled] stuck_process"
    using proc_run.acts [OF proc_run.idle] by fastforce
  have sy: "oSymbol sample_bid = ''BTC''" by (simp add: sample_bid_def sample_order_def)
  have "prBlocked stuck_process = Some (Submit sample_bid) \<and> prDispatching stuck_process \<and>
      Drained \<notin> set [Background Cancelled :: (int64 \<times> io) activity]"
    by (rule full_inbox_blocks_shutdown [OF _ _ _ _ _ run, where p =
          "\<lparr>pcMarket = sample_market\<lparr>mkInbox := [cancel_op 1, cancel_op 2]\<rparr>, pcRunning = False\<rparr>"])
      (simp_all add: stuck_process_def start_process_def sy)
  then show ?thesis using run by simp
qed

end
