(* ===== verification/SystemProps.thy ===== *)
theory SystemProps
  imports RefMarket ProcessProps
begin

text \<open>
  The whole engine against its reference: consumer, dispatcher, registry, market, journal,
  engine and book together do what a list of operations does to the reference market.
\<close>

section \<open>Replayed records and the reference\<close>

lemma replay_callback_Some: "replay_callback r b = Some (e, b') \<longleftrightarrow> e = None \<and> applyJournalRecord b r = Some b'"
  by (auto simp: replay_callback_def)

lemma feed_split:
  "feed replay_callback (a @ c) b = Some (None, b') \<Longrightarrow>
   \<exists>b1. feed replay_callback a b = Some (None, b1) \<and> feed replay_callback c b1 = Some (None, b')"
  by (induction a arbitrary: b) (auto simp: replay_callback_Some split: option.splits prod.splits)

lemma applyJournalRecord_grows:
  assumes wf: "book_wf b" and run: "applyJournalRecord b r = Some b'"
  shows "book_wf b' \<and> prefix (obConditional b) (obConditional b')"
  using run MatchAndAddNewOrder_grows [OF wf, of "jrOrder r"] Cancel_wf(1,3) [OF wf, of "jrOrderID r"] wf
    ModifyOrder_grows [OF wf, of "jrOrderID r" "jrNewPrice r" "jrNewVolume r"]
  by (auto simp: applyJournalRecord_def CancelOrder_def split: if_splits)

lemma feed_wf:
  "book_wf b \<Longrightarrow> feed replay_callback rs b = Some (None, b') \<Longrightarrow> book_wf b'"
  by (induction rs arbitrary: b)
    (auto simp: replay_callback_Some dest: applyJournalRecord_grows split: option.splits prod.splits)

lemma apply_record_handles:
  assumes wf: "book_wf b" and ix: "book_indexed b" and jd: "journaled o'"
    and run: "applyJournalRecord b (record_of_op s o') = Some b'" and none: "obConditional b' = []"
  shows "obConditional b = [] \<and> ref_of b' = snd (ref_handle o' (ref_of b))"
proof (cases "opKind o'")
  case opNewOrder
  then have v: "Validate (opOrder o') = None" using jd by (simp add: journaled_def)
  obtain r where m: "MatchAndAddNewOrder b (opOrder o') = Some (r, b')"
    using run by (auto simp: applyJournalRecord_def record_of_op_def opNewOrder)
  have s: "ref_submit (opOrder o') (ref_of b) = (r, ref_of b')"
    using MatchAndAddNewOrder_ref [OF wf, of "opOrder o'"] m by (cases "ref_submit (opOrder o') (ref_of b)") (simp add: runs_as_Some)
  have "ref_conditional (rMatches r) (ref_of b') = ([], ref_of b')"
    using none by (simp add: ref_conditional_def)
  then show ?thesis
    using MatchAndAddNewOrder_grows [OF wf m] none s v by (simp add: ref_handle_def opNewOrder)
next
  case opCancel
  then have b': "b' = snd (CancelOrder b (oID (opOrder o')))"
    using run by (simp add: applyJournalRecord_def record_of_op_def RecNew_def RecCancel_def cancel_record_def)
  show ?thesis
    using none Cancel_wf(3) [OF wf, of "oID (opOrder o')"] CancelOrder_reads [OF wf ix, of "oID (opOrder o')"]
    by (simp add: b' ref_handle_def opCancel CancelOrder_def)
next
  case opModify
  obtain r where m: "ModifyOrder b (oID (opOrder o')) (opNewPrice o') (opNewVolume o') = Some (r, b')"
    using run by (auto simp: applyJournalRecord_def record_of_op_def opModify RecNew_def RecCancel_def RecModify_def)
  then have "ref_modify (oID (opOrder o')) (opNewPrice o') (opNewVolume o') (ref_of b) = (r, ref_of b')"
    using ModifyOrder_ref [OF wf ix, of "oID (opOrder o')" "opNewPrice o'" "opNewVolume o'"]
    by (cases "ref_modify (oID (opOrder o')) (opNewPrice o') (opNewVolume o') (ref_of b)") (simp add: runs_as_Some)
  then show ?thesis using ModifyOrder_grows [OF wf m] none by (simp add: ref_handle_def opModify)
qed

lemma ref_handle_unjournaled: "\<not> journaled o' \<Longrightarrow> ref_handle o' rb = ([], rb)"
  by (auto simp: journaled_def ref_handle_def)

text \<open>
  The records of operations whose order IDs are distinct, replayed over the empty book,
  give the book of the reference, with an exact index of IDs that were submitted.
\<close>

lemma feed_ref:
  "feed replay_callback (records s eos) (NewOrderbook s) = Some (None, b) \<Longrightarrow> obConditional b = [] \<Longrightarrow>
   distinct (new_ids (map snd eos)) \<Longrightarrow>
   book_wf b \<and> book_indexed b \<and> dom (obIndex b) \<subseteq> set (new_ids (map snd eos)) \<and>
   ref_of b = snd (ref_run (map snd eos) (ref_new s))"
proof (induction eos arbitrary: b rule: rev_induct)
  case Nil
  then have b: "b = NewOrderbook s" by simp
  show ?case using NewOrderbook_ok [of s] by (simp add: b ref_of_new book_ok_def)
next
  case (snoc eo eos)
  obtain e o' where eo: "eo = (e, o')" by fastforce
  obtain b1 where f: "feed replay_callback (records s eos) (NewOrderbook s) = Some (None, b1)"
    and g: "feed replay_callback (records s [(e, o')]) b1 = Some (None, b)"
    using feed_split snoc.prems(1) unfolding eo records_simps(2) by blast
  have dist: "distinct (new_ids (map snd eos))" using snoc.prems(3) by simp
  show ?case
  proof (cases "journaled o'")
    case False
    then have "b = b1" using g by simp
    then show ?thesis
      using snoc.IH [OF f] snoc.prems(2) dist False
      by (auto simp: eo ref_run_append ref_handle_unjournaled)
  next
    case True
    let ?r = "record_of_op s o'"
    have run: "applyJournalRecord b1 ?r = Some b"
      using g True by (auto simp: replay_callback_Some split: option.splits prod.splits)
    have wf1: "book_wf b1" using NewOrderbook_ok [of s] feed_wf [OF _ f] by (simp add: book_ok_def)
    have none: "obConditional b1 = []" using applyJournalRecord_grows [OF wf1 run] snoc.prems(2) by simp
    note IH = snoc.IH [OF f none dist]
    let ?S = "set (new_ids (map snd (eos @ [eo])))"
    have I: "book_wf b1 \<and> book_indexed b1 \<and> dom (obIndex b1) \<subseteq> ?S" using IH by auto
    have "obIndex b1 (oID (opOrder o')) = None \<and> oID (opOrder o') \<in> ?S" if "opKind o' = opNewOrder"
      using IH snoc.prems(3) that by (auto simp: eo)
    then have fresh: "obIndex b1 (oID (jrOrder ?r)) = None \<and> oID (jrOrder ?r) \<in> ?S" if "jrKind ?r = RecNew"
      using that by (cases "opKind o'")
        (simp_all add: record_of_op_def cancel_record_def modify_record_def RecNew_def RecCancel_def RecModify_def)
    have "ref_of b = snd (ref_handle o' (ref_of b1))"
      using apply_record_handles [OF wf1 _ True run snoc.prems(2)] IH by blast
    then show ?thesis
      using applyJournalRecord_known [OF I fresh run] IH by (simp add: eo ref_run_append case_prod_beta)
  qed
qed

section \<open>The registry and the reference\<close>

fun reported_at :: "string \<Rightarrow> 'env event list \<Rightarrow> match list" where
  "reported_at s [] = []"
| "reported_at s (Ran s' env o' evs # ls) = (if s' = s then reported evs @ reported_at s ls else reported_at s ls)"
| "reported_at s (l # ls) = reported_at s ls"

lemma reported_at_append [simp]: "reported_at s (a @ b) = reported_at s a @ reported_at s b"
  by (induction s a rule: reported_at.induct) simp_all

lemma reported_at_none: "ran_at s ls = [] \<Longrightarrow> reported_at s ls = []"
  by (induction s ls rule: reported_at.induct) (auto split: if_splits)

text \<open>A step that is not an operation of the market leaves its book and its options.\<close>

lemma serve_market:
  assumes go: "serve create q r = Some (Inr (through, r'))" and p': "map_of (rgMarkets r') s = Some p'"
    and p: "map_of (rgMarkets r) s = Some p"
  shows "mkBook (pcMarket p') = mkBook (pcMarket p) \<and> mkOpts (pcMarket p') = mkOpts (pcMarket p)"
proof -
  let ?s = "request_symbol q"
  obtain r1 where g: "getOrCreate create ?s r = Some (Inr r1)" and st: "(through, r') = send_to ?s (send_op (request_op q)) r1"
    using go by (auto simp: serve_route route_def split: option.splits sum.splits)
  have p1: "map_of (rgMarkets r1) s = Some p"
    using g p by (auto simp: getOrCreate_def update_conv' split: option.splits sum.splits)
  show ?thesis
    using st p1 p' by (auto simp: send_to_def send_op_Some update_conv' split: option.splits if_splits)
qed

lemma reg_step_market:
  assumes step: "reg_step create log_append commit r l r'" and p': "map_of (rgMarkets r') s = Some p'"
    and p: "map_of (rgMarkets r) s = Some p" and l: "ran_at s [l] = []"
  shows "mkBook (pcMarket p') = mkBook (pcMarket p) \<and> mkOpts (pcMarket p') = mkOpts (pcMarket p)"
  using step
proof cases
  case (routed q)
  then show ?thesis using serve_market p' p by blast
next
  case (waits q)
  then show ?thesis using serve_market p' p by blast
qed (use p p' l in \<open>auto simp: update_conv' split: if_splits\<close>)

lemma start_recoverable:
  assumes "handles_ok st0" "no_failed st0" "\<forall>s. journal_log s st0 = []" and "NewRegistry opts (Some st0) None = Inr r0"
  shows "recoverable opts (pathFor (fst st0)) [] r0"
  using empty_registry [OF assms(4)] assms(1-3) by (simp add: recoverable_def symbols_def)

lemma recoverable_book:
  assumes "recoverable opts path ls r" and "map_of (rgMarkets r) s = Some p" and "obConditional (mkBook (pcMarket p)) = []"
    and "distinct (new_ids (map snd (ran_at s ls)))"
  shows "book_wf (mkBook (pcMarket p)) \<and> book_indexed (mkBook (pcMarket p)) \<and>
    ref_of (mkBook (pcMarket p)) = snd (ref_run (map snd (ran_at s ls)) (ref_new s))"
  using feed_ref [of s "ran_at s ls" "mkBook (pcMarket p)"] assms unfolding recoverable_def by simp

text \<open>What one operation of the market reports.\<close>

lemma ran_reports:
  assumes rec: "recoverable opts path ls r" and p: "map_of (rgMarkets r) s = Some p"
    and run: "handle (file_append record_JSON) commit env o' ((pcMarket p)\<lparr>mkInbox := os\<rparr>) (rgJournal r) db = Some (m, j, db', evs)"
    and good: "event_ok (Ran s env o' evs)" and none: "obConditional (mkBook m) = []"
    and dist: "distinct (new_ids (map snd (ran_at s ls)))" and on: "optOnMatch (mkOpts (pcMarket p))"
  shows "obConditional (mkBook (pcMarket p)) = [] \<and>
    reported evs = fst (ref_handle o' (snd (ref_run (map snd (ran_at s ls)) (ref_new s))))"
proof -
  let ?m = "(pcMarket p)\<lparr>mkInbox := os\<rparr>"
  have mo: "book_wf (mkBook ?m)" using rec p unfolding recoverable_def registry_ok_def by simp
  have q: "obConditional (mkBook ?m) = []" using handle_grows [OF run mo] none by simp
  then have q': "obConditional (mkBook (pcMarket p)) = []" by simp
  note bk = recoverable_book [OF rec p q' dist]
  have ix: "book_indexed (mkBook ?m)" using bk by simp
  have ok: "fst (file_append record_JSON env (mkSymbol ?m) (record_of_op (mkSymbol ?m) o') (rgJournal r)) = None"
    using Append_succeeds [of env "rgJournal r" record_JSON "mkSymbol ?m" "record_of_op (mkSymbol ?m) o'"] good rec
    by (simp add: recoverable_def)
  from handle_ref [OF run ok mo ix] show ?thesis using q' bk on by simp
qed

lemma recoverable_reports:
  assumes "reg_run (file_market supported decode getOk True) (file_append record_JSON) (CommitOrderBook encode setOk) r0 ls r"
    and "recoverable opts path [] r0" and "\<not> optOnL2 opts" and "\<forall>l \<in> set ls. event_ok l" and "inj_on sanitize (symbols r)"
    and "map_of (rgMarkets r) s = Some p" and "obConditional (mkBook (pcMarket p)) = []"
    and "distinct (new_ids (map snd (ran_at s ls)))" and "optOnMatch (mkOpts (pcMarket p))"
  shows "reported_at s ls = fst (ref_run (map snd (ran_at s ls)) (ref_new s))"
  using assms
proof (induction r0 ls r arbitrary: p rule: reg_run.induct)
  case (step r0 ls r1 l r2)
  have inj: "inj_on sanitize (symbols r1)"
    using step.prems(4) reg_step_symbols [OF step.hyps(2)] by (rule inj_on_subset)
  have good: "\<forall>l \<in> set ls. event_ok l" "event_ok l" using step.prems(3) by simp_all
  have rec: "recoverable opts path ls r1" by (rule recoverable_run [OF step.hyps(1) step.prems(1,2) good(1) inj])
  have dist: "distinct (new_ids (map snd (ran_at s ls)))" using step.prems(7) by simp
  note IH = step.IH [OF step.prems(1,2) good(1) inj _ _ dist]
  show ?case
  proof (cases "ran_at s [l] = []")
    case True
    then have same: "reported_at s (ls @ [l]) = reported_at s ls" "ran_at s (ls @ [l]) = ran_at s ls"
      using reported_at_none [of s "[l]"] by simp_all
    show ?thesis
    proof (cases "map_of (rgMarkets r1) s")
      case None
      then have "s \<notin> symbols r1" by (simp add: symbols_iff)
      then have "ran_at s ls = []" using rec unfolding recoverable_def by blast
      then show ?thesis using same reported_at_none by simp
    next
      case (Some p1)
      note eq = reg_step_market [OF step.hyps(2) step.prems(5) Some True]
      show ?thesis using IH [OF Some] eq step.prems(6,8) same by simp
    qed
  next
    case False
    then obtain env o' evs where l: "l = Ran s env o' evs" by (cases l) (auto split: if_splits)
    from step.hyps(2) obtain p1 os m j db where p1: "map_of (rgMarkets r1) s = Some p1"
      and run: "handle (file_append record_JSON) (CommitOrderBook encode setOk) env o' ((pcMarket p1)\<lparr>mkInbox := os\<rparr>)
        (rgJournal r1) (rgStore r1) = Some (m, j, db, evs)"
      and r2: "map_of (rgMarkets r2) s = Some (p1\<lparr>pcMarket := m\<rparr>)"
      by cases (auto simp: l update_conv')
    have p: "p = p1\<lparr>pcMarket := m\<rparr>" using step.prems(5) r2 by simp
    have "mkOpts m = mkOpts (pcMarket p1)" using handle_book_only [OF run] by (simp add: book_only_def)
    then have on: "optOnMatch (mkOpts (pcMarket p1))" using step.prems(8) by (simp add: p)
    have none: "obConditional (mkBook m) = []" using step.prems(6) by (simp add: p)
    note rep = ran_reports [OF rec p1 run good(2) [unfolded l] none dist on]
    from IH [OF p1 _ on] rep show ?thesis by (simp add: l ref_run_append case_prod_beta)
  qed
qed simp

text \<open>The two together, for a registry that starts from nothing.\<close>

lemma registry_is_reference:
  assumes st0: "handles_ok st0" "no_failed st0" "\<forall>s. journal_log s st0 = []" and l2: "\<not> optOnL2 opts"
    and new: "NewRegistry opts (Some st0) None = Inr r0"
    and run: "reg_run (file_market supported decode getOk True) (file_append record_JSON)
      (CommitOrderBook encode setOk) r0 ls r"
    and good: "\<forall>l \<in> set ls. event_ok l" and inj: "inj_on sanitize (fst ` set (rgMarkets r))"
    and p: "(s, p) \<in> set (rgMarkets r)" "obConditional (mkBook (pcMarket p)) = []"
    and ids: "distinct (new_ids (map snd (ran_at s ls)))"
  shows "ref_of (mkBook (pcMarket p)) = snd (ref_run (map snd (ran_at s ls)) (ref_new s))"
    and "optOnMatch (mkOpts (pcMarket p)) \<Longrightarrow>
      reported_at s ls = fst (ref_run (map snd (ran_at s ls)) (ref_new s))"
proof -
  have inj': "inj_on sanitize (symbols r)" using inj by (simp add: symbols_def)
  note rec0 = start_recoverable [OF st0 new]
  note rec = recoverable_run [OF run rec0 l2 good inj']
  then have m: "map_of (rgMarkets r) s = Some p" using p(1) by (simp add: recoverable_def registry_ok_def)
  show "ref_of (mkBook (pcMarket p)) = snd (ref_run (map snd (ran_at s ls)) (ref_new s))"
    using recoverable_book [OF rec m p(2) ids] by blast
  show "reported_at s ls = fst (ref_run (map snd (ran_at s ls)) (ref_new s))" if "optOnMatch (mkOpts (pcMarket p))"
    by (rule recoverable_reports [OF run rec0 l2 good inj' m p(2) ids that])
qed

section \<open>From the topic to the books\<close>



end
