(* ===== verification/LivenessProps.thy ===== *)
theory LivenessProps
  imports SystemProps
begin

text \<open>
  Nothing gets stuck while the process runs: as long as the context is not cancelled, the
  goroutines can always finish the work that has been delivered.
\<close>

section \<open>Before the context is cancelled\<close>

definition serving :: "('j, redis) registry \<Rightarrow> bool" where
  "serving r \<longleftrightarrow> registry_ok r \<and> rgStore r = None \<and>
     (\<not> rgCancelled r \<longrightarrow> (\<forall>s p. map_of (rgMarkets r) s = Some p \<longrightarrow> pcRunning p))"

lemma serve_running:
  assumes "serve create q r = Some (Inr (through, r'))" and "\<forall>s p. map_of (rgMarkets r) s = Some p \<longrightarrow> pcRunning p"
  shows "(\<forall>s p. map_of (rgMarkets r') s = Some p \<longrightarrow> pcRunning p) \<and> rgCancelled r' = rgCancelled r"
proof -
  let ?s = "request_symbol q"
  obtain r1 where g: "getOrCreate create ?s r = Some (Inr r1)" and st: "(through, r') = send_to ?s (send_op (request_op q)) r1"
    using assms(1) by (auto simp: serve_route route_def split: option.splits sum.splits)
  have "(\<forall>s p. map_of (rgMarkets r1) s = Some p \<longrightarrow> pcRunning p) \<and> rgCancelled r1 = rgCancelled r"
    using g assms(2) by (auto simp: getOrCreate_def update_conv' split: option.splits sum.splits if_splits)
  then show ?thesis using st by (auto simp: send_to_def update_conv' split: option.splits if_splits)
qed

lemma serve_cancelled: "serve create q r = Some (Inr (through, r')) \<Longrightarrow> rgCancelled r' = rgCancelled r"
  by (auto simp: serve_route route_def getOrCreate_def send_to_def split: option.splits sum.splits)

lemma reg_step_serving:
  assumes step: "reg_step (file_market supported decode getOk readable) log_append (CommitOrderBook encode setOk) r l r'"
    and sv: "serving r"
  shows "serving r' \<and> (rgCancelled r \<longrightarrow> rgCancelled r')"
proof -
  have ok: "registry_ok r'" using file_maker.reg_step_keeps [OF step] sv by (simp add: serving_def)
  have ok0: "registry_ok r" using sv by (simp add: serving_def)
  from step show ?thesis
  proof cases
    case (routed q)
    then show ?thesis
      using ok sv serve_running [OF routed(2)] serve_cancelled [OF routed(2)] file_maker.serve_keeps [OF ok0 routed(2)]
      by (simp add: serving_def)
  next
    case (waits q)
    then show ?thesis
      using ok sv serve_running [OF waits(2)] serve_cancelled [OF waits(2)] file_maker.serve_keeps [OF ok0 waits(2)]
      by (simp add: serving_def)
  next
    case (ran symbol p o' os env m j db evs)
    then have "db = None" using handle_no_store sv by (simp add: serving_def)
    then show ?thesis using ok sv ran by (auto simp: serving_def update_conv' split: if_splits)
  next
    case cancelled
    then show ?thesis using ok sv by (simp add: serving_def)
  next
    case (exited symbol p)
    then show ?thesis using ok sv by (simp add: serving_def)
  qed
qed

definition dispatching :: "('j, redis) process \<Rightarrow> bool" where
  "dispatching pr \<longleftrightarrow> serving (prRegistry pr) \<and> (\<not> rgCancelled (prRegistry pr) \<longrightarrow> prDispatching pr)"

lemma proc_step_dispatching:
  assumes "proc_step (file_market supported decode getOk readable) log_append (CommitOrderBook encode setOk) pr a pr'"
    and "dispatching pr"
  shows "dispatching pr'"
  using assms
proof cases
  case (routed i ch q r)
  then show ?thesis using reg_step_serving assms(2) unfolding dispatching_def by fastforce
next
  case (blocked i ch q r)
  then show ?thesis using reg_step_serving assms(2) unfolding dispatching_def by fastforce
next
  case (resumed q r)
  then show ?thesis using reg_step_serving assms(2) unfolding dispatching_def by fastforce
next
  case (worked l r)
  then show ?thesis using reg_step_serving assms(2) unfolding dispatching_def by fastforce
qed (simp_all add: dispatching_def)

lemma proc_run_dispatching:
  "proc_run (file_market supported decode getOk readable) log_append (CommitOrderBook encode setOk) pr as pr' \<Longrightarrow>
   dispatching pr \<Longrightarrow> dispatching pr'"
proof (induction rule: proc_run.induct)
  case (acts pr as pr1 a pr2)
  then show ?case using proc_step_dispatching by blast
qed

section \<open>A request always gets through to an empty inbox\<close>

lemma file_market_starts: "\<exists>m. file_market supported decode getOk readable st None s opts = Some (Inr m)"
  by (rule file_market_cases [OF refl, where supportedSymbols = supported and decode = decode and getOk = getOk
        and readable = readable and st = st and rdb = None and symbol = s and opts = opts])
    (auto simp: LoadOrderbook_def)

lemma getOrCreate_starts:
  assumes "serving r"
  shows "\<exists>r1. getOrCreate (file_market supported decode getOk readable) s r = Some (Inr r1)"
  using assms file_market_starts [of supported decode getOk readable "rgJournal r" s "rgOpts r"]
  by (auto simp: getOrCreate_def serving_def split: option.split)

lemma serve_gets_through:
  assumes sv: "serving r" and idle: "inbox_at (request_symbol q) r = []"
  shows "\<exists>r'. serve (file_market supported decode getOk readable) q r = Some (Inr (True, r'))"
proof -
  let ?c = "file_market supported decode getOk readable" and ?s = "request_symbol q"
  obtain r1 where g: "getOrCreate ?c ?s r = Some (Inr r1)" using getOrCreate_starts [OF sv] by blast
  have ok: "registry_ok r" using sv by (simp add: serving_def)
  note k = file_maker.getOrCreate_keeps [OF ok g]
  obtain p where p: "map_of (rgMarkets r1) ?s = Some p" using k by blast
  have "0 < mkCapacity (pcMarket p)" using k p unfolding registry_ok_def by blast
  moreover have "mkInbox (pcMarket p) = []"
  proof -
    have "inbox_at ?s r1 = []" using k idle by simp
    then show ?thesis using p by (simp add: inbox_at_def)
  qed
  ultimately show ?thesis using g p by (simp add: serve_route route_def send_to_def send_op_def)
qed

section \<open>Work\<close>

text \<open>
  What is left to do: three steps at most for an instrument in the channel, two for a
  blocked request, one for an operation in an inbox.
\<close>

definition pending :: "('j, 'r) registry \<Rightarrow> nat" where
  "pending r = (\<Sum>s\<in>symbols r. length (inbox_at s r))"

definition work :: "('j, 'r) process \<Rightarrow> nat" where
  "work pr = 3 * length (prChannel pr) + (if prBlocked pr = None then 0 else 2) + pending (prRegistry pr)"

lemma finite_symbols [simp]: "finite (symbols r)"
  by (simp add: symbols_def)

lemma inbox_at_unknown: "s \<notin> symbols r \<Longrightarrow> inbox_at s r = []"
  by (simp add: symbols_iff inbox_at_def split: option.split)

lemma pending_none: "pending r = 0 \<Longrightarrow> inbox_at s r = []"
  using inbox_at_unknown by (cases "s \<in> symbols r") (auto simp: pending_def)

text \<open>A goroutine that handles an operation leaves one less.\<close>

lemma ran_pending:
  assumes step: "reg_step (file_market supported decode getOk readable) log_append commit r (Ran s env o' evs) r'"
    and ok: "registry_ok r" and s: "s \<in> symbols r"
  shows "pending r' < pending r"
proof -
  have k: "inbox_at t r @ routed_to t [Ran s env o' evs] = map snd (ran_at t [Ran s env o' evs]) @ inbox_at t r'" for t
    using file_maker.reg_step_keeps [OF step ok] by blast
  have i: "inbox_at t r = (if t = s then [o'] else []) @ inbox_at t r'" for t using k [of t] by (cases "t = s") auto
  have sy: "symbols r' = symbols r"
    using step by cases (auto simp: symbols_iff update_conv' split: if_splits)
  have "pending r' = (\<Sum>t\<in>symbols r. length (inbox_at t r'))" by (simp add: pending_def sy)
  also have "\<dots> < (\<Sum>t\<in>symbols r. length (inbox_at t r))"
    by (rule sum_strict_mono_ex1) (use i s in auto)
  finally show ?thesis by (simp add: pending_def)
qed

lemma serve_pending:
  assumes go: "serve (file_market supported decode getOk readable) q r = Some (Inr (True, r'))"
    and ok: "registry_ok r" and none: "pending r = 0"
  shows "pending r' \<le> 1"
proof -
  have i: "inbox_at s r' = (if s = request_symbol q then [request_op q] else [])" for s
    using file_maker.serve_keeps [OF ok go] pending_none [OF none, of s] by auto
  have "pending r' = (\<Sum>s\<in>symbols r'. if s = request_symbol q then 1 else 0)"
    unfolding pending_def by (rule sum.cong) (simp_all add: i)
  also have "\<dots> \<le> 1" by (subst sum.delta) simp_all
  finally show ?thesis .
qed

lemma progress:
  fixes env :: 'env and log_append :: "'env \<Rightarrow> string \<Rightarrow> journal_record \<Rightarrow> file_journal \<times> disk \<Rightarrow> journal_error option \<times> (file_journal \<times> disk)"
  assumes dp: "dispatching pr" and live: "\<not> rgCancelled (prRegistry pr)" and w: "work pr \<noteq> 0"
  shows "\<exists>a pr'. proc_step (file_market supported decode getOk readable) log_append (CommitOrderBook encode setOk) pr a pr' \<and>
    delivered [a] = [] \<and> \<not> rgCancelled (prRegistry pr') \<and> work pr' < work pr"
proof -
  let ?c = "file_market supported decode getOk readable" and ?k = "CommitOrderBook encode setOk"
  let ?r = "prRegistry pr"
  have sv: "serving ?r" and on: "prDispatching pr" and ok: "registry_ok ?r"
    using dp live by (simp_all add: dispatching_def serving_def)
  show ?thesis
  proof (cases "pending ?r = 0")
    case False
    then obtain s where s: "s \<in> symbols ?r" "inbox_at s ?r \<noteq> []" by (auto simp: pending_def)
    then obtain p where p: "map_of (rgMarkets ?r) s = Some p" by (auto simp: symbols_iff)
    then obtain o' os where i: "mkInbox (pcMarket p) = o' # os" using s(2) by (auto simp: inbox_at_def neq_Nil_conv)
    have run: "pcRunning p" using sv live p by (auto simp: serving_def)
    obtain evs r' where st: "reg_step ?c log_append ?k ?r (Ran s env o' evs) r'"
      using file_maker.reg_run_progress [OF ok p run i commit_total, where env = env and log_append = log_append
          and encode1 = encode and setOk1 = setOk and supportedSymbols = supported and decode = decode and getOk = getOk
          and readable = readable] by blast
    have "rgCancelled r' = rgCancelled ?r" using st by cases simp
    moreover have "proc_step ?c log_append ?k pr (Background (Ran s env o' evs)) (pr\<lparr>prRegistry := r'\<rparr>)"
      by (rule proc_step.worked [OF _ st]) simp
    moreover have "work (pr\<lparr>prRegistry := r'\<rparr>) < work pr" using ran_pending [OF st ok s(1)] by (simp add: work_def)
    ultimately show ?thesis using live
      by (intro exI [of _ "Background (Ran s env o' evs)"] exI [of _ "pr\<lparr>prRegistry := r'\<rparr>"]) simp
  next
    case none: True
    have through: "\<exists>r'. reg_step ?c log_append ?k ?r (Routed q) r' \<and> \<not> rgCancelled r' \<and> pending r' \<le> 1" for q
    proof -
      obtain r' where go: "serve ?c q ?r = Some (Inr (True, r'))"
        using serve_gets_through [OF sv pending_none [OF none]] by blast
      show ?thesis
        using reg_step.routed [OF go] serve_cancelled [OF go] serve_pending [OF go ok none] live by blast
    qed
    show ?thesis
    proof (cases "prBlocked pr")
      case (Some q)
      obtain r' where r': "reg_step ?c log_append ?k ?r (Routed q) r'" "\<not> rgCancelled r'" "pending r' \<le> 1"
        using through by blast
      then show ?thesis
        using proc_step.resumed [OF Some r'(1)] Some none
        by (intro exI [of _ "Resumed q"] exI [of _ "pr\<lparr>prRegistry := r', prBlocked := None\<rparr>"]) (simp add: work_def)
    next
      case None
      then obtain i ch where ch: "prChannel pr = i # ch" using w none by (cases "prChannel pr") (simp_all add: work_def)
      show ?thesis
      proof (cases "dispatch i")
        case no: None
        show ?thesis
          using proc_step.ignored [OF on None ch no] live ch
          by (intro exI [of _ "Took i []"] exI [of _ "pr\<lparr>prChannel := ch\<rparr>"]) (simp add: work_def)
      next
        case (Some q)
        obtain r' where r': "reg_step ?c log_append ?k ?r (Routed q) r'" "\<not> rgCancelled r'" "pending r' \<le> 1"
          using through by blast
        then show ?thesis
          using proc_step.routed [OF on None ch Some r'(1)] none ch
          by (intro exI [of _ "Took i [Routed q]"] exI [of _ "pr\<lparr>prChannel := ch, prRegistry := r'\<rparr>"]) (simp add: work_def)
      qed
    qed
  qed
qed

lemma proc_run_append:
  assumes "proc_run create log_append commit pr1 as2 pr2"
  shows "proc_run create log_append commit pr as1 pr1 \<Longrightarrow> proc_run create log_append commit pr (as1 @ as2) pr2"
  using assms
proof (induction pr1 as2 pr2 rule: proc_run.induct)
  case (acts pr1 as2 pr2 a pr3)
  then show ?case using proc_run.acts [of create log_append commit pr "as1 @ as2" pr2 a pr3] by simp
qed simp

lemma work_can_finish:
  fixes log_append :: "'env \<Rightarrow> string \<Rightarrow> journal_record \<Rightarrow> file_journal \<times> disk \<Rightarrow> journal_error option \<times> (file_journal \<times> disk)"
  assumes "dispatching pr" and "\<not> rgCancelled (prRegistry pr)"
  shows "\<exists>as pr'. proc_run (file_market supported decode getOk readable) log_append (CommitOrderBook encode setOk) pr as pr' \<and>
    delivered as = [] \<and> \<not> rgCancelled (prRegistry pr') \<and> work pr' = 0"
  using assms
proof (induction "work pr" arbitrary: pr rule: less_induct)
  case less
  let ?c = "file_market supported decode getOk readable" and ?k = "CommitOrderBook encode setOk"
  show ?case
  proof (cases "work pr = 0")
    case True
    then show ?thesis
      using proc_run.idle [of ?c log_append ?k pr] less.prems(2) by (intro exI [of _ "[]"] exI [of _ pr]) simp
  next
    case False
    obtain a pr1 where st: "proc_step ?c log_append ?k pr a pr1" and a: "delivered [a] = []"
      and l: "\<not> rgCancelled (prRegistry pr1)" "work pr1 < work pr"
      using progress [OF less.prems False] by blast
    obtain as pr2 where run: "proc_run ?c log_append ?k pr1 as pr2" and r: "delivered as = []"
      "\<not> rgCancelled (prRegistry pr2)" "work pr2 = 0"
      using less.hyps [OF l(2) proc_step_dispatching [OF st less.prems(1)] l(1)] by blast
    have "proc_run ?c log_append ?k pr ([] @ [a]) pr1" by (rule proc_run.acts [OF proc_run.idle st])
    from proc_run_append [OF run this] have "proc_run ?c log_append ?k pr (a # as) pr2" by simp
    moreover have "delivered (a # as) = []" using delivered_append [of "[a]" as] a r by simp
    ultimately show ?thesis using r by blast
  qed
qed

section \<open>Every delivered message can be executed\<close>



end
