(* ===== verification/ReplayTool.thy ===== *)
theory ReplayTool
  imports Journal Engine JsonRecords "HOL-Library.List_Lexorder" "HOL-Library.Char_ord"
begin

text \<open>
  \<^verbatim>\<open>cmd/gun-replay/main.go\<close>: the tool that replays the journals of a directory into fresh
  books and reports on them. The flags are arguments; \<open>entries\<close> is what \<^verbatim>\<open>os.ReadDir\<close>
  gives, the names in the directory or a failure. Output is the text written.
\<close>

section \<open>Reports\<close>

record level_row =
  lrPrice :: string
  lrQty :: string

record symbol_report =
  srSymbol :: string
  srOpsReplayed :: int
  srSeq :: uint64
  srBuyLevels :: int
  srSellLevels :: int
  srBuyOrders :: int
  srSellOrders :: int
  srBestBid :: string
  srBestAsk :: string
  srBids :: "level_row list"
  srAsks :: "level_row list"

text \<open>The callback counts the records and applies them.\<close>

definition count_and_apply :: "journal_record \<Rightarrow> int \<times> orderbook \<Rightarrow> (journal_error option \<times> int \<times> orderbook) option" where
  "count_and_apply r st =
     (case st of (ops, book) \<Rightarrow>
        map_option (\<lambda>b. (None, ops + 1, b))
          (if jrKind r = RecNew then map_option snd (MatchAndAddNewOrder book (jrOrder r))
           else if jrKind r = RecCancel then Some (snd (CancelOrder book (jrOrderID r)))
           else if jrKind r = RecModify
           then map_option snd (ModifyOrder book (jrOrderID r) (jrNewPrice r) (jrNewVolume r))
           else Some book))"

definition level_row_of :: "orderbook \<Rightarrow> laddr \<Rightarrow> level_row" where
  "level_row_of book la = \<lparr>lrPrice = px_String (level_price book la), lrQty = qty_String (TotalQty (obLevels book la))\<rparr>"

text \<open>The range over a ladder that stops at the requested depth.\<close>

fun rows :: "orderbook \<Rightarrow> int \<Rightarrow> int \<Rightarrow> laddr list \<Rightarrow> level_row list" where
  "rows book depth i [] = []"
| "rows book depth i (la # las) =
     (if depth \<le> i then [] else level_row_of book la # rows book depth (i + 1) las)"

definition report_of :: "string \<Rightarrow> int \<Rightarrow> int \<Rightarrow> orderbook \<Rightarrow> symbol_report" where
  "report_of symbol ops depth book =
     \<lparr>srSymbol = symbol, srOpsReplayed = ops, srSeq = Seq book,
      srBuyLevels = LevelCount BUY book, srSellLevels = LevelCount SELL book,
      srBuyOrders = OrderCount BUY book, srSellOrders = OrderCount SELL book,
      srBestBid = (case obBuy book of [] \<Rightarrow> '''' | la # _ \<Rightarrow> px_String (level_price book la)),
      srBestAsk = (case obSell book of [] \<Rightarrow> '''' | la # _ \<Rightarrow> px_String (level_price book la)),
      srBids = rows book depth 0 (obBuy book), srAsks = rows book depth 0 (obSell book)\<rparr>"

definition replayOne :: "(string \<Rightarrow> journal_record option) \<Rightarrow> bool \<Rightarrow> file_journal \<times> disk \<Rightarrow> string \<Rightarrow> int
    \<Rightarrow> (journal_error + symbol_report) option" where
  "replayOne unmarshal readable st symbol depth =
     map_option (\<lambda>(err, ops, book).
         case err of Some e \<Rightarrow> Inl e | None \<Rightarrow> Inr (report_of symbol ops depth book))
       (Replay unmarshal readable symbol count_and_apply st (0, NewOrderbook symbol))"

section \<open>The journals of a directory\<close>

definition HasSuffix :: "string \<Rightarrow> string \<Rightarrow> bool" where
  "HasSuffix s x = (length x \<le> length s \<and> drop (length s - length x) s = x)"

definition TrimSuffix :: "string \<Rightarrow> string \<Rightarrow> string" where
  "TrimSuffix s x = (if HasSuffix s x then take (length s - length x) s else s)"

datatype tool_error = ReadDirFailed string | NoJournals string | JournalOpen journal_error | ReplayFailed string journal_error

definition listSymbols :: "string \<Rightarrow> string \<Rightarrow> string list option \<Rightarrow> tool_error + string list" where
  "listSymbols dir only entries =
     (if only \<noteq> '''' then Inr [only]
      else case entries of
        None \<Rightarrow> Inl (ReadDirFailed dir)
      | Some names \<Rightarrow>
          Inr (sort (map (\<lambda>n. TrimSuffix n ''.journal'') (filter (\<lambda>n. HasSuffix n ''.journal'') names))))"

section \<open>The program\<close>

fun replay_all :: "(string \<Rightarrow> journal_record option) \<Rightarrow> bool \<Rightarrow> file_journal \<times> disk \<Rightarrow> int \<Rightarrow> string list
    \<Rightarrow> (tool_error + symbol_report list) option" where
  "replay_all unmarshal readable st depth [] = Some (Inr [])"
| "replay_all unmarshal readable st depth (s # ss) =
     (case replayOne unmarshal readable st s depth of
        None \<Rightarrow> None
      | Some (Inl e) \<Rightarrow> Some (Inl (ReplayFailed s e))
      | Some (Inr rep) \<Rightarrow>
          (case replay_all unmarshal readable st depth ss of
             None \<Rightarrow> None
           | Some (Inl e) \<Rightarrow> Some (Inl e)
           | Some (Inr reps) \<Rightarrow> Some (Inr (rep # reps))))"

text \<open>An error is printed and ends the program with status 1.\<close>

definition replay_main :: "(string \<Rightarrow> journal_record option) \<Rightarrow> bool \<Rightarrow> bool \<Rightarrow> string \<Rightarrow> string \<Rightarrow> int
    \<Rightarrow> string list option \<Rightarrow> disk \<Rightarrow> (tool_error + symbol_report list) option" where
  "replay_main unmarshal readable mkdirOk dir symbolFlag depth entries dk =
     (case listSymbols dir symbolFlag entries of
        Inl e \<Rightarrow> Some (Inl e)
      | Inr symbols \<Rightarrow>
          if symbols = [] then Some (Inl (NoJournals dir))
          else case NewFileJournal dir False mkdirOk of
            Inl e \<Rightarrow> Some (Inl (JournalOpen e))
          | Inr j \<Rightarrow> replay_all unmarshal readable (j, dk) depth symbols)"

section \<open>The human-readable form\<close>

definition pad_right :: "nat \<Rightarrow> string \<Rightarrow> string" where
  "pad_right w s = s @ replicate (w - length s) CHR '' ''"

definition row_line :: "nat \<Rightarrow> string \<Rightarrow> string \<Rightarrow> string \<Rightarrow> string \<Rightarrow> string" where
  "row_line w bp bq ap aq =
     ''  '' @ pad_right w bp @ '' | '' @ pad_right 18 bq @ ''   '' @ pad_right w ap @ '' | '' @ pad_right 18 aq @ [newline]"

definition table_row :: "nat \<Rightarrow> level_row list \<Rightarrow> level_row list \<Rightarrow> nat \<Rightarrow> string" where
  "table_row w bids asks i =
     row_line w (if i < length bids then lrPrice (bids ! i) else '''') (if i < length bids then lrQty (bids ! i) else '''')
       (if i < length asks then lrPrice (asks ! i) else '''') (if i < length asks then lrQty (asks ! i) else '''')"

definition dashes :: "nat \<Rightarrow> string" where "dashes n = replicate n CHR ''-''"

definition column_width :: "symbol_report \<Rightarrow> nat" where
  "column_width r = fold (\<lambda>l w. if w < length (lrPrice l) then length (lrPrice l) else w) (srBids r @ srAsks r) 0"

definition printHuman :: "symbol_report \<Rightarrow> string" where
  "printHuman r =
     (let w = column_width r in
      ''== '' @ srSymbol r @ '' =='' @ [newline] @
      ''  ops replayed : '' @ fmt_d (srOpsReplayed r) @ [newline] @
      ''  next seq     : '' @ dec_digits (uint (srSeq r + 1)) @ [newline] @
      ''  resting      : buy '' @ fmt_d (srBuyOrders r) @ '' orders @ '' @ fmt_d (srBuyLevels r) @
        '' levels   sell '' @ fmt_d (srSellOrders r) @ '' orders @ '' @ fmt_d (srSellLevels r) @ '' levels'' @ [newline] @
      (if srBestBid r \<noteq> '''' \<and> srBestAsk r \<noteq> '''' then ''  spread       : '' @ srBestBid r @ '' / '' @ srBestAsk r @ [newline]
       else if srBestBid r \<noteq> '''' then ''  best bid     : '' @ srBestBid r @ ''  (no asks)'' @ [newline]
       else if srBestAsk r \<noteq> '''' then ''  best ask     : '' @ srBestAsk r @ ''  (no bids)'' @ [newline]
       else ''  book empty'' @ [newline]) @
      (if srBids r \<noteq> [] \<or> srAsks r \<noteq> []
       then [newline] @ row_line w ''bid price'' ''qty'' ''ask price'' ''qty'' @
         ''  '' @ dashes w @ ''-+-'' @ dashes 18 @ ''-+-'' @ dashes w @ ''-+-'' @ dashes 18 @ [newline] @
         concat (map (table_row w (srBids r) (srAsks r)) [0..<max (length (srBids r)) (length (srAsks r))])
       else []) @
      [newline])"

section \<open>The JSON form\<close>

text \<open>Elements are separated by commas; the encoder ends the value with a newline.\<close>

fun join_values :: "string list \<Rightarrow> string" where
  "join_values [] = []"
| "join_values [t] = t"
| "join_values (t # ts) = t @ CHR '','' # join_values ts"

definition json_array :: "string list \<Rightarrow> string" where
  "json_array ts = CHR ''['' # join_values ts @ [CHR '']'']"

definition level_row_fields :: "level_row \<Rightarrow> fields" where
  "level_row_fields l = [(''price'', json_string (lrPrice l)), (''qty'', json_string (lrQty l))]"

definition rows_JSON :: "level_row list \<Rightarrow> string" where
  "rows_JSON ls = json_array (map (\<lambda>l. json_object (level_row_fields l)) ls)"

definition report_fields :: "symbol_report \<Rightarrow> fields" where
  "report_fields r =
     [(''symbol'', json_string (srSymbol r)), (''ops_replayed'', fmt_d (srOpsReplayed r)),
      (''seq'', dec_digits (uint (srSeq r))),
      (''buy_levels'', fmt_d (srBuyLevels r)), (''sell_levels'', fmt_d (srSellLevels r)),
      (''buy_orders'', fmt_d (srBuyOrders r)), (''sell_orders'', fmt_d (srSellOrders r))] @
     unless_empty (srBestBid r = '''') ''best_bid'' (json_string (srBestBid r)) @
     unless_empty (srBestAsk r = '''') ''best_ask'' (json_string (srBestAsk r)) @
     unless_empty (srBids r = []) ''bids'' (rows_JSON (srBids r)) @
     unless_empty (srAsks r = []) ''asks'' (rows_JSON (srAsks r))"

definition replay_output :: "bool \<Rightarrow> symbol_report list \<Rightarrow> string" where
  "replay_output asJSON reports =
     (if asJSON then json_array (map (\<lambda>r. json_object (report_fields r)) reports) @ [newline]
      else concat (map printHuman reports))"

end
