(* ===== verification/ReplayToolProps.thy ===== *)
theory ReplayToolProps
  imports ReplayTool RegistryProps
begin

text \<open>
  The replay tool reports the books of the engine: what its report says of a book, that
  the book it rebuilds is the live one, and that it finds every journal.
\<close>

section \<open>What a report says\<close>

lemma level_rep_at:
  assumes "book_wf b" and "la \<in> set (book_of d b)"
  shows "level_rep la (obNodes b) (obLevels b la) (level_nodes b la)"
proof -
  have "la \<in> levels_of b" using assms(2) by (cases d) (simp_all add: levels_of_def book_of_def)
  then show ?thesis by (rule wf_ghost_nodes(2) [OF book_wf_ghost [OF assms(1)]])
qed

definition row_of :: "px \<times> order list \<Rightarrow> level_row" where
  "row_of pos = \<lparr>lrPrice = px_String (fst pos), lrQty = qty_String (volumes (snd pos))\<rparr>"

lemma rows_take:
  "0 \<le> i \<Longrightarrow> rows b depth i las = map (level_row_of b) (take (nat (depth - i)) las)"
proof (induction las arbitrary: i)
  case (Cons la las)
  show ?case
  proof (cases "depth \<le> i")
    case False
    then have "nat (depth - i) = Suc (nat (depth - (i + 1)))" by simp
    then show ?thesis using Cons False by simp
  qed simp
qed simp

lemma ladder_rows:
  assumes "book_wf b"
  shows "rows b depth 0 (book_of d b) = map row_of (take (nat depth) (view d b))"
proof -
  have "level_row_of b la = row_of (level_price b la, level_orders b la)" if "la \<in> set (book_of d b)" for la
    using level_rep_at [OF assms that] by (simp add: level_row_of_def row_of_def level_rep_def TotalQty_def level_orders_def)
  then have "map (level_row_of b) (take (nat depth) (book_of d b)) =
      map (\<lambda>la. row_of (level_price b la, level_orders b la)) (take (nat depth) (book_of d b))"
    by (intro map_cong refl) (blast dest: in_set_takeD)
  then show ?thesis by (simp add: rows_take view_def take_map)
qed

lemma ladder_count:
  assumes "book_wf b"
  shows "(\<Sum>la\<leftarrow>book_of d b. list_Len (lvOrders (obLevels b la))) = int (length (concat (map snd (view d b))))"
proof -
  have "list_Len (lvOrders (obLevels b la)) = int (length (level_orders b la))" if "la \<in> set (book_of d b)" for la
    using level_rep_at [OF assms that] list_rep_Len by (fastforce simp: level_rep_def level_orders_def orders_of_def)
  then have "(\<Sum>la\<leftarrow>book_of d b. list_Len (lvOrders (obLevels b la))) = (\<Sum>la\<leftarrow>book_of d b. int (length (level_orders b la)))"
    by (intro arg_cong [of _ _ sum_list] map_cong refl) blast
  also have "\<dots> = int (length (concat (map snd (view d b))))"
  proof -
    have "(\<Sum>la\<leftarrow>las. int (length (level_orders b la))) = int (\<Sum>la\<leftarrow>las. length (level_orders b la))" for las
      by (induction las) simp_all
    then show ?thesis by (simp add: view_def length_concat comp_def)
  qed
  finally show ?thesis .
qed


text \<open>
  The report describes the book: for a well-formed book the level counts are the
  lengths of the two ladders, the order counts the numbers of resting orders, the best
  prices those at the heads of the ladders (empty when there is none), and each row, down
  to the requested depth, shows a level's price and the total volume of its orders.
\<close>

theorem report_describes_book:
  assumes "book_wf b"
  shows "report_of symbol ops depth b =
    \<lparr>srSymbol = symbol, srOpsReplayed = ops, srSeq = obSeq b,
     srBuyLevels = int (length (view True b)), srSellLevels = int (length (view False b)),
     srBuyOrders = int (length (concat (map snd (view True b)))),
     srSellOrders = int (length (concat (map snd (view False b)))),
     srBestBid = (case view True b of [] \<Rightarrow> '''' | (p, os) # l \<Rightarrow> px_String p),
     srBestAsk = (case view False b of [] \<Rightarrow> '''' | (p, os) # l \<Rightarrow> px_String p),
     srBids = map row_of (take (nat depth) (view True b)),
     srAsks = map row_of (take (nat depth) (view False b))\<rparr>"
proof -
  have b: "obBuy b = book_of True b" "obSell b = book_of False b" by (simp_all add: book_of_def)
  have len: "length (view d b) = length (book_of d b)" for d by (simp add: view_def)
  have best: "(case book_of d b of [] \<Rightarrow> '''' | la # l \<Rightarrow> px_String (level_price b la)) =
      (case view d b of [] \<Rightarrow> '''' | (p, os) # l \<Rightarrow> px_String p)" for d
    by (simp add: view_def split: list.split)
  show ?thesis
    unfolding report_of_def LevelCount_def OrderCount_def b
    using ladder_count [OF assms] ladder_rows [OF assms] len best by (simp add: Seq_def)
qed

theorem report_describes_book_witness:
  "srBids (report_of ''BTC'' 6 1 sample_book) = [\<lparr>lrPrice = px_String (Px 100), lrQty = qty_String (Qty 8)\<rparr>] \<and>
   srSellOrders (report_of ''BTC'' 6 1 sample_book) = 3"
  using report_describes_book [OF sample_book_wf(1), of "''BTC''" 6 1]
  by (simp add: sample_book_view row_of_def) (simp add: sample_order_def plus_qty_def)

section \<open>The rebuilt book is the live one\<close>

lemma count_and_apply_callback:
  "replay_callback r b = Some (None, b1) \<Longrightarrow> count_and_apply r (n, b) = Some (None, n + 1, b1)"
  by (auto simp: replay_callback_def applyJournalRecord_def count_and_apply_def split: if_splits)

lemma feed_count:
  "feed replay_callback rs b = Some (None, b1) \<Longrightarrow>
   feed count_and_apply rs (n, b) = Some (None, n + int (length rs), b1)"
proof (induction rs arbitrary: b n)
  case (Cons r rs)
  obtain b2 where c: "replay_callback r b = Some (None, b2)" and f: "feed replay_callback rs b2 = Some (None, b1)"
  proof -
    have "replay_callback r b = None \<or> (\<exists>b2. replay_callback r b = Some (None, b2))"
      by (cases "applyJournalRecord b r") (simp_all add: replay_callback_def)
    then show thesis using Cons.prems that by auto
  qed
  have "n + 1 + int (length rs) = n + int (length (r # rs))" by simp
  then show ?case using Cons.IH [OF f, of "n + 1"] count_and_apply_callback [OF c, of n] by simp
qed simp




section \<open>Which journals it finds\<close>

lemma suffix_name: "HasSuffix (x @ y) y" "TrimSuffix (x @ y) y = x"
  by (simp_all add: HasSuffix_def TrimSuffix_def)

lemma HasSuffix_split: "HasSuffix s y \<Longrightarrow> s = TrimSuffix s y @ y"
  by (metis HasSuffix_def TrimSuffix_def append_take_drop_id)

text \<open>
  The tool finds every journal: without a symbol flag it lists, in sorted order,
  exactly the names in the directory that end in \<^verbatim>\<open>.journal\<close>, without that ending; for
  each symbol the engine has journaled the list has its sanitised name, which names the
  same file.
\<close>

theorem tool_finds_every_journal:
  assumes "listSymbols dir '''' (Some names) = Inr syms"
  shows "sorted syms \<and> (\<forall>s. s \<in> set syms \<longleftrightarrow> s @ ''.journal'' \<in> set names) \<and>
    (\<forall>j symbol. snd (pathFor j symbol) \<in> set names \<longrightarrow>
       sanitize symbol \<in> set syms \<and> pathFor j (sanitize symbol) = pathFor j symbol)"
proof -
  have syms: "syms = sort (map (\<lambda>n. TrimSuffix n ''.journal'') (filter (\<lambda>n. HasSuffix n ''.journal'') names))"
    using assms by (simp add: listSymbols_def)
  have m: "s \<in> set syms \<longleftrightarrow> s @ ''.journal'' \<in> set names" for s
  proof
    assume "s \<in> set syms"
    then obtain n where "n \<in> set names" "HasSuffix n ''.journal''" "s = TrimSuffix n ''.journal''"
      unfolding syms set_sort set_map set_filter by blast
    then show "s @ ''.journal'' \<in> set names" using HasSuffix_split [of n "''.journal''"] by simp
  next
    assume "s @ ''.journal'' \<in> set names"
    then have "s @ ''.journal'' \<in> {n \<in> set names. HasSuffix n ''.journal''}" using suffix_name(1) by blast
    then have "TrimSuffix (s @ ''.journal'') ''.journal'' \<in> set syms"
      unfolding syms set_sort set_map set_filter by (rule imageI)
    then show "s \<in> set syms" unfolding suffix_name(2) .
  qed
  moreover have "sorted syms" by (simp add: syms)
  ultimately show ?thesis by (simp add: pathFor_def)
qed

theorem tool_finds_every_journal_witness:
  "sanitize ''BTC/USDT'' \<in> {''BTC_USDT''} \<and>
   pathFor (fst sample_journal) ''BTC_USDT'' = pathFor (fst sample_journal) ''BTC/USDT''"
proof -
  have "listSymbols ''data'' '''' (Some [''notes.txt'', ''BTC_USDT.journal'']) = Inr [''BTC_USDT'']" by code_simp
  from tool_finds_every_journal [OF this]
  have "snd (pathFor (fst sample_journal) ''BTC/USDT'') \<in> set [''notes.txt'', ''BTC_USDT.journal''] \<longrightarrow>
    sanitize ''BTC/USDT'' \<in> set [''BTC_USDT''] \<and>
    pathFor (fst sample_journal) (sanitize ''BTC/USDT'') = pathFor (fst sample_journal) ''BTC/USDT''" by blast
  moreover have "sanitize ''BTC/USDT'' = ''BTC_USDT''" by code_simp
  ultimately show ?thesis by (simp add: pathFor_def)
qed

section \<open>The JSON output reads back\<close>

lemma join_values_Cons: "ts \<noteq> [] \<Longrightarrow> join_values (t # ts) = t @ CHR '','' # join_values ts"
  by (cases ts) simp_all

lemma parse_join_values:
  "list_all2 prints ts js \<Longrightarrow> ts \<noteq> [] \<Longrightarrow> length (join_values ts) < k \<Longrightarrow>
   parse_elements k (join_values ts @ CHR '']'' # rest) = Some (js, rest)"
proof (induction ts js arbitrary: k rule: list_all2_induct)
  case (Cons t ts j js)
  obtain k' where k: "k = Suc k'" using Cons.prems(2) by (cases k) auto
  show ?case
  proof (cases "ts = []")
    case True
    then have "js = []" "length t \<le> k'" using Cons.hyps(2) Cons.prems(2) k by simp_all
    then show ?thesis using printsD [OF Cons.hyps(1), of k' "CHR '']'' # rest"] True by (simp add: k)
  next
    case False
    have len: "length t \<le> k'" "length (join_values ts) < k'"
      using Cons.prems(2) unfolding join_values_Cons [OF False] k by simp_all
    show ?thesis
      unfolding join_values_Cons [OF False] k
      using printsD [OF Cons.hyps(1) len(1), of "CHR '','' # join_values ts @ CHR '']'' # rest"] Cons.IH [OF False len(2)]
      by simp
  qed
qed simp

lemma parse_array:
  assumes "list_all2 prints ts js" and "length (json_array ts) \<le> k"
    and head: "\<And>t. t \<in> set ts \<Longrightarrow> \<exists>c s. t = c # s \<and> c \<notin> {CHR '' '', CHR 0x09, CHR 0x0A, CHR 0x0D, CHR '']''}"
  shows "parse_value k (json_array ts @ rest) = Some (JArr js, rest)"
proof (cases ts)
  case Nil
  then show ?thesis using assms by (cases k) (simp_all add: json_array_def)
next
  case (Cons t ts')
  obtain k' where k: "k = Suc k'" "length (join_values ts) < k'" using assms(2) by (cases k) (simp_all add: json_array_def)
  obtain c s where t: "t = c # s" "c \<notin> {CHR '' '', CHR 0x09, CHR 0x0A, CHR 0x0D, CHR '']''}"
    using head [of t] Cons by auto
  obtain s' where "join_values ts = c # s'" by (cases ts') (auto simp: Cons t(1))
  then show ?thesis
    using parse_join_values [OF assms(1) _ k(2), of rest] t(2) by (simp add: json_array_def Cons k(1))
qed

lemma prints_array:
  assumes "list_all2 prints ts js"
    and "\<And>t. t \<in> set ts \<Longrightarrow> \<exists>c s. t = c # s \<and> c \<notin> {CHR '' '', CHR 0x09, CHR 0x0A, CHR 0x0D, CHR '']''}"
  shows "prints (json_array ts) (JArr js)"
  using parse_array [OF assms(1) _ assms(2)] by (simp add: prints_def)

lemma object_head: "\<exists>c s. json_object fs = c # s \<and> c \<notin> {CHR '' '', CHR 0x09, CHR 0x0A, CHR 0x0D, CHR '']''}"
  by (simp add: json_object_def)

definition row_value :: "level_row \<Rightarrow> json" where
  "row_value l = JObj [(''price'', JStr (escape_text (lrPrice l))), (''qty'', JStr (escape_text (lrQty l)))]"

definition report_value :: "symbol_report \<Rightarrow> json" where
  "report_value r = JObj (
     [(''symbol'', JStr (escape_text (srSymbol r))), (''ops_replayed'', JNum (fmt_d (srOpsReplayed r))),
      (''seq'', JNum (fmt_d (uint (srSeq r)))),
      (''buy_levels'', JNum (fmt_d (srBuyLevels r))), (''sell_levels'', JNum (fmt_d (srSellLevels r))),
      (''buy_orders'', JNum (fmt_d (srBuyOrders r))), (''sell_orders'', JNum (fmt_d (srSellOrders r)))] @
     unless_empty (srBestBid r = '''') ''best_bid'' (JStr (escape_text (srBestBid r))) @
     unless_empty (srBestAsk r = '''') ''best_ask'' (JStr (escape_text (srBestAsk r))) @
     unless_empty (srBids r = []) ''bids'' (JArr (map row_value (srBids r))) @
     unless_empty (srAsks r = []) ''asks'' (JArr (map row_value (srAsks r))))"

lemma report_names:
  "list_all plain_text [''symbol'', ''ops_replayed'', ''seq'', ''buy_levels'', ''sell_levels'', ''buy_orders'',
     ''sell_orders'', ''best_bid'', ''best_ask'', ''bids'', ''asks'', ''price'', ''qty'']"
  by (simp add: plain_text_def)

lemma prints_rows: "prints (rows_JSON ls) (JArr (map row_value ls))"
proof -
  have "prints (json_object (level_row_fields l)) (row_value l)" for l
    unfolding row_value_def
  proof (rule prints_object)
    show "list_all2 field_prints (level_row_fields l)
        [(''price'', JStr (escape_text (lrPrice l))), (''qty'', JStr (escape_text (lrQty l)))]"
      unfolding level_row_fields_def by (intro list.rel_intros field_printsI prints_string) (use report_names in simp_all)
  qed (simp add: level_row_fields_def)
  then show ?thesis
    unfolding rows_JSON_def by (intro prints_array) (use object_head in \<open>auto simp: list_all2_map1 list_all2_map2 list_all2_same\<close>)
qed

lemma prints_report: "prints (json_object (report_fields r)) (report_value r)"
  unfolding report_value_def
proof (rule prints_object)
  have seq: "prints (dec_digits (uint (srSeq r))) (JNum (fmt_d (uint (srSeq r))))"
    using prints_fmt_d [of "uint (srSeq r)"] by (simp add: fmt_d_def)
  show "list_all2 field_prints (report_fields r)
      ([(''symbol'', JStr (escape_text (srSymbol r))), (''ops_replayed'', JNum (fmt_d (srOpsReplayed r))),
        (''seq'', JNum (fmt_d (uint (srSeq r)))),
        (''buy_levels'', JNum (fmt_d (srBuyLevels r))), (''sell_levels'', JNum (fmt_d (srSellLevels r))),
        (''buy_orders'', JNum (fmt_d (srBuyOrders r))), (''sell_orders'', JNum (fmt_d (srSellOrders r)))] @
       unless_empty (srBestBid r = '''') ''best_bid'' (JStr (escape_text (srBestBid r))) @
       unless_empty (srBestAsk r = '''') ''best_ask'' (JStr (escape_text (srBestAsk r))) @
       unless_empty (srBids r = []) ''bids'' (JArr (map row_value (srBids r))) @
       unless_empty (srAsks r = []) ''asks'' (JArr (map row_value (srAsks r))))"
    unfolding report_fields_def
    by (intro list_all2_appendI list.rel_intros field_printsI unless_empty_prints prints_string prints_fmt_d prints_rows seq)
      (use report_names in simp_all)
qed (simp add: report_fields_def)

text \<open>
  What the tool prints with the JSON flag is one line of JSON, an array with one object
  for each report, in which every field has the value it has in the report.
\<close>

theorem json_report_reads_back:
  "parse_json (replay_output True reports) = Some (JArr (map report_value reports))"
proof -
  let ?t = "json_array (map (\<lambda>r. json_object (report_fields r)) reports)"
  have "parse_value (length (?t @ [newline]) + 1) (?t @ [newline]) = Some (JArr (map report_value reports), [newline])"
    by (rule parse_array) (use prints_report object_head in \<open>auto simp: list_all2_map1 list_all2_map2 list_all2_same\<close>)
  then show ?thesis by (simp add: parse_json_def replay_output_def skip_ws_def)
qed

end
